(* ===== verification/Pulsar_Prelude.thy ===== *)
theory Pulsar_Prelude
  imports Main "HOL-Library.Word" "HOL-Library.Multiset"
begin

text \<open>
  Shared vocabulary of the Pulsar development: the machine integer types of the C++ sources,
  the ways a C++ function can fail, the Linux error numbers the runtime stores into
  \<^verbatim>\<open>errno\<close>, the ordered association list that stands for \<^verbatim>\<open>std::map\<close>,
  the "find the first element and erase it" idiom of the queues, arithmetic facts on words
  that do not overflow, and the interface of an inductive invariant of a step relation.
\<close>

unbundle bit_operations_syntax

section \<open>Types and failures\<close>

type_synonym u8 = "8 word"
type_synonym u32 = "32 word"
type_synonym u64 = "64 word"

text \<open>Addresses are 64-bit words and \<open>0\<close> is \<^verbatim>\<open>nullptr\<close>.\<close>

type_synonym addr = u64

text \<open>
  \<open>BadAlloc\<close> and \<open>LogicError\<close> are C++ exceptions; \<open>Panic\<close> is a failed
  \<^verbatim>\<open>CondPanic\<close> (utils.hpp; it asserts, so the process ends in a build with
  assertions); \<open>Terminate\<close> is \<^verbatim>\<open>std::terminate\<close>; \<open>Undefined\<close> marks behaviour the
  C++ standard leaves undefined (an invalidated iterator, an index out of range, a null
  dereference).
\<close>

datatype failure =
    BadAlloc
  | LogicError string
  | Panic string
  | Terminate
  | Undefined string

type_synonym 'a result = "failure + 'a"

definition CondPanic :: "bool \<Rightarrow> string \<Rightarrow> unit result" where
  "CondPanic condition err = (if condition then Inr () else Inl (Panic err))"

definition bind_res :: "'a result \<Rightarrow> ('a \<Rightarrow> 'b result) \<Rightarrow> 'b result" where
  "bind_res r f = (case r of Inl e \<Rightarrow> Inl e | Inr x \<Rightarrow> f x)"

lemma bind_res_simps [simp]:
  "bind_res (Inl e) f = Inl e"
  "bind_res (Inr x) f = f x"
  by (simp_all add: bind_res_def)

lemma bind_res_Inr_iff: "bind_res r f = Inr y \<longleftrightarrow> (\<exists>x. r = Inr x \<and> f x = Inr y)"
  by (cases r) auto

lemma CondPanic_Inr_iff [simp]: "CondPanic c err = Inr u \<longleftrightarrow> c"
  by (simp add: CondPanic_def)

lemma CondPanic_True [simp]: "CondPanic True err = Inr ()"
  by (simp add: CondPanic_def)

lemma CondPanic_False [simp]: "CondPanic False err = Inl (Panic err)"
  by (simp add: CondPanic_def)

text \<open>Linux error numbers, as the sources store them in \<^verbatim>\<open>errno\<close>.\<close>

type_synonym errno = int

definition EPERM :: errno where "EPERM = 1"
definition EINTR :: errno where "EINTR = 4"
definition EBADF :: errno where "EBADF = 9"
definition EAGAIN :: errno where "EAGAIN = 11"
definition EBUSY :: errno where "EBUSY = 16"
definition EINVAL :: errno where "EINVAL = 22"
definition EPIPE :: errno where "EPIPE = 32"
definition EDEADLK :: errno where "EDEADLK = 35"
definition EPROTO :: errno where "EPROTO = 71"
definition ENOTSUP :: errno where "ENOTSUP = 95"
definition ECONNRESET :: errno where "ECONNRESET = 104"
definition ETIMEDOUT :: errno where "ETIMEDOUT = 110"
definition EINPROGRESS :: errno where "EINPROGRESS = 115"
definition ECANCELED :: errno where "ECANCELED = 125"

lemmas errno_defs = EPERM_def EINTR_def EBADF_def EAGAIN_def EBUSY_def EINVAL_def EPIPE_def
  EDEADLK_def EPROTO_def ENOTSUP_def ECONNRESET_def ETIMEDOUT_def EINPROGRESS_def ECANCELED_def

section \<open>First match of a sequence\<close>

text \<open>
  \<open>take_first P xs\<close> is the loop "walk the container, and at the first element with \<open>P\<close> move
  it out, erase it and stop" that the queues use.
\<close>

fun take_first :: "('a \<Rightarrow> bool) \<Rightarrow> 'a list \<Rightarrow> ('a \<times> 'a list) option" where
  "take_first P [] = None"
| "take_first P (x # xs) =
     (if P x then Some (x, xs) else map_option (\<lambda>(y, ys). (y, x # ys)) (take_first P xs))"

lemma take_first_None_iff: "take_first P xs = None \<longleftrightarrow> (\<forall>x \<in> set xs. \<not> P x)"
  by (induction xs) auto

lemma take_first_SomeD:
  "take_first P xs = Some (x, ys) \<Longrightarrow>
     \<exists>pre post. xs = pre @ x # post \<and> ys = pre @ post \<and> P x \<and> (\<forall>y \<in> set pre. \<not> P y)"
proof (induction xs arbitrary: ys)
  case Nil
  then show ?case by simp
next
  case (Cons a xs)
  show ?case
  proof (cases "P a")
    case True
    with Cons.prems show ?thesis by (auto intro: exI [of _ "[]"])
  next
    case False
    with Cons.prems obtain zs where z: "take_first P xs = Some (x, zs)" "ys = a # zs"
      by auto
    from Cons.IH [OF z(1)] obtain pre post where
      "xs = pre @ x # post" "zs = pre @ post" "P x" "\<forall>y \<in> set pre. \<not> P y"
      by blast
    with z(2) False have "a # xs = (a # pre) @ x # post \<and> ys = (a # pre) @ post \<and> P x \<and> (\<forall>y \<in> set (a # pre). \<not> P y)"
      by simp
    then show ?thesis by blast
  qed
qed

lemma take_first_mset: "take_first P xs = Some (x, ys) \<Longrightarrow> mset xs = add_mset x (mset ys)"
  by (auto dest: take_first_SomeD)

lemma take_first_P: "take_first P xs = Some (x, ys) \<Longrightarrow> P x"
  by (auto dest: take_first_SomeD)

section \<open>Ordered maps\<close>

text \<open>
  A \<^verbatim>\<open>std::map\<close> is the list of its entries in iteration order, which is the order of
  its keys.
\<close>

type_synonym ('k, 'v) smap = "('k \<times> 'v) list"

fun smap_upd :: "'k::linorder \<Rightarrow> 'v \<Rightarrow> ('k, 'v) smap \<Rightarrow> ('k, 'v) smap" where
  "smap_upd k v [] = [(k, v)]"
| "smap_upd k v ((a, b) # m) =
     (if k < a then (k, v) # (a, b) # m
      else if k = a then (k, v) # m
      else (a, b) # smap_upd k v m)"

definition smap_erase :: "'k \<Rightarrow> ('k, 'v) smap \<Rightarrow> ('k, 'v) smap" where
  "smap_erase k m = filter (\<lambda>(a, b). a \<noteq> k) m"

definition smap_inv :: "('k::linorder, 'v) smap \<Rightarrow> bool" where
  "smap_inv m \<longleftrightarrow> sorted_wrt (<) (map fst m)"

lemma smap_inv_Nil [simp]: "smap_inv []"
  by (simp add: smap_inv_def)

lemma smap_upd_keys: "fst ` set (smap_upd k v m) = insert k (fst ` set m)"
  by (induction k v m rule: smap_upd.induct) auto

lemma smap_inv_Cons [simp]: "smap_inv ((a, b) # m) \<longleftrightarrow> (\<forall>k \<in> fst ` set m. a < k) \<and> smap_inv m"
  by (auto simp: smap_inv_def)

lemma smap_inv_upd [simp]: "smap_inv m \<Longrightarrow> smap_inv (smap_upd k v m)"
  by (induction k v m rule: smap_upd.induct) (auto simp: smap_upd_keys)

lemma map_of_below: "\<forall>k' \<in> fst ` set m. k < k' \<Longrightarrow> map_of m k = None"
  for k :: "'k::linorder"
  by (force simp: map_of_eq_None_iff)

lemma map_of_smap_upd [simp]: "smap_inv m \<Longrightarrow> map_of (smap_upd k v m) = (map_of m)(k \<mapsto> v)"
  by (induction k v m rule: smap_upd.induct) (auto simp: fun_eq_iff)

lemma map_of_smap_erase [simp]: "map_of (smap_erase k m) = (map_of m)(k := None)"
  by (induction m) (auto simp: smap_erase_def fun_eq_iff)

lemma smap_inv_erase [simp]: "smap_inv m \<Longrightarrow> smap_inv (smap_erase k m)"
  by (induction m) (auto simp: smap_erase_def)

section \<open>Words that do not overflow\<close>

lemma unat_add_room:
  fixes a b m :: "'w::len word"
  assumes "a \<le> m" and "b \<le> m - a"
  shows "unat (a + b) = unat a + unat b" and "unat a + unat b \<le> unat m"
proof -
  have "unat (m - a) = unat m - unat a"
    using assms(1) by (rule unat_sub)
  with assms have le: "unat a + unat b \<le> unat m"
    by (simp add: word_le_nat_alt)
  have "unat m < 2 ^ LENGTH('w)" by (rule unsigned_less)
  with le have "unat a + unat b < 2 ^ LENGTH('w)" by (rule le_less_trans)
  then show "unat (a + b) = unat a + unat b"
    by (simp only: unat_add_lem)
  show "unat a + unat b \<le> unat m" by (rule le)
qed

lemma sum_list_remove_middle:
  fixes f :: "'a \<Rightarrow> 'b::comm_monoid_add"
  shows "sum_list (map f (xs @ y # ys)) = f y + sum_list (map f (xs @ ys))"
  by (simp add: ac_simps)

section \<open>Sequences of sequences\<close>

lemma mset_concat_update:
  assumes "i < length xs"
  shows "mset (concat (map f (xs[i := y]))) + mset (f (xs ! i)) = mset (concat (map f xs)) + mset (f y)"
  using assms
proof (induction xs arbitrary: i)
  case (Cons x xs)
  then show ?case by (cases i) (auto simp: ac_simps)
qed simp

section \<open>Inductive invariants\<close>

text \<open>
  The contract between a step relation and the safety properties proved of it: \<open>inv\<close> holds at
  the start and every step keeps it, so it holds in every reachable state. Every step relation
  of the development interprets this locale.
\<close>

locale invariant_of =
  fixes init :: "'s \<Rightarrow> bool"
    and step :: "'s \<Rightarrow> 's \<Rightarrow> bool"
    and inv :: "'s \<Rightarrow> bool"
  assumes inv_init: "init s \<Longrightarrow> inv s"
    and inv_step: "inv s \<Longrightarrow> step s t \<Longrightarrow> inv t"
begin

lemma inv_steps: "inv s \<Longrightarrow> step\<^sup>*\<^sup>* s t \<Longrightarrow> inv t"
  by (rotate_tac 1, induction rule: rtranclp_induct) (auto intro: inv_step)

lemma inv_reachable: "init s \<Longrightarrow> step\<^sup>*\<^sup>* s t \<Longrightarrow> inv t"
  by (blast intro: inv_init inv_steps)

end

end
