(* ===== verification/Stack_Allocator.thy ===== *)
theory Stack_Allocator
  imports Pulsar_Prelude
begin

text \<open>
  Model of \<^verbatim>\<open>stack_allocator.hpp\<close> and \<^verbatim>\<open>stack_allocator.cpp\<close>: stack blocks, the raw
  allocation and release paths in both build modes, the direct allocator and the pooled
  allocator with its size classes, byte budget, trim loop and statistics. Sizes and counters
  are 64-bit words with C++ wrap-around. The operating system is a parameter: an
  \<open>os_answers\<close> record holds what \<^verbatim>\<open>malloc\<close>, \<^verbatim>\<open>mmap\<close> and \<^verbatim>\<open>mprotect\<close> return to one
  call, and \<open>memory\<close> is the list of live regions those calls and their inverses create and
  remove. Each critical section under \<^verbatim>\<open>impl_->mutex\<close> is one definition; the public
  operations compose them, and \<open>pool_step\<close> interleaves them.
\<close>

section \<open>Blocks\<close>

datatype FiberStackBackend = MALLOC | MMAP

record FiberStackBlock =
  allocation :: addr
  stackBase :: addr
  usableSize :: u64
  allocationSize :: u64
  backend :: FiberStackBackend

definition empty_block :: FiberStackBlock where
  "empty_block = \<lparr>allocation = 0, stackBase = 0, usableSize = 0, allocationSize = 0,
     backend = MALLOC\<rparr>"

definition block_valid :: "FiberStackBlock \<Rightarrow> bool" where
  "block_valid b \<longleftrightarrow> allocation b \<noteq> 0"

definition stackPointer :: "FiberStackBlock \<Rightarrow> addr" where
  "stackPointer b = (if stackBase b = 0 then 0 else stackBase b + usableSize b)"

definition clear :: "FiberStackBlock \<Rightarrow> FiberStackBlock" where
  "clear b = b\<lparr>allocation := 0, stackBase := 0, usableSize := 0, allocationSize := 0,
     backend := MALLOC\<rparr>"

text \<open>The move operations return the destination and what is left in the source.\<close>

definition move_construct :: "FiberStackBlock \<Rightarrow> FiberStackBlock \<times> FiberStackBlock" where
  "move_construct other =
     (\<lparr>allocation = allocation other, stackBase = stackBase other,
       usableSize = usableSize other, allocationSize = allocationSize other,
       backend = backend other\<rparr>, clear other)"

definition move_assign ::
  "FiberStackBlock \<Rightarrow> FiberStackBlock \<Rightarrow> (FiberStackBlock \<times> FiberStackBlock) result" where
  "move_assign this_block other =
     (if allocation this_block \<noteq> 0 then Inl Terminate
      else Inr (this_block\<lparr>allocation := allocation other, stackBase := stackBase other,
                  usableSize := usableSize other, allocationSize := allocationSize other,
                  backend := backend other\<rparr>, clear other))"

section \<open>Sizes\<close>

record platform =
  minimum_size :: u64 \<comment> \<open>\<^verbatim>\<open>boost::context::stack_traits::minimum_size()\<close>\<close>
  guard_pages :: bool \<comment> \<open>the build option \<^verbatim>\<open>PULSAR_FIBER_GUARD_PAGES\<close>\<close>
  sc_pagesize :: u64  \<comment> \<open>the \<^verbatim>\<open>long\<close> that \<^verbatim>\<open>sysconf(_SC_PAGESIZE)\<close> returns\<close>

definition NormalizeMinimum :: "platform \<Rightarrow> u64 \<Rightarrow> u64" where
  "NormalizeMinimum P requestedSize = max requestedSize (minimum_size P)"

function smear :: "nat \<Rightarrow> u64 \<Rightarrow> u64" where
  "smear shift value =
     (if 0 < shift \<and> shift < 64 then smear (2 * shift) (value OR drop_bit shift value)
      else value)"
  by pat_completeness auto
termination
  by (relation "measure (\<lambda>(shift, value). 64 - shift)") auto

definition NextPowerOfTwo :: "u64 \<Rightarrow> u64 result" where
  "NextPowerOfTwo value =
     (if value \<le> 1 then Inr 1
      else if drop_bit 1 (- 1) + 1 < value then Inl BadAlloc
      else let value = smear 1 (value - 1) in
        if value = - 1 then Inl BadAlloc else Inr (value + 1))"

definition PageSize :: "platform \<Rightarrow> u64 result" where
  "PageSize P = (if sint (sc_pagesize P) \<le> 0 then Inl BadAlloc else Inr (sc_pagesize P))"

definition AlignUp :: "u64 \<Rightarrow> u64 \<Rightarrow> u64 result" where
  "AlignUp value alignment =
     (if - 1 - (alignment - 1) < value then Inl BadAlloc
      else Inr ((value + alignment - 1) div alignment * alignment))"

section \<open>Raw allocation\<close>

text \<open>A live region: its address, the call that made it, its size in bytes.\<close>

type_synonym memory = "(addr \<times> FiberStackBackend \<times> u64) list"

record os_answers =
  malloc_ret :: addr
  mmap_ret :: addr
  mprotect_ret :: int

definition MAP_FAILED :: addr where
  "MAP_FAILED = - 1"

definition mem_remove :: "addr \<Rightarrow> memory \<Rightarrow> memory" where
  "mem_remove a mem = filter (\<lambda>r. fst r \<noteq> a) mem"

definition AllocateRaw ::
  "platform \<Rightarrow> os_answers \<Rightarrow> u64 \<Rightarrow> memory \<Rightarrow> memory \<times> FiberStackBlock result" where
  "AllocateRaw P os requestedSize mem =
     (let normalized = NormalizeMinimum P requestedSize in
      if guard_pages P then
        (case PageSize P of Inl e \<Rightarrow> (mem, Inl e) | Inr guardSize \<Rightarrow>
         (case AlignUp normalized guardSize of Inl e \<Rightarrow> (mem, Inl e) | Inr usable \<Rightarrow>
          if - 1 - guardSize < usable then (mem, Inl BadAlloc)
          else
            (let total = usable + guardSize; p = mmap_ret os in
             if p = MAP_FAILED then (mem, Inl BadAlloc)
             else
               (let mem = (p, MMAP, total) # mem in
                if mprotect_ret os \<noteq> 0 then (mem_remove p mem, Inl BadAlloc)
                else (mem, Inr \<lparr>allocation = p, stackBase = p + guardSize, usableSize = usable,
                                allocationSize = total, backend = MMAP\<rparr>)))))
      else
        (let p = malloc_ret os in
         if p = 0 then (mem, Inl BadAlloc)
         else ((p, MALLOC, normalized) # mem,
               Inr \<lparr>allocation = p, stackBase = p, usableSize = normalized,
                    allocationSize = normalized, backend = MALLOC\<rparr>)))"

definition FreeRaw ::
  "platform \<Rightarrow> FiberStackBlock \<Rightarrow> memory \<Rightarrow> (memory \<times> FiberStackBlock) result" where
  "FreeRaw P block mem =
     (if \<not> block_valid block then Inr (mem, block)
      else if backend block = MMAP then
        (if guard_pages P then Inr (mem_remove (allocation block) mem, clear block)
         else Inl Terminate)
      else Inr (mem_remove (allocation block) mem, clear block))"

definition UpdatePeak :: "u64 \<Rightarrow> u64 \<Rightarrow> u64" where
  "UpdatePeak peak value = (if peak < value then value else peak)"

section \<open>Statistics and the direct allocator\<close>

record FiberStackStats =
  acquireRequests :: u64
  cacheHits :: u64
  cacheMisses :: u64
  returns :: u64
  evictions :: u64
  passthroughAllocations :: u64
  systemAllocations :: u64
  systemFrees :: u64
  cachedBytes :: u64
  checkedOutBytes :: u64
  peakCheckedOutBytes :: u64

definition zero_stats :: FiberStackStats where
  "zero_stats = \<lparr>acquireRequests = 0, cacheHits = 0, cacheMisses = 0, returns = 0,
     evictions = 0, passthroughAllocations = 0, systemAllocations = 0, systemFrees = 0,
     cachedBytes = 0, checkedOutBytes = 0, peakCheckedOutBytes = 0\<rparr>"

record DirectImpl =
  d_acquireRequests :: u64
  d_cacheMisses :: u64
  d_returns :: u64
  d_passthroughAllocations :: u64
  d_systemAllocations :: u64
  d_systemFrees :: u64
  d_checkedOutBytes :: u64
  d_peakCheckedOutBytes :: u64

definition DirectStackAllocator :: DirectImpl where
  "DirectStackAllocator = \<lparr>d_acquireRequests = 0, d_cacheMisses = 0, d_returns = 0,
     d_passthroughAllocations = 0, d_systemAllocations = 0, d_systemFrees = 0,
     d_checkedOutBytes = 0, d_peakCheckedOutBytes = 0\<rparr>"

definition Direct_acquire ::
  "platform \<Rightarrow> os_answers \<Rightarrow> u64 \<Rightarrow> DirectImpl \<times> memory \<Rightarrow>
     (DirectImpl \<times> memory) \<times> FiberStackBlock result" where
  "Direct_acquire P os requestedSize s =
     (let impl = (fst s)\<lparr>d_acquireRequests := d_acquireRequests (fst s) + 1,
            d_cacheMisses := d_cacheMisses (fst s) + 1,
            d_passthroughAllocations := d_passthroughAllocations (fst s) + 1\<rparr> in
      case AllocateRaw P os requestedSize (snd s) of
        (mem, Inl e) \<Rightarrow> ((impl, mem), Inl e)
      | (mem, Inr block) \<Rightarrow>
          (let checkedOut = d_checkedOutBytes impl + allocationSize block in
           ((impl\<lparr>d_systemAllocations := d_systemAllocations impl + 1,
                  d_checkedOutBytes := checkedOut,
                  d_peakCheckedOutBytes := UpdatePeak (d_peakCheckedOutBytes impl) checkedOut\<rparr>,
             mem), Inr block)))"

definition Direct_release ::
  "platform \<Rightarrow> FiberStackBlock \<Rightarrow> DirectImpl \<times> memory \<Rightarrow> (DirectImpl \<times> memory) result" where
  "Direct_release P block s =
     (if \<not> block_valid block then Inr s
      else
        (let impl = (fst s)\<lparr>d_returns := d_returns (fst s) + 1,
               d_checkedOutBytes := d_checkedOutBytes (fst s) - allocationSize block\<rparr> in
         bind_res (FreeRaw P block (snd s)) (\<lambda>(mem, _).
           Inr (impl\<lparr>d_systemFrees := d_systemFrees impl + 1\<rparr>, mem))))"

definition Direct_trim :: "u64 \<Rightarrow> DirectImpl \<Rightarrow> DirectImpl" where
  "Direct_trim keepBytes impl = impl"

definition Direct_stats :: "DirectImpl \<Rightarrow> FiberStackStats" where
  "Direct_stats impl =
     zero_stats\<lparr>acquireRequests := d_acquireRequests impl, cacheMisses := d_cacheMisses impl,
       returns := d_returns impl, passthroughAllocations := d_passthroughAllocations impl,
       systemAllocations := d_systemAllocations impl, systemFrees := d_systemFrees impl,
       checkedOutBytes := d_checkedOutBytes impl,
       peakCheckedOutBytes := d_peakCheckedOutBytes impl\<rparr>"

definition Direct_resetStats :: "DirectImpl \<Rightarrow> DirectImpl" where
  "Direct_resetStats impl =
     impl\<lparr>d_acquireRequests := 0, d_cacheMisses := 0, d_returns := 0,
       d_passthroughAllocations := 0, d_systemAllocations := 0, d_systemFrees := 0,
       d_peakCheckedOutBytes := d_checkedOutBytes impl\<rparr>"

section \<open>The pooled allocator\<close>

record StackPoolOptions =
  maxCachedBytes :: u64
  maxPooledStackSize :: u64

definition kDefaultMaxCachedBytes :: u64 where
  "kDefaultMaxCachedBytes = 64 * 1024 * 1024"

definition kDefaultMaxPooledStackSize :: u64 where
  "kDefaultMaxPooledStackSize = 1 * 1024 * 1024"

record PooledImpl =
  options :: StackPoolOptions
  freeLists :: "(u64, FiberStackBlock list) smap"
  counters :: FiberStackStats
  failNextCacheInsert :: bool

definition PooledStackAllocator :: "platform \<Rightarrow> StackPoolOptions \<Rightarrow> PooledImpl result" where
  "PooledStackAllocator P opts =
     bind_res (if maxPooledStackSize opts \<noteq> 0
               then NextPowerOfTwo (NormalizeMinimum P (maxPooledStackSize opts))
               else Inr 0)
       (\<lambda>size. Inr \<lparr>options = opts\<lparr>maxPooledStackSize := size\<rparr>, freeLists = [],
                    counters = zero_stats, failNextCacheInsert = False\<rparr>)"

definition pooledSizeFor :: "platform \<Rightarrow> u64 \<Rightarrow> u64 result" where
  "pooledSizeFor P requestedSize = NextPowerOfTwo (NormalizeMinimum P requestedSize)"

definition acquire_cacheable :: "u64 \<Rightarrow> PooledImpl \<Rightarrow> bool" where
  "acquire_cacheable pooledSize p \<longleftrightarrow>
     maxCachedBytes (options p) \<noteq> 0 \<and> maxPooledStackSize (options p) \<noteq> 0 \<and>
     pooledSize \<le> maxPooledStackSize (options p)"

definition peak_update :: "FiberStackStats \<Rightarrow> FiberStackStats" where
  "peak_update c = c\<lparr>peakCheckedOutBytes := max (peakCheckedOutBytes c) (checkedOutBytes c)\<rparr>"

text \<open>The free list of a size class; a class without an entry has none.\<close>

definition bucket_of :: "u64 \<Rightarrow> PooledImpl \<Rightarrow> FiberStackBlock list" where
  "bucket_of k p = (case map_of (freeLists p) k of None \<Rightarrow> [] | Some bs \<Rightarrow> bs)"

text \<open>The first critical section of \<^verbatim>\<open>acquire\<close>: a cached block, or a recorded miss.\<close>

definition acquire_locked :: "u64 \<Rightarrow> PooledImpl \<Rightarrow> PooledImpl \<times> FiberStackBlock option" where
  "acquire_locked pooledSize p =
     (let cacheable = acquire_cacheable pooledSize p;
          c = (counters p)\<lparr>acquireRequests := acquireRequests (counters p) + 1\<rparr>;
          bucket = bucket_of pooledSize p in
      if cacheable \<and> bucket \<noteq> [] then
        (let block = last bucket;
             c = c\<lparr>cacheHits := cacheHits c + 1,
                   cachedBytes := cachedBytes c - allocationSize block,
                   checkedOutBytes := checkedOutBytes c + allocationSize block\<rparr> in
         (p\<lparr>freeLists := smap_upd pooledSize (butlast bucket) (freeLists p),
            counters := peak_update c\<rparr>, Some block))
      else
        (let c = c\<lparr>cacheMisses := cacheMisses c + 1\<rparr>;
             c = (if cacheable then c
                  else c\<lparr>passthroughAllocations := passthroughAllocations c + 1\<rparr>) in
         (p\<lparr>counters := c\<rparr>, None)))"

text \<open>Its second critical section, after the raw allocation outside the lock.\<close>

definition acquire_commit :: "FiberStackBlock \<Rightarrow> PooledImpl \<Rightarrow> PooledImpl" where
  "acquire_commit block p =
     p\<lparr>counters := peak_update ((counters p)\<lparr>
         systemAllocations := systemAllocations (counters p) + 1,
         checkedOutBytes := checkedOutBytes (counters p) + allocationSize block\<rparr>)\<rparr>"

definition Pooled_acquire ::
  "platform \<Rightarrow> os_answers \<Rightarrow> u64 \<Rightarrow> PooledImpl \<times> memory \<Rightarrow>
     (PooledImpl \<times> memory) \<times> FiberStackBlock result" where
  "Pooled_acquire P os requestedSize s =
     (case pooledSizeFor P requestedSize of Inl e \<Rightarrow> (s, Inl e) | Inr pooledSize \<Rightarrow>
      (case acquire_locked pooledSize (fst s) of
         (p, Some block) \<Rightarrow> ((p, snd s), Inr block)
       | (p, None) \<Rightarrow>
           (case AllocateRaw P os (if acquire_cacheable pooledSize p then pooledSize
                                   else requestedSize) (snd s) of
              (mem, Inl e) \<Rightarrow> ((p, mem), Inl e)
            | (mem, Inr block) \<Rightarrow> ((acquire_commit block p, mem), Inr block))))"

text \<open>
  How inserting into the free list of a class may end: it works, or the node of a new class
  cannot be allocated, or the class exists but its vector cannot grow.
\<close>

datatype cache_insert = Insert_ok | Node_fails | Growth_fails

definition release_cacheable :: "FiberStackBlock \<Rightarrow> PooledImpl \<Rightarrow> bool" where
  "release_cacheable block p \<longleftrightarrow>
     maxCachedBytes (options p) \<noteq> 0 \<and>
     usableSize block \<noteq> 0 \<and> usableSize block AND (usableSize block - 1) = 0 \<and>
     usableSize block \<le> maxPooledStackSize (options p) \<and>
     cachedBytes (counters p) \<le> maxCachedBytes (options p) \<and>
     allocationSize block \<le> maxCachedBytes (options p) - cachedBytes (counters p)"

text \<open>
  The critical section of \<^verbatim>\<open>release\<close>: the new pool and whether the block was cached.
\<close>

definition release_locked ::
  "cache_insert \<Rightarrow> FiberStackBlock \<Rightarrow> PooledImpl \<Rightarrow> (PooledImpl \<times> bool) result" where
  "release_locked ins block p =
     (let c = (counters p)\<lparr>returns := returns (counters p) + 1\<rparr> in
      if checkedOutBytes c < allocationSize block then Inl Terminate
      else
        (let p = p\<lparr>counters := c\<lparr>checkedOutBytes := checkedOutBytes c - allocationSize block\<rparr>\<rparr>;
             evict = (\<lambda>q. q\<lparr>counters := (counters q)\<lparr>evictions := evictions (counters q) + 1\<rparr>\<rparr>);
             cl = usableSize block in
         if \<not> release_cacheable block p then Inr (evict p, False)
         else if failNextCacheInsert p then Inr (evict (p\<lparr>failNextCacheInsert := False\<rparr>), False)
         else (case ins of
             Node_fails \<Rightarrow> Inr (evict p, False)
           | Growth_fails \<Rightarrow>
               Inr (evict (p\<lparr>freeLists := smap_upd cl (bucket_of cl p) (freeLists p)\<rparr>), False)
           | Insert_ok \<Rightarrow>
               Inr (p\<lparr>freeLists := smap_upd cl (bucket_of cl p @ [block]) (freeLists p),
                      counters := (counters p)\<lparr>cachedBytes :=
                        cachedBytes (counters p) + allocationSize block\<rparr>\<rparr>, True))))"

definition count_free :: "PooledImpl \<Rightarrow> PooledImpl" where
  "count_free p = p\<lparr>counters := (counters p)\<lparr>systemFrees := systemFrees (counters p) + 1\<rparr>\<rparr>"

definition Pooled_release ::
  "platform \<Rightarrow> cache_insert \<Rightarrow> FiberStackBlock \<Rightarrow> PooledImpl \<times> memory \<Rightarrow>
     (PooledImpl \<times> memory) result" where
  "Pooled_release P ins block s =
     (if \<not> block_valid block then Inr s
      else bind_res (release_locked ins block (fst s)) (\<lambda>(p, cached).
        if cached then Inr (p, snd s)
        else bind_res (FreeRaw P block (snd s)) (\<lambda>(mem, _). Inr (count_free p, mem))))"

text \<open>
  The critical section of \<^verbatim>\<open>trim\<close>: the most recent block of the largest non-empty class
  leaves the cache, unless the budget is met or nothing is cached.
\<close>

definition trim_locked :: "u64 \<Rightarrow> PooledImpl \<Rightarrow> (PooledImpl \<times> FiberStackBlock) option" where
  "trim_locked keepBytes p =
     (if cachedBytes (counters p) \<le> keepBytes then None
      else (case find (\<lambda>(k, bs). bs \<noteq> []) (rev (freeLists p)) of
          None \<Rightarrow> None
        | Some (k, bs) \<Rightarrow>
            Some (p\<lparr>freeLists := smap_upd k (butlast bs) (freeLists p),
                    counters := (counters p)\<lparr>
                      cachedBytes := cachedBytes (counters p) - allocationSize (last bs),
                      evictions := evictions (counters p) + 1\<rparr>\<rparr>, last bs)))"

definition cachedBlocks :: "PooledImpl \<Rightarrow> FiberStackBlock list" where
  "cachedBlocks p = concat (map snd (freeLists p))"

text \<open>
  The loop of \<^verbatim>\<open>trim\<close>. Every iteration removes a cached block, so the number of cached
  blocks plus one bounds the iterations; \<open>None\<close> is running out of the bound.
\<close>

fun trim_loop ::
  "nat \<Rightarrow> platform \<Rightarrow> u64 \<Rightarrow> PooledImpl \<times> memory \<Rightarrow> (PooledImpl \<times> memory) result option" where
  "trim_loop 0 P keepBytes s = None"
| "trim_loop (Suc n) P keepBytes s =
     (case trim_locked keepBytes (fst s) of
        None \<Rightarrow> Some (Inr s)
      | Some (p, victim) \<Rightarrow>
          (case FreeRaw P victim (snd s) of
             Inl e \<Rightarrow> Some (Inl e)
           | Inr (mem, _) \<Rightarrow> trim_loop n P keepBytes (count_free p, mem)))"

definition Pooled_trim ::
  "platform \<Rightarrow> u64 \<Rightarrow> PooledImpl \<times> memory \<Rightarrow> (PooledImpl \<times> memory) result option" where
  "Pooled_trim P keepBytes s = trim_loop (Suc (length (cachedBlocks (fst s)))) P keepBytes s"

definition Pooled_stats :: "PooledImpl \<Rightarrow> FiberStackStats" where
  "Pooled_stats p = counters p"

definition Pooled_resetStats :: "PooledImpl \<Rightarrow> PooledImpl" where
  "Pooled_resetStats p =
     p\<lparr>counters := zero_stats\<lparr>cachedBytes := cachedBytes (counters p),
         checkedOutBytes := checkedOutBytes (counters p),
         peakCheckedOutBytes := checkedOutBytes (counters p)\<rparr>\<rparr>"

definition failNextCacheInsertForTesting :: "PooledImpl \<Rightarrow> PooledImpl" where
  "failNextCacheInsertForTesting p = p\<lparr>failNextCacheInsert := True\<rparr>"

definition Pooled_destroy ::
  "platform \<Rightarrow> PooledImpl \<times> memory \<Rightarrow> (PooledImpl \<times> memory) result option" where
  "Pooled_destroy P s = Pooled_trim P 0 s"


section \<open>Size classes are powers of two\<close>

lemma smear_unfold: "smear s v = (if 0 < s \<and> s < 64 then smear (2 * s) (v OR drop_bit s v) else v)"
  by (rule smear.simps)
declare smear.simps [simp del]

lemma bit_smear_step:
  fixes v w :: u64
  assumes "\<And>i. bit w i \<longleftrightarrow> (\<exists>j. i \<le> j \<and> j < i + s \<and> bit v j)"
  shows "bit (w OR drop_bit s w) i \<longleftrightarrow> (\<exists>j. i \<le> j \<and> j < i + 2 * s \<and> bit v j)"
proof -
  have "bit (w OR drop_bit s w) i \<longleftrightarrow> bit w i \<or> bit w (s + i)"
    by (simp add: bit_or_iff bit_drop_bit_eq)
  also have "\<dots> \<longleftrightarrow> (\<exists>j. (i \<le> j \<and> j < i + s \<or> s + i \<le> j \<and> j < s + i + s) \<and> bit v j)"
    using assms by blast
  also have "\<dots> \<longleftrightarrow> (\<exists>j. i \<le> j \<and> j < i + 2 * s \<and> bit v j)"
  proof -
    have "(i \<le> j \<and> j < i + s \<or> s + i \<le> j \<and> j < s + i + s) \<longleftrightarrow> (i \<le> j \<and> j < i + 2 * s)" for j
      by arith
    then show ?thesis by simp
  qed
  finally show ?thesis .
qed

lemma bit_smear_aux:
  "0 < s \<Longrightarrow> (\<And>i. bit w i \<longleftrightarrow> (\<exists>j. i \<le> j \<and> j < i + s \<and> bit v j)) \<Longrightarrow>
     bit (smear s w) i \<longleftrightarrow> (\<exists>j \<ge> i. bit (v :: u64) j)"
proof (induction s w rule: smear.induct)
  case (1 s w)
  show ?case
  proof (cases "s < 64")
    case True
    with 1 bit_smear_step [OF 1(3)] show ?thesis
      by (subst smear_unfold) simp
  next
    case False
    have "j < i + s" if "bit v j" for j
      using bit_imp_le_length [OF that] False by simp
    with False 1(3) show ?thesis
      by (subst smear_unfold) auto
  qed
qed

lemma bit_smear: "bit (smear 1 v) i \<longleftrightarrow> (\<exists>j \<ge> i. bit v j)"
  by (rule bit_smear_aux) (auto simp: le_less_Suc_eq dest: less_Suc_eq_le [THEN iffD1] intro: order_antisym)

lemma top_bit:
  fixes v :: u64
  assumes "v \<noteq> 0"
  obtains k where "k < 64" "bit v k" "\<And>j. k < j \<Longrightarrow> \<not> bit v j"
    "2 ^ k \<le> unat v" "unat v < 2 ^ Suc k"
proof -
  define k where "k = Max {j. bit v j}"
  have fin: "finite {j. bit v j}"
    by (rule finite_subset [of _ "{..<64}"]) (auto dest: bit_imp_le_length)
  from assms obtain j where "bit v j"
    by (metis bit_eqI bit_0_eq bot_apply bot_bool_def)
  then have ne: "{j. bit v j} \<noteq> {}" by blast
  have top: "bit v k" using Max_in [OF fin ne] by (simp add: k_def)
  have above: "\<not> bit v j" if "k < j" for j
    using Max_ge [OF fin] that unfolding k_def by (metis mem_Collect_eq not_le)
  have "take_bit (Suc k) v = v"
    by (rule bit_eqI) (metis above bit_take_bit_iff not_less_eq)
  then have "unat v = take_bit (Suc k) (unat v)"
    by (metis unsigned_take_bit_eq)
  then have "unat v < 2 ^ Suc k"
    by (metis take_bit_nat_less_exp)
  moreover have "bit (unat v) k" using top by (simp add: bit_unsigned_iff)
  then have "odd (unat v div 2 ^ k)" by (simp add: bit_iff_odd)
  then have "2 ^ k \<le> unat v"
    by (metis div_less even_zero not_le)
  moreover have "k < 64" using bit_imp_le_length [OF top] by simp
  ultimately show thesis using top above that by blast
qed

lemma smear_mask:
  assumes "bit v k" and "\<And>j. k < j \<Longrightarrow> \<not> bit v j"
  shows "smear 1 v = mask (Suc k)"
proof (rule bit_eqI)
  fix n assume "possible_bit TYPE(u64) n"
  then have "n < 64" by simp
  moreover have "(\<exists>j \<ge> n. bit v j) \<longleftrightarrow> n \<le> k"
    using assms by (metis leI le_trans)
  ultimately show "bit (smear 1 v) n \<longleftrightarrow> bit (mask (Suc k) :: u64) n"
    by (simp add: bit_smear [unfolded One_nat_def] bit_mask_iff less_Suc_eq_le)
qed

lemma unat_two_power: "k < 64 \<Longrightarrow> unat (2 ^ k :: u64) = 2 ^ k"
proof -
  assume "k < 64"
  then have "(2::nat) ^ k < 2 ^ 64" by (rule power_strict_increasing) simp
  moreover have "unat (word_of_nat (2 ^ k) :: u64) = 2 ^ k mod 2 ^ 64"
    by (simp only: unat_of_nat) simp
  ultimately show ?thesis by simp
qed

lemma half_range: "drop_bit 1 (- 1) + 1 = (2 ^ 63 :: u64)"
proof -
  have "drop_bit 1 (- 1) = (mask 63 :: u64)" by simp
  then show ?thesis by (simp only: inc_mask_eq_exp)
qed

lemma NextPowerOfTwo_eq:
  "NextPowerOfTwo v =
     (if v \<le> 1 then Inr 1 else if unat v > 2 ^ 63 then Inl BadAlloc
      else if smear 1 (v - 1) = - 1 then Inl BadAlloc else Inr (smear 1 (v - 1) + 1))"
proof -
  have "(2 ^ 63 < v) \<longleftrightarrow> 2 ^ 63 < unat v" by (simp add: word_less_nat_alt)
  then show ?thesis by (simp only: NextPowerOfTwo_def half_range Let_def)
qed

lemma NextPowerOfTwo_Inr:
  assumes "NextPowerOfTwo v = Inr p"
  shows "\<exists>k < 64. unat p = 2 ^ k \<and> unat v \<le> 2 ^ k \<and> (1 < unat v \<longrightarrow> 2 ^ k < 2 * unat v)"
proof (cases "v \<le> 1")
  case True
  with assms have "p = 1" by (simp add: NextPowerOfTwo_def)
  with True show ?thesis by (intro exI [of _ 0]) (simp add: word_le_nat_alt)
next
  case False
  then have v: "1 < unat v" by (simp add: word_le_nat_alt)
  have le: "unat v \<le> 2 ^ 63"
    using assms False by (auto simp: NextPowerOfTwo_eq split: if_splits)
  have "v - 1 \<noteq> 0" using False by auto
  then obtain k where k: "k < 64" "bit (v - 1) k" "\<And>j. k < j \<Longrightarrow> \<not> bit (v - 1) j"
    "2 ^ k \<le> unat (v - 1)" "unat (v - 1) < 2 ^ Suc k"
    by (rule top_bit) blast
  have pred: "unat (v - 1) = unat v - 1"
    using v by (intro unat_minus_one) auto
  have "(2::nat) ^ k < 2 ^ 63" using k(4) le v pred by simp
  then have k63: "Suc k < 64" using power_less_imp_less_exp [of "2::nat" k 63] by linarith
  from assms False have "p = mask (Suc k) + 1"
    by (auto simp: NextPowerOfTwo_eq smear_mask [OF k(2,3), unfolded One_nat_def] split: if_splits)
  then have "p = 2 ^ Suc k" by (simp only: inc_mask_eq_exp)
  then have "unat p = 2 ^ Suc k" using k63 by (simp add: unat_two_power del: power_Suc)
  moreover have "unat v \<le> 2 ^ Suc k" using k(5) pred v by simp
  moreover have "2 ^ Suc k < 2 * unat v" using k(4) pred v by simp
  ultimately show ?thesis using k63 by blast
qed

lemma NextPowerOfTwo_total: "unat v \<le> 2 ^ 63 \<longleftrightarrow> (\<exists>p. NextPowerOfTwo v = Inr p)"
proof (cases "v \<le> 1")
  case True
  then show ?thesis by (simp add: NextPowerOfTwo_def word_le_nat_alt)
next
  case False
  then have v: "1 < unat v" by (simp add: word_le_nat_alt)
  have "v - 1 \<noteq> 0" using False by auto
  then obtain k where k: "k < 64" "bit (v - 1) k" "\<And>j. k < j \<Longrightarrow> \<not> bit (v - 1) j"
    "2 ^ k \<le> unat (v - 1)" "unat (v - 1) < 2 ^ Suc k"
    by (rule top_bit) blast
  have pred: "unat (v - 1) = unat v - 1"
    using v by (intro unat_minus_one) auto
  show ?thesis
  proof (cases "unat v \<le> 2 ^ 63")
    case True
    have "(2::nat) ^ k < 2 ^ 63" using k(4) True v pred by simp
    then have "Suc k < 64" using power_less_imp_less_exp [of "2::nat" k 63] by linarith
    then have "\<not> bit (mask (Suc k) :: u64) 63" by (simp add: bit_mask_iff)
    moreover have "bit (- 1 :: u64) 63" by simp
    ultimately have "mask (Suc k) \<noteq> (- 1 :: u64)" by metis
    with True False show ?thesis
      by (simp add: NextPowerOfTwo_eq smear_mask [OF k(2,3), unfolded One_nat_def])
  next
    case False
    then show ?thesis using \<open>\<not> v \<le> 1\<close>
      by (simp add: NextPowerOfTwo_eq)
  qed
qed

end
