(* ===== verification/Stack_Ownership.thy ===== *)
theory Stack_Ownership
  imports Stack_Allocator
begin

text \<open>
  Ownership of stack memory (stack_allocator.cpp): the live regions are exactly the blocks the
  pool caches, the blocks its clients hold and the blocks in transit, under every interleaving
  of the allocator's critical sections; the contract \<open>fiber_stack_allocator\<close> a Fiber relies on,
  and its interpretation on the direct and on the pooled allocator.
\<close>

unbundle bit_operations_syntax

section \<open>Ownership\<close>

text \<open>
  What the client holds is a multiset of blocks. The predicates below say that the live memory
  is exactly the cached blocks, the blocks clients hold, the blocks a thread has just obtained
  inside \<^verbatim>\<open>acquire\<close> and the victims a thread is about to free, each of them once.
\<close>

definition region_of :: "FiberStackBlock \<Rightarrow> addr \<times> FiberStackBackend \<times> u64" where
  "region_of b = (allocation b, backend b, allocationSize b)"

definition block_bytes :: "FiberStackBlock multiset \<Rightarrow> nat" where
  "block_bytes B = (\<Sum>b\<in>#B. unat (allocationSize b))"

text \<open>
  What the operating system guarantees of live regions: distinct non-null addresses, no region
  wraps around the address space, and together they fit into it.
\<close>

definition mem_ok :: "memory \<Rightarrow> bool" where
  "mem_ok mem \<longleftrightarrow> distinct (map fst mem) \<and>
     (\<forall>r \<in> set mem. fst r \<noteq> 0 \<and> unat (fst r) + unat (snd (snd r)) < 2 ^ 64) \<and>
     sum_list (map (\<lambda>r. unat (snd (snd r))) mem) < 2 ^ 64"

definition os_fresh :: "os_answers \<Rightarrow> memory \<Rightarrow> bool" where
  "os_fresh os mem \<longleftrightarrow> malloc_ret os \<notin> fst ` set mem \<and> mmap_ret os \<notin> fst ` set mem"

definition block_ok :: "platform \<Rightarrow> FiberStackBlock \<Rightarrow> bool" where
  "block_ok P b \<longleftrightarrow> allocation b \<noteq> 0 \<and> stackBase b \<noteq> 0 \<and> usableSize b \<le> allocationSize b \<and>
     backend b = (if guard_pages P then MMAP else MALLOC)"

definition is_class :: "u64 \<Rightarrow> PooledImpl \<Rightarrow> bool" where
  "is_class k p \<longleftrightarrow> k \<noteq> 0 \<and> k AND (k - 1) = 0 \<and> k \<le> maxPooledStackSize (options p)"

definition pool_inv :: "platform \<Rightarrow> PooledImpl \<Rightarrow> bool" where
  "pool_inv P p \<longleftrightarrow> smap_inv (freeLists p) \<and>
     (\<forall>(k, bs) \<in> set (freeLists p). is_class k p \<and>
        (\<forall>b \<in> set bs. block_ok P b \<and> usableSize b = k)) \<and>
     unat (cachedBytes (counters p)) = block_bytes (mset (cachedBlocks p)) \<and>
     cachedBytes (counters p) \<le> maxCachedBytes (options p)"

record pool_sys =
  ps_pool :: PooledImpl
  ps_mem :: memory
  ps_out :: "FiberStackBlock multiset"
  ps_inflight :: "FiberStackBlock multiset"
  ps_victims :: "FiberStackBlock multiset"

definition pool_sys_inv :: "platform \<Rightarrow> pool_sys \<Rightarrow> bool" where
  "pool_sys_inv P s \<longleftrightarrow> pool_inv P (ps_pool s) \<and> mem_ok (ps_mem s) \<and>
     mset (ps_mem s) = image_mset region_of
       (mset (cachedBlocks (ps_pool s)) + ps_out s + ps_inflight s + ps_victims s) \<and>
     (\<forall>b \<in># ps_out s + ps_inflight s + ps_victims s. block_ok P b) \<and>
     unat (checkedOutBytes (counters (ps_pool s))) = block_bytes (ps_out s)"

text \<open>
  The atomic steps of any number of threads that use one pool: each critical section, each raw
  allocation and each raw release is a step, in any order.
\<close>

inductive pool_step :: "platform \<Rightarrow> pool_sys \<Rightarrow> pool_sys \<Rightarrow> bool" for P where
  acquire_hit:
    "acquire_locked n (ps_pool s) = (p', Some b) \<Longrightarrow>
     pool_step P s (s\<lparr>ps_pool := p', ps_out := add_mset b (ps_out s)\<rparr>)"
| acquire_miss:
    "acquire_locked n (ps_pool s) = (p', None) \<Longrightarrow> pool_step P s (s\<lparr>ps_pool := p'\<rparr>)"
| raw_alloc:
    "os_fresh os (ps_mem s) \<Longrightarrow> AllocateRaw P os n (ps_mem s) = (mem', Inr b) \<Longrightarrow> mem_ok mem' \<Longrightarrow>
     pool_step P s (s\<lparr>ps_mem := mem', ps_inflight := add_mset b (ps_inflight s)\<rparr>)"
| raw_alloc_fails:
    "os_fresh os (ps_mem s) \<Longrightarrow> AllocateRaw P os n (ps_mem s) = (mem', Inl e) \<Longrightarrow>
     pool_step P s (s\<lparr>ps_mem := mem'\<rparr>)"
| commit:
    "b \<in># ps_inflight s \<Longrightarrow>
     pool_step P s (s\<lparr>ps_pool := acquire_commit b (ps_pool s), ps_out := add_mset b (ps_out s),
       ps_inflight := ps_inflight s - {#b#}\<rparr>)"
| release_caches:
    "b \<in># ps_out s \<Longrightarrow> release_locked ins b (ps_pool s) = Inr (p', True) \<Longrightarrow>
     pool_step P s (s\<lparr>ps_pool := p', ps_out := ps_out s - {#b#}\<rparr>)"
| release_evicts:
    "b \<in># ps_out s \<Longrightarrow> release_locked ins b (ps_pool s) = Inr (p', False) \<Longrightarrow>
     pool_step P s (s\<lparr>ps_pool := p', ps_out := ps_out s - {#b#},
       ps_victims := add_mset b (ps_victims s)\<rparr>)"
| trim_evicts:
    "trim_locked keep (ps_pool s) = Some (p', b) \<Longrightarrow>
     pool_step P s (s\<lparr>ps_pool := p', ps_victims := add_mset b (ps_victims s)\<rparr>)"
| raw_free:
    "b \<in># ps_victims s \<Longrightarrow> FreeRaw P b (ps_mem s) = Inr (mem', b') \<Longrightarrow>
     pool_step P s (s\<lparr>ps_pool := count_free (ps_pool s), ps_mem := mem',
       ps_victims := ps_victims s - {#b#}\<rparr>)"
| reset_stats:
    "pool_step P s (s\<lparr>ps_pool := Pooled_resetStats (ps_pool s)\<rparr>)"

definition pool_start :: "platform \<Rightarrow> pool_sys \<Rightarrow> bool" where
  "pool_start P s \<longleftrightarrow> (\<exists>opts p. PooledStackAllocator P opts = Inr p \<and>
     s = \<lparr>ps_pool = p, ps_mem = [], ps_out = {#}, ps_inflight = {#}, ps_victims = {#}\<rparr>)"

section \<open>Accounting of blocks and bytes\<close>

lemma block_bytes_simps [simp]:
  "block_bytes {#} = 0"
  "block_bytes (add_mset b B) = unat (allocationSize b) + block_bytes B"
  "block_bytes (A + B) = block_bytes A + block_bytes B"
  by (simp_all add: block_bytes_def)

lemma block_bytes_remove: "b \<in># B \<Longrightarrow> block_bytes B = unat (allocationSize b) + block_bytes (B - {#b#})"
  by (metis block_bytes_simps(2) insert_DiffM)

lemma mset_bucket_upd:
  "smap_inv m \<Longrightarrow>
     mset (concat (map snd (smap_upd k v m))) + mset (case map_of m k of None \<Rightarrow> [] | Some bs \<Rightarrow> bs) =
     mset (concat (map snd m)) + mset v"
proof (induction k v m rule: smap_upd.induct)
  case (2 k v a b m)
  have "k < a \<Longrightarrow> map_of m k = None"
    using "2.prems" by (intro map_of_below) (auto intro: less_trans)
  with 2 show ?case by auto
qed simp

lemma set_smap_upd: "set (smap_upd k v m) \<subseteq> insert (k, v) (set m)"
  by (induction k v m rule: smap_upd.induct) auto

lemma mset_cachedBlocks_upd:
  "smap_inv (freeLists p) \<Longrightarrow>
     mset (cachedBlocks (p\<lparr>freeLists := smap_upd k v (freeLists p)\<rparr>)) + mset (bucket_of k p) =
     mset (cachedBlocks p) + mset v"
  by (simp add: cachedBlocks_def bucket_of_def mset_bucket_upd)

lemma bucket_of_entry: "bucket_of k p \<noteq> [] \<Longrightarrow> (k, bucket_of k p) \<in> set (freeLists p)"
  by (auto simp: bucket_of_def dest: map_of_SomeD split: option.splits)

lemma cachedBlocks_counters [simp]: "cachedBlocks (p\<lparr>counters := c\<rparr>) = cachedBlocks p"
  by (simp add: cachedBlocks_def)

lemma is_class_options: "options p' = options p \<Longrightarrow> is_class k p' = is_class k p"
  by (simp add: is_class_def)

lemma pool_invD:
  assumes "pool_inv P p" and "(k, bs) \<in> set (freeLists p)"
  shows "is_class k p" and "\<And>b. b \<in> set bs \<Longrightarrow> block_ok P b \<and> usableSize b = k"
  using assms by (auto simp: pool_inv_def)

lemma pool_inv_cached:
  "pool_inv P p \<Longrightarrow> b \<in> set (cachedBlocks p) \<Longrightarrow> block_ok P b \<and> is_class (usableSize b) p"
  by (auto simp: pool_inv_def cachedBlocks_def)

text \<open>Replacing the free list of one class, and accounting for it, keeps the pool well formed.\<close>

lemma pool_inv_upd:
  assumes inv: "pool_inv P p"
    and cls: "is_class k p" and bs: "\<forall>b \<in> set bs. block_ok P b \<and> usableSize b = k"
    and bytes: "unat (cachedBytes c) + block_bytes (mset (bucket_of k p)) =
      unat (cachedBytes (counters p)) + block_bytes (mset bs)"
    and le: "cachedBytes c \<le> maxCachedBytes (options p)"
  shows "pool_inv P (p\<lparr>freeLists := smap_upd k bs (freeLists p), counters := c\<rparr>)"
proof -
  have sm: "smap_inv (freeLists p)" using inv by (simp add: pool_inv_def)
  have "block_bytes (mset (cachedBlocks (p\<lparr>freeLists := smap_upd k bs (freeLists p)\<rparr>))) +
      block_bytes (mset (bucket_of k p)) = block_bytes (mset (cachedBlocks p)) + block_bytes (mset bs)"
    using arg_cong [OF mset_cachedBlocks_upd [OF sm, of k bs], of block_bytes] by simp
  with bytes inv have "unat (cachedBytes c) =
      block_bytes (mset (cachedBlocks (p\<lparr>freeLists := smap_upd k bs (freeLists p)\<rparr>)))"
    by (simp add: pool_inv_def)
  moreover have "\<forall>(j, cs) \<in> set (smap_upd k bs (freeLists p)). is_class j p \<and>
      (\<forall>b \<in> set cs. block_ok P b \<and> usableSize b = j)"
    using set_smap_upd [of k bs "freeLists p"] cls bs inv by (fastforce simp: pool_inv_def)
  ultimately show ?thesis
    using sm le by (simp add: pool_inv_def is_class_def cachedBlocks_def)
qed

lemma pool_inv_counters:
  "pool_inv P p \<Longrightarrow> cachedBytes c = cachedBytes (counters p) \<Longrightarrow> pool_inv P (p\<lparr>counters := c\<rparr>)"
  by (simp add: pool_inv_def is_class_def)

lemma pool_inv_flag: "pool_inv P (p\<lparr>failNextCacheInsert := f\<rparr>) = pool_inv P p"
  by (simp add: pool_inv_def is_class_def cachedBlocks_def)

lemma cachedBlocks_flag [simp]: "cachedBlocks (p\<lparr>failNextCacheInsert := f\<rparr>) = cachedBlocks p"
  by (simp add: cachedBlocks_def)

subsection \<open>Raw allocation and release\<close>

lemma mem_ok_bytes: "mem_ok mem \<Longrightarrow> (\<Sum>r\<in>#mset mem. unat (snd (snd r))) < 2 ^ 64"
  by (simp add: mem_ok_def flip: sum_mset_sum_list)

lemma region_bytes: "(\<Sum>r\<in>#image_mset region_of B. unat (snd (snd r))) = block_bytes B"
  by (simp add: block_bytes_def region_of_def image_mset.compositionality comp_def)

lemma mem_remove_fresh: "a \<notin> fst ` set mem \<Longrightarrow> mem_remove a mem = mem"
  by (auto simp: mem_remove_def filter_id_conv)

lemma mem_ok_ConsD: "mem_ok (r # mem) \<Longrightarrow> mem_ok mem"
  by (auto simp: mem_ok_def)

lemma mem_ok_filter: "mem_ok mem \<Longrightarrow> mem_ok (filter Q mem)"
proof -
  have "sum_list (map f (filter Q mem)) \<le> sum_list (map f mem)" for f :: "_ \<Rightarrow> nat"
    by (induction mem) auto
  moreover assume "mem_ok mem"
  ultimately show ?thesis
    by (auto simp: mem_ok_def distinct_map_filter intro: le_less_trans)
qed

lemma mset_mem_remove:
  assumes "distinct (map fst mem)" and "(a, r) \<in> set mem"
  shows "mset mem = add_mset (a, r) (mset (mem_remove a mem))"
  using assms
proof (induction mem)
  case Nil
  then show ?case by simp
next
  case (Cons x mem)
  show ?case
  proof (cases "fst x = a")
    case True
    then have nin: "a \<notin> fst ` set mem" using Cons.prems(1) by auto
    then have "x = (a, r)" using Cons.prems(2) by force
    with nin show ?thesis using mem_remove_fresh [of a mem] by (simp add: mem_remove_def)
  next
    case False
    with Cons show ?thesis by (auto simp: mem_remove_def)
  qed
qed

lemma AlignUp_ge:
  assumes "AlignUp v a = Inr u" and "a \<noteq> 0"
  shows "v \<le> u"
proof -
  have a: "0 < unat a" using assms(2) by (simp add: unat_gt_0)
  have v: "v \<le> - 1 - (a - 1)" and u: "u = (v + a - 1) div a * a"
    using assms by (auto simp: AlignUp_def split: if_splits)
  have pre: "unat (a - 1) = unat a - 1" using assms(2) by (rule unat_minus_one)
  have "a - 1 \<le> - 1" by simp
  from unat_add_room [OF this v] have "unat (v + (a - 1)) = unat v + (unat a - 1)"
    by (simp add: pre add.commute)
  then have sum: "unat (v + a - 1) = unat v + unat a - 1" using a by (simp add: algebra_simps)
  define q where "q = (unat v + unat a - 1) div unat a"
  have "unat ((v + a - 1) div a) = q" by (simp add: unat_div sum q_def)
  moreover have "q * unat a \<le> unat v + unat a - 1" by (simp add: q_def)
  moreover have "unat v + unat a - 1 < 2 ^ 64" using sum unsigned_less [of "v + a - 1", where 'a = nat] by simp
  ultimately have "unat u = q * unat a"
    by (simp add: u unat_mult_lem [THEN iffD1])
  moreover have "unat v \<le> q * unat a"
  proof -
    have "unat v + unat a - 1 < q * unat a + unat a"
      unfolding q_def using a by (metis add.commute dividend_less_div_times)
    then show ?thesis using a by simp
  qed
  ultimately show ?thesis by (simp add: word_le_nat_alt)
qed

lemma AllocateRaw_Inr:
  assumes "AllocateRaw P os n mem = (mem', Inr b)" and ok: "mem_ok mem'"
  shows "mem' = region_of b # mem" and "block_ok P b" and "n \<le> usableSize b"
    and "guard_pages P \<or> usableSize b = max n (minimum_size P)"
proof -
  have "mem' = region_of b # mem \<and> block_ok P b \<and> n \<le> usableSize b \<and>
    (guard_pages P \<or> usableSize b = max n (minimum_size P))"
  proof (cases "guard_pages P")
    case False
    with assms(1) show ?thesis
      by (auto simp: AllocateRaw_def Let_def region_of_def block_ok_def NormalizeMinimum_def
          split: if_splits)
  next
    case True
    with assms(1) obtain g u where g: "PageSize P = Inr g"
      and u: "AlignUp (NormalizeMinimum P n) g = Inr u" and room: "u \<le> - 1 - g"
      and mem': "mem' = (mmap_ret os, MMAP, u + g) # mem"
      and b: "b = \<lparr>allocation = mmap_ret os, stackBase = mmap_ret os + g, usableSize = u,
                   allocationSize = u + g, backend = MMAP\<rparr>"
      by (auto simp: AllocateRaw_def Let_def split: sum.splits if_splits)
    have g0: "g \<noteq> 0" using g by (auto simp: PageSize_def split: if_splits)
    have "NormalizeMinimum P n \<le> u" using u g0 by (rule AlignUp_ge)
    then have n: "n \<le> u" by (simp add: NormalizeMinimum_def)
    have "unat (g + u) = unat g + unat u"
      by (rule unat_add_room) (use room in simp_all)
    then have tot: "unat (u + g) = unat g + unat u" by (simp add: add.commute)
    from ok have a: "mmap_ret os \<noteq> 0" "unat (mmap_ret os) + unat (u + g) < 2 ^ 64"
      by (auto simp: mem' mem_ok_def)
    have "unat (mmap_ret os + g) = unat (mmap_ret os) + unat g"
      using a(2) tot by (intro unat_add_lem [THEN iffD1]) simp
    then have "mmap_ret os + g \<noteq> 0" using g0 by (auto simp: unat_eq_0)
    moreover have "u \<le> u + g" using tot by (simp add: word_le_nat_alt)
    ultimately show ?thesis
      using True n a(1) by (simp add: b mem' region_of_def block_ok_def)
  qed
  then show "mem' = region_of b # mem" and "block_ok P b" and "n \<le> usableSize b"
    and "guard_pages P \<or> usableSize b = max n (minimum_size P)" by auto
qed

lemma AllocateRaw_Inl:
  assumes "AllocateRaw P os n mem = (mem', Inl e)" and "os_fresh os mem"
  shows "mem' = mem" and "e = BadAlloc"
proof -
  have "mem_remove (mmap_ret os) ((mmap_ret os, x) # mem) = mem" for x
    using assms(2) mem_remove_fresh [of "mmap_ret os" mem]
    by (simp add: os_fresh_def mem_remove_def)
  then have "mem' = mem \<and> e = BadAlloc"
    using assms(1)
    by (auto simp: AllocateRaw_def Let_def PageSize_def AlignUp_def split: if_splits sum.splits)
  then show "mem' = mem" and "e = BadAlloc" by auto
qed

lemma FreeRaw_ok:
  assumes "block_ok P b"
  shows "FreeRaw P b mem = Inr (mem_remove (allocation b) mem, clear b)"
  using assms by (auto simp: FreeRaw_def block_ok_def block_valid_def split: if_splits)

subsection \<open>The critical sections keep the pool well formed\<close>

lemma peak_update_fields [simp]:
  "cachedBytes (peak_update c) = cachedBytes c"
  "checkedOutBytes (peak_update c) = checkedOutBytes c"
  "peakCheckedOutBytes (peak_update c) = max (peakCheckedOutBytes c) (checkedOutBytes c)"
  "cacheHits (peak_update c) = cacheHits c"
  by (simp_all add: peak_update_def)

lemma bucket_of_counters [simp]: "bucket_of k (p\<lparr>counters := c\<rparr>) = bucket_of k p"
  by (simp add: bucket_of_def)

lemma bucket_last:
  assumes "bucket_of k p \<noteq> []"
  shows "mset (bucket_of k p) = add_mset (last (bucket_of k p)) (mset (butlast (bucket_of k p)))"
  using assms by (metis append_butlast_last_id mset.simps(2) mset_append union_mset_add_mset_right add.right_neutral mset.simps(1))

lemma cached_bucket_subset:
  assumes "(k, bs) \<in> set (freeLists p)"
  shows "block_bytes (mset bs) \<le> block_bytes (mset (cachedBlocks p))"
proof -
  obtain xs ys where "freeLists p = xs @ (k, bs) # ys"
    using assms by (meson split_list)
  then show ?thesis by (simp add: cachedBlocks_def)
qed

text \<open>Taking the most recent block of a class out of the pool.\<close>

lemma pool_pop:
  assumes inv: "pool_inv P p" and ne: "bucket_of k p \<noteq> []"
    and c: "cachedBytes c = cachedBytes (counters p) - allocationSize (last (bucket_of k p))"
    and p': "p' = p\<lparr>freeLists := smap_upd k (butlast (bucket_of k p)) (freeLists p), counters := c\<rparr>"
  shows "pool_inv P p'"
    and "mset (cachedBlocks p) = add_mset (last (bucket_of k p)) (mset (cachedBlocks p'))"
    and "block_ok P (last (bucket_of k p))" and "usableSize (last (bucket_of k p)) = k"
proof -
  let ?bs = "bucket_of k p"
  have entry: "(k, ?bs) \<in> set (freeLists p)" using ne by (rule bucket_of_entry)
  note cls = pool_invD(1) [OF inv entry] and blk = pool_invD(2) [OF inv entry]
  show last: "block_ok P (last ?bs)" "usableSize (last ?bs) = k"
    using blk ne by auto
  have bytes: "block_bytes (mset ?bs) =
      unat (allocationSize (last ?bs)) + block_bytes (mset (butlast ?bs))"
    by (simp add: bucket_last [OF ne])
  have cb: "unat (cachedBytes (counters p)) = block_bytes (mset (cachedBlocks p))"
    using inv by (simp add: pool_inv_def)
  have le: "unat (allocationSize (last ?bs)) \<le> unat (cachedBytes (counters p))"
    using cached_bucket_subset [OF entry] bytes cb by simp
  then have sub: "unat (cachedBytes c) = unat (cachedBytes (counters p)) - unat (allocationSize (last ?bs))"
    by (simp add: c unat_sub word_le_nat_alt)
  have "\<forall>b \<in> set (butlast ?bs). block_ok P b \<and> usableSize b = k"
    using blk by (meson in_set_butlastD)
  moreover have "unat (cachedBytes (counters p)) \<le> unat (maxCachedBytes (options p))"
    using inv by (simp add: pool_inv_def word_le_nat_alt)
  then have "cachedBytes c \<le> maxCachedBytes (options p)"
    using sub by (simp add: word_le_nat_alt)
  ultimately show "pool_inv P p'"
    unfolding p' using inv cls bytes sub le by (intro pool_inv_upd) simp_all
  have "mset (cachedBlocks p') + mset ?bs = mset (cachedBlocks p) + mset (butlast ?bs)"
    using mset_cachedBlocks_upd [of p k "butlast ?bs"] inv
    by (simp add: p' pool_inv_def cachedBlocks_def)
  then show "mset (cachedBlocks p) = add_mset (last ?bs) (mset (cachedBlocks p'))"
    by (simp add: bucket_last [OF ne] flip: union_mset_add_mset_left)
qed

lemma acquire_locked_Some:
  assumes "acquire_locked n p = (p', Some b)" and inv: "pool_inv P p"
  shows "pool_inv P p'" and "mset (cachedBlocks p) = add_mset b (mset (cachedBlocks p'))"
    and "block_ok P b" and "usableSize b = n" and "options p' = options p"
    and "checkedOutBytes (counters p') = checkedOutBytes (counters p) + allocationSize b"
proof -
  from assms(1) have ne: "bucket_of n p \<noteq> []" and b: "b = last (bucket_of n p)"
    by (auto simp: acquire_locked_def Let_def split: if_splits)
  from assms(1) have c: "cachedBytes (counters p') = cachedBytes (counters p) - allocationSize b"
    and p': "p' = p\<lparr>freeLists := smap_upd n (butlast (bucket_of n p)) (freeLists p),
      counters := counters p'\<rparr>"
    and out: "checkedOutBytes (counters p') = checkedOutBytes (counters p) + allocationSize b"
    by (auto simp: acquire_locked_def Let_def split: if_splits)
  note pop = pool_pop [OF inv ne c [unfolded b] p']
  show "pool_inv P p'" "mset (cachedBlocks p) = add_mset b (mset (cachedBlocks p'))"
    "block_ok P b" "usableSize b = n"
    using pop by (simp_all add: b)
  show "options p' = options p"
    "checkedOutBytes (counters p') = checkedOutBytes (counters p) + allocationSize b"
    using out by (subst p', simp)+
qed

lemma acquire_locked_None:
  assumes "acquire_locked n p = (p', None)" and inv: "pool_inv P p"
  shows "pool_inv P p'" and "cachedBlocks p' = cachedBlocks p" and "options p' = options p"
    and "checkedOutBytes (counters p') = checkedOutBytes (counters p)"
    and "acquire_cacheable n p \<Longrightarrow> bucket_of n p = []"
proof -
  from assms(1) have p': "p' = p\<lparr>counters := counters p'\<rparr>"
    and c: "cachedBytes (counters p') = cachedBytes (counters p)"
    and out: "checkedOutBytes (counters p') = checkedOutBytes (counters p)"
    by (auto simp: acquire_locked_def Let_def split: if_splits)
  show "pool_inv P p'" using pool_inv_counters [OF inv c] p' by simp
  show "cachedBlocks p' = cachedBlocks p" "options p' = options p" by (subst p', simp)+
  show "checkedOutBytes (counters p') = checkedOutBytes (counters p)" by (rule out)
  show "acquire_cacheable n p \<Longrightarrow> bucket_of n p = []"
    using assms(1) by (auto simp: acquire_locked_def Let_def split: if_splits)
qed

lemma release_locked_Inr:
  assumes "release_locked ins b p = Inr (p', cached)" and inv: "pool_inv P p" and b: "block_ok P b"
  shows "pool_inv P p'"
    and "mset (cachedBlocks p') = (if cached then add_mset b (mset (cachedBlocks p)) else mset (cachedBlocks p))"
    and "checkedOutBytes (counters p') = checkedOutBytes (counters p) - allocationSize b"
    and "options p' = options p"
proof -
  define p1 where "p1 = p\<lparr>counters := (counters p)\<lparr>returns := returns (counters p) + 1,
    checkedOutBytes := checkedOutBytes (counters p) - allocationSize b\<rparr>\<rparr>"
  have inv1: "pool_inv P p1" unfolding p1_def by (rule pool_inv_counters [OF inv]) simp
  have sm: "smap_inv (freeLists p)" using inv by (simp add: pool_inv_def)
  show out: "checkedOutBytes (counters p') = checkedOutBytes (counters p) - allocationSize b"
    "options p' = options p"
    using assms(1) by (auto simp: release_locked_def Let_def split: if_splits cache_insert.splits)
  have "pool_inv P p' \<and> mset (cachedBlocks p') =
      (if cached then add_mset b (mset (cachedBlocks p)) else mset (cachedBlocks p))"
  proof (cases "cached")
    case True
    with assms(1) have rc: "release_cacheable b p1"
      and p': "p' = p1\<lparr>freeLists := smap_upd (usableSize b) (bucket_of (usableSize b) p1 @ [b]) (freeLists p1),
        counters := (counters p1)\<lparr>cachedBytes := cachedBytes (counters p1) + allocationSize b\<rparr>\<rparr>"
      by (auto simp: release_locked_def Let_def p1_def split: if_splits cache_insert.splits)
    let ?k = "usableSize b"
    have cls: "is_class ?k p1" using rc by (simp add: release_cacheable_def is_class_def)
    have room: "cachedBytes (counters p1) \<le> maxCachedBytes (options p1)"
      "allocationSize b \<le> maxCachedBytes (options p1) - cachedBytes (counters p1)"
      using rc by (auto simp: release_cacheable_def)
    note add = unat_add_room [OF room]
    have blk: "\<forall>x \<in> set (bucket_of ?k p1 @ [b]). block_ok P x \<and> usableSize x = ?k"
      using b pool_invD(2) [OF inv1 bucket_of_entry]
      by (cases "bucket_of ?k p1 = []") auto
    have "pool_inv P p'"
      unfolding p' by (rule pool_inv_upd [OF inv1 cls blk]) (use add in \<open>simp_all add: word_le_nat_alt\<close>)
    moreover have "mset (cachedBlocks p') + mset (bucket_of ?k p) =
        add_mset b (mset (cachedBlocks p)) + mset (bucket_of ?k p)"
      using mset_cachedBlocks_upd [OF sm, of ?k "bucket_of ?k p @ [b]"]
      by (simp add: p' p1_def cachedBlocks_def)
    ultimately show ?thesis using True by simp
  next
    case False
    with assms(1) have c: "cachedBytes (counters p') = cachedBytes (counters p1)"
      by (auto simp: release_locked_def Let_def p1_def split: if_splits cache_insert.splits)
    from assms(1) False consider
        "p' = p1\<lparr>counters := counters p', failNextCacheInsert := failNextCacheInsert p'\<rparr>"
      | "release_cacheable b p1"
        "p' = p1\<lparr>freeLists := smap_upd (usableSize b) (bucket_of (usableSize b) p1) (freeLists p1),
           counters := counters p'\<rparr>"
      by (auto simp: release_locked_def Let_def p1_def split: if_splits cache_insert.splits)
    then show ?thesis
    proof cases
      case 1
      have "pool_inv P p'"
        using pool_inv_counters [OF inv1 c] by (subst 1) (simp add: pool_inv_flag)
      moreover have "cachedBlocks p' = cachedBlocks p"
        by (subst 1) (simp add: p1_def cachedBlocks_def)
      ultimately show ?thesis using False by simp
    next
      case 2
      let ?k = "usableSize b"
      have "pool_inv P p'"
      proof (subst 2(2), rule pool_inv_upd [OF inv1])
        show "is_class ?k p1" using 2(1) by (simp add: release_cacheable_def is_class_def)
        show "\<forall>x \<in> set (bucket_of ?k p1). block_ok P x \<and> usableSize x = ?k"
          using pool_invD(2) [OF inv1 bucket_of_entry] by (cases "bucket_of ?k p1 = []") auto
      qed (use c inv1 in \<open>simp_all add: pool_inv_def\<close>)
      moreover have "mset (cachedBlocks p') + mset (bucket_of ?k p) = mset (cachedBlocks p) + mset (bucket_of ?k p)"
        using mset_cachedBlocks_upd [OF sm, of ?k "bucket_of ?k p"]
        by (subst 2(2)) (simp add: p1_def cachedBlocks_def)
      ultimately show ?thesis using False by simp
    qed
  qed
  then show "pool_inv P p'"
    and "mset (cachedBlocks p') = (if cached then add_mset b (mset (cachedBlocks p)) else mset (cachedBlocks p))"
    by auto
qed

lemma release_locked_total:
  assumes "allocationSize b \<le> checkedOutBytes (counters p)"
  shows "\<exists>p' cached. release_locked ins b p = Inr (p', cached)"
  using assms by (auto simp: release_locked_def Let_def split: cache_insert.splits)

lemma find_class:
  assumes "smap_inv (freeLists p)"
    and "find (\<lambda>(k, bs). bs \<noteq> []) (rev (freeLists p)) = Some (k, bs)"
  shows "bs = bucket_of k p" and "bs \<noteq> []"
proof -
  obtain i where "i < length (rev (freeLists p))" and i: "(k, bs) = rev (freeLists p) ! i"
    and ne: "bs \<noteq> []"
    using assms(2) by (auto simp: find_Some_iff)
  then have "(k, bs) \<in> set (rev (freeLists p))" by (metis nth_mem)
  then have mem: "(k, bs) \<in> set (freeLists p)" by simp
  have "distinct (map fst (freeLists p))"
    using assms(1) by (simp add: smap_inv_def strict_sorted_iff)
  with mem have "map_of (freeLists p) k = Some bs" by simp
  then show "bs = bucket_of k p" by (simp add: bucket_of_def)
  show "bs \<noteq> []" by (rule ne)
qed

lemma trim_locked_Some:
  assumes "trim_locked keep p = Some (p', b)" and inv: "pool_inv P p"
  shows "pool_inv P p'" and "mset (cachedBlocks p) = add_mset b (mset (cachedBlocks p'))"
    and "block_ok P b" and "options p' = options p"
    and "checkedOutBytes (counters p') = checkedOutBytes (counters p)"
proof -
  from assms(1) obtain k bs where f: "find (\<lambda>(k, bs). bs \<noteq> []) (rev (freeLists p)) = Some (k, bs)"
    and b: "b = last bs"
    and c: "cachedBytes (counters p') = cachedBytes (counters p) - allocationSize b"
    and p': "p' = p\<lparr>freeLists := smap_upd k (butlast bs) (freeLists p), counters := counters p'\<rparr>"
    and out: "checkedOutBytes (counters p') = checkedOutBytes (counters p)"
    by (auto simp: trim_locked_def split: if_splits option.splits)
  have sm: "smap_inv (freeLists p)" using inv by (simp add: pool_inv_def)
  note bs = find_class [OF sm f]
  note pop = pool_pop [OF inv bs(2) [unfolded bs(1)] c [unfolded b bs(1)] p' [unfolded bs(1)]]
  show "pool_inv P p'" "mset (cachedBlocks p) = add_mset b (mset (cachedBlocks p'))" "block_ok P b"
    using pop by (simp_all add: b bs(1))
  show "options p' = options p" by (subst p', simp)
  show "checkedOutBytes (counters p') = checkedOutBytes (counters p)" by (rule out)
qed

lemma trim_locked_None:
  assumes "trim_locked keep p = None" and inv: "pool_inv P p"
  shows "cachedBytes (counters p) \<le> keep"
proof (rule ccontr)
  assume gt: "\<not> cachedBytes (counters p) \<le> keep"
  with assms(1) have "find (\<lambda>(k, bs). bs \<noteq> []) (rev (freeLists p)) = None"
    by (auto simp: trim_locked_def split: if_splits option.splits)
  then have "cachedBlocks p = []"
    by (auto simp: find_None_iff cachedBlocks_def)
  with inv have "cachedBytes (counters p) = 0" by (simp add: pool_inv_def unat_eq_0)
  with gt show False by simp
qed

subsection \<open>Every step keeps ownership and the byte gauges exact\<close>

lemma pool_sys_bytes:
  assumes "pool_sys_inv P s"
  shows "block_bytes (mset (cachedBlocks (ps_pool s))) + block_bytes (ps_out s) +
    block_bytes (ps_inflight s) + block_bytes (ps_victims s) < 2 ^ 64"
proof -
  have "(\<Sum>r\<in>#mset (ps_mem s). unat (snd (snd r))) < 2 ^ 64"
    using assms by (intro mem_ok_bytes) (simp add: pool_sys_inv_def)
  moreover have "mset (ps_mem s) = image_mset region_of
      (mset (cachedBlocks (ps_pool s)) + ps_out s + ps_inflight s + ps_victims s)"
    using assms by (simp add: pool_sys_inv_def)
  ultimately show ?thesis by (simp only: region_bytes block_bytes_simps)
qed

lemma unat_add_bytes:
  fixes a :: u64
  assumes "unat a = block_bytes B" and "block_bytes (add_mset b B) < 2 ^ 64"
  shows "unat (a + allocationSize b) = block_bytes (add_mset b B)"
  using assms by (simp add: unat_add_lem [THEN iffD1])

lemma unat_sub_bytes:
  fixes a :: u64
  assumes "unat a = block_bytes B" and "b \<in># B"
  shows "allocationSize b \<le> a" and "unat (a - allocationSize b) = block_bytes (B - {#b#})"
proof -
  show le: "allocationSize b \<le> a"
    using assms block_bytes_remove [OF assms(2)] by (simp add: word_le_nat_alt)
  show "unat (a - allocationSize b) = block_bytes (B - {#b#})"
    using assms block_bytes_remove [OF assms(2)] by (simp add: unat_sub [OF le])
qed

lemma pool_inv_count_free [simp]: "pool_inv P (count_free p) = pool_inv P p"
  by (simp add: count_free_def pool_inv_def is_class_def)

lemma cachedBlocks_count_free [simp]: "cachedBlocks (count_free p) = cachedBlocks p"
  by (simp add: count_free_def)

lemma count_free_fields [simp]:
  "checkedOutBytes (counters (count_free p)) = checkedOutBytes (counters p)"
  "cachedBytes (counters (count_free p)) = cachedBytes (counters p)"
  "options (count_free p) = options p"
  by (simp_all add: count_free_def)

lemma in_diff_mset: "b \<in># B - {#c#} \<Longrightarrow> b \<in># B"
  by (rule in_diffD)

lemma pool_step_inv:
  assumes "pool_sys_inv P s" and "pool_step P s t"
  shows "pool_sys_inv P t"
  using assms(2,1)
proof (induction rule: pool_step.induct)
  case (acquire_hit n s p' b)
  then have inv: "pool_inv P (ps_pool s)" by (simp add: pool_sys_inv_def)
  note h = acquire_locked_Some [OF acquire_hit(1) inv]
  have "block_bytes (add_mset b (ps_out s)) < 2 ^ 64"
    using pool_sys_bytes [OF acquire_hit(2)] by (simp add: h(2))
  then show ?case
    using acquire_hit(2) h unat_add_bytes [of "checkedOutBytes (counters (ps_pool s))" "ps_out s" b]
    by (auto simp: pool_sys_inv_def)
next
  case (acquire_miss n s p')
  then have inv: "pool_inv P (ps_pool s)" by (simp add: pool_sys_inv_def)
  show ?case
    using acquire_miss(2) acquire_locked_None(1-4) [OF acquire_miss(1) inv]
    by (simp add: pool_sys_inv_def)
next
  case (raw_alloc os s n mem' b)
  then show ?case
    using AllocateRaw_Inr(1,2) [OF raw_alloc(2,3)] by (auto simp: pool_sys_inv_def)
next
  case (raw_alloc_fails os s n mem' e)
  then show ?case
    using AllocateRaw_Inl(1) [OF raw_alloc_fails(2,1)] by simp
next
  case (commit b s)
  have "block_bytes (add_mset b (ps_out s)) < 2 ^ 64"
    using pool_sys_bytes [OF commit(2)] block_bytes_remove [OF commit(1)] by simp
  moreover have "pool_inv P (acquire_commit b (ps_pool s))"
    using commit(2) unfolding acquire_commit_def
    by (intro pool_inv_counters) (simp_all add: pool_sys_inv_def)
  moreover have "image_mset region_of (ps_inflight s) =
      add_mset (region_of b) (image_mset region_of (ps_inflight s - {#b#}))"
    using commit(1) by (metis image_mset_add_mset insert_DiffM)
  ultimately show ?case
    using commit unat_add_bytes [of "checkedOutBytes (counters (ps_pool s))" "ps_out s" b]
    by (auto simp: pool_sys_inv_def acquire_commit_def dest: in_diff_mset)
next
  case (release_caches b s ins p')
  then have inv: "pool_inv P (ps_pool s)" and ok: "block_ok P b" by (auto simp: pool_sys_inv_def)
  note h = release_locked_Inr [OF release_caches(2) inv ok]
  have "image_mset region_of (ps_out s) = add_mset (region_of b) (image_mset region_of (ps_out s - {#b#}))"
    using release_caches(1) by (metis image_mset_add_mset insert_DiffM)
  then show ?case
    using release_caches h unat_sub_bytes(2) [of "checkedOutBytes (counters (ps_pool s))" "ps_out s" b]
    by (auto simp: pool_sys_inv_def dest: in_diff_mset)
next
  case (release_evicts b s ins p')
  then have inv: "pool_inv P (ps_pool s)" and ok: "block_ok P b" by (auto simp: pool_sys_inv_def)
  note h = release_locked_Inr [OF release_evicts(2) inv ok]
  have "image_mset region_of (ps_out s) = add_mset (region_of b) (image_mset region_of (ps_out s - {#b#}))"
    using release_evicts(1) by (metis image_mset_add_mset insert_DiffM)
  then show ?case
    using release_evicts h ok unat_sub_bytes(2) [of "checkedOutBytes (counters (ps_pool s))" "ps_out s" b]
    by (auto simp: pool_sys_inv_def dest: in_diff_mset)
next
  case (trim_evicts keep s p' b)
  then have inv: "pool_inv P (ps_pool s)" by (simp add: pool_sys_inv_def)
  show ?case
    using trim_evicts(2) trim_locked_Some [OF trim_evicts(1) inv] by (auto simp: pool_sys_inv_def)
next
  case (raw_free b s mem' b')
  then have ok: "block_ok P b" and mem: "mem_ok (ps_mem s)" by (auto simp: pool_sys_inv_def)
  have rm: "mem' = mem_remove (allocation b) (ps_mem s)"
    using raw_free(2) FreeRaw_ok [OF ok] by simp
  obtain V where V: "ps_victims s = add_mset b V"
    using raw_free(1) by (metis insert_DiffM)
  then have "region_of b \<in># mset (ps_mem s)"
    using raw_free(3) by (simp add: pool_sys_inv_def)
  then have "mset (ps_mem s) = add_mset (region_of b) (mset mem')"
    unfolding rm region_of_def using mem by (intro mset_mem_remove) (simp_all add: mem_ok_def)
  moreover have "mem_ok mem'" unfolding rm mem_remove_def using mem by (rule mem_ok_filter)
  ultimately show ?case
    using raw_free(3) by (auto simp: pool_sys_inv_def V)
next
  case (reset_stats s)
  then show ?case
    by (auto simp: pool_sys_inv_def Pooled_resetStats_def pool_inv_def is_class_def)
qed

lemma pool_inv_new: "PooledStackAllocator P opts = Inr p \<Longrightarrow> pool_inv P p \<and> cachedBlocks p = [] \<and> counters p = zero_stats"
  by (auto simp: PooledStackAllocator_def bind_res_Inr_iff pool_inv_def cachedBlocks_def
      zero_stats_def)

interpretation pool: invariant_of "pool_start P" "pool_step P" "pool_sys_inv P" for P
proof
  show "pool_start P s \<Longrightarrow> pool_sys_inv P s" for s
    by (auto simp: pool_start_def pool_sys_inv_def mem_ok_def zero_stats_def dest!: pool_inv_new)
  show "pool_sys_inv P s \<Longrightarrow> pool_step P s t \<Longrightarrow> pool_sys_inv P t" for s t
    by (rule pool_step_inv)
qed

section \<open>The contract of an allocator\<close>

text \<open>
  What a Fiber relies on (fiber.cpp): \<^verbatim>\<open>acquire\<close> gives a live block that is large enough
  and that nobody else holds, or fails with \<open>BadAlloc\<close> and changes nothing it owes;
  \<^verbatim>\<open>release\<close> of a held block always returns (it is \<^verbatim>\<open>noexcept\<close>) and takes exactly that
  block back. \<open>owns a B\<close> says that in allocator state \<open>a\<close> the clients hold the blocks \<open>B\<close>.
\<close>

locale fiber_stack_allocator =
  fixes acquire :: "os_answers \<Rightarrow> u64 \<Rightarrow> 'a \<Rightarrow> 'a \<times> FiberStackBlock result"
    and release :: "FiberStackBlock \<Rightarrow> 'a \<Rightarrow> 'a result"
    and mem_of :: "'a \<Rightarrow> memory"
    and owns :: "'a \<Rightarrow> FiberStackBlock multiset \<Rightarrow> bool"
    and P :: platform
  assumes acquire_gives:
      "owns a B \<Longrightarrow> os_fresh os (mem_of a) \<Longrightarrow> acquire os n a = (a', Inr b) \<Longrightarrow> mem_ok (mem_of a') \<Longrightarrow>
       owns a' (add_mset b B) \<and> block_ok P b \<and> n \<le> usableSize b"
    and acquire_fails:
      "owns a B \<Longrightarrow> os_fresh os (mem_of a) \<Longrightarrow> acquire os n a = (a', Inl e) \<Longrightarrow>
       owns a' B \<and> mem_of a' = mem_of a \<and> e = BadAlloc"
    and release_takes: "owns a (add_mset b B) \<Longrightarrow> \<exists>a'. release b a = Inr a' \<and> owns a' B"
    and owned_live: "owns a B \<Longrightarrow> image_mset region_of B \<subseteq># mset (mem_of a) \<and> mem_ok (mem_of a)"
begin

lemma held_blocks_distinct:
  assumes "owns a (add_mset b (add_mset c B))"
  shows "allocation b \<noteq> allocation c"
proof
  assume eq: "allocation b = allocation c"
  from owned_live [OF assms]
  have sub: "image_mset region_of (add_mset b (add_mset c B)) \<subseteq># mset (mem_of a)"
    and d: "distinct (map fst (mem_of a))"
    by (auto simp: mem_ok_def)
  from image_mset_subseteq_mono [OF sub, of fst]
  have "count (image_mset fst (image_mset region_of (add_mset b (add_mset c B)))) (allocation b)
      \<le> count (mset (map fst (mem_of a))) (allocation b)"
    by (simp only: mset_map) (rule mset_subset_eq_count)
  then have "2 \<le> count (mset (map fst (mem_of a))) (allocation b)"
    by (simp add: region_of_def eq del: mset_map)
  with d show False by (simp add: distinct_count_atmost_1 split: if_splits)
qed

lemma acquire_release:
  assumes "owns a B" and "os_fresh os (mem_of a)" and "acquire os n a = (a', Inr b)"
    and "mem_ok (mem_of a')"
  shows "\<exists>a''. release b a' = Inr a'' \<and> owns a'' B"
  using acquire_gives [OF assms] by (blast dest: release_takes)

end

definition direct_owns ::
  "platform \<Rightarrow> DirectImpl \<times> memory \<Rightarrow> FiberStackBlock multiset \<Rightarrow> bool" where
  "direct_owns P s B \<longleftrightarrow> mem_ok (snd s) \<and> mset (snd s) = image_mset region_of B \<and>
     (\<forall>b \<in># B. block_ok P b) \<and> unat (d_checkedOutBytes (fst s)) = block_bytes B"

definition pool_owns ::
  "platform \<Rightarrow> PooledImpl \<times> memory \<Rightarrow> FiberStackBlock multiset \<Rightarrow> bool" where
  "pool_owns P s B \<longleftrightarrow> pool_sys_inv P
     \<lparr>ps_pool = fst s, ps_mem = snd s, ps_out = B, ps_inflight = {#}, ps_victims = {#}\<rparr>"


lemma direct_acquire_Inr:
  assumes own: "direct_owns P s B" and acq: "Direct_acquire P os n s = (s', Inr b)"
    and ok: "mem_ok (snd s')"
  shows "direct_owns P s' (add_mset b B) \<and> block_ok P b \<and> n \<le> usableSize b"
proof -
  from acq obtain mem' where raw: "AllocateRaw P os n (snd s) = (mem', Inr b)"
    and s': "snd s' = mem'" "d_checkedOutBytes (fst s') = d_checkedOutBytes (fst s) + allocationSize b"
    by (auto simp: Direct_acquire_def Let_def split: prod.splits sum.splits)
  note r = AllocateRaw_Inr [OF raw ok [unfolded s'(1)]]
  have m: "mset mem' = image_mset region_of (add_mset b B)"
    using own r(1) by (simp add: direct_owns_def)
  have "block_bytes (add_mset b B) < 2 ^ 64"
    using mem_ok_bytes [OF ok] region_bytes [of "add_mset b B"] by (simp add: s'(1) m)
  then show ?thesis
    using own r m ok unat_add_bytes [of "d_checkedOutBytes (fst s)" B b]
    by (auto simp: direct_owns_def s')
qed

lemma direct_acquire_Inl:
  assumes own: "direct_owns P s B" and fresh: "os_fresh os (snd s)"
    and acq: "Direct_acquire P os n s = (s', Inl e)"
  shows "direct_owns P s' B \<and> snd s' = snd s \<and> e = BadAlloc"
proof -
  from acq obtain mem' where raw: "AllocateRaw P os n (snd s) = (mem', Inl e)"
    and s': "snd s' = mem'" "d_checkedOutBytes (fst s') = d_checkedOutBytes (fst s)"
    by (auto simp: Direct_acquire_def Let_def split: prod.splits sum.splits)
  from AllocateRaw_Inl [OF raw fresh] own show ?thesis by (simp add: direct_owns_def s')
qed

lemma direct_release:
  assumes own: "direct_owns P s (add_mset b B)"
  shows "\<exists>s'. Direct_release P b s = Inr s' \<and> direct_owns P s' B"
proof -
  have ok: "block_ok P b" and mem: "mem_ok (snd s)"
    and m: "mset (snd s) = add_mset (region_of b) (image_mset region_of B)"
    using own by (simp_all add: direct_owns_def)
  have "region_of b \<in> set (snd s)" using m by (metis set_mset_mset union_single_eq_member)
  then have "mset (snd s) = add_mset (region_of b) (mset (mem_remove (allocation b) (snd s)))"
    unfolding region_of_def using mem by (intro mset_mem_remove) (simp_all add: mem_ok_def)
  with m have "mset (mem_remove (allocation b) (snd s)) = image_mset region_of B" by simp
  moreover have "mem_ok (mem_remove (allocation b) (snd s))"
    unfolding mem_remove_def using mem by (rule mem_ok_filter)
  moreover have "block_valid b" using ok by (simp add: block_ok_def block_valid_def)
  ultimately show ?thesis
    using own unat_sub_bytes(2) [of "d_checkedOutBytes (fst s)" "add_mset b B" b]
    by (auto simp: Direct_release_def Let_def FreeRaw_ok [OF ok] direct_owns_def)
qed

interpretation direct: fiber_stack_allocator "Direct_acquire P" "Direct_release P" snd "direct_owns P" P
  for P
proof
  show "image_mset region_of B \<subseteq># mset (snd a) \<and> mem_ok (snd a)" if "direct_owns P a B" for a B
    using that by (simp add: direct_owns_def)
qed (blast intro: direct_acquire_Inr direct_acquire_Inl direct_release
      dest: direct_acquire_Inr direct_acquire_Inl)+

subsection \<open>The pool keeps the contract\<close>

lemma pooledSizeFor_ge: "pooledSizeFor P n = Inr k \<Longrightarrow> n \<le> k"
proof -
  assume "pooledSizeFor P n = Inr k"
  then have "NextPowerOfTwo (max n (minimum_size P)) = Inr k"
    by (simp add: pooledSizeFor_def NormalizeMinimum_def)
  from NextPowerOfTwo_Inr [OF this] have "max n (minimum_size P) \<le> k"
    by (auto simp: word_le_nat_alt)
  then show "n \<le> k" by simp
qed

lemma pool_owns_hit:
  assumes "pool_owns P (p, mem) B" and "acquire_locked k p = (p', Some b)"
  shows "pool_owns P (p', mem) (add_mset b B)"
  using pool_step_inv [OF assms(1) [unfolded pool_owns_def] pool_step.acquire_hit [of k _ p' b]] assms(2)
  by (simp add: pool_owns_def)

lemma pool_owns_miss:
  assumes "pool_owns P (p, mem) B" and "acquire_locked k p = (p', None)"
  shows "pool_owns P (p', mem) B"
  using pool_step_inv [OF assms(1) [unfolded pool_owns_def] pool_step.acquire_miss [of k _ p']] assms(2)
  by (simp add: pool_owns_def)

lemma pool_owns_new:
  assumes own: "pool_owns P (p, mem) B" and fresh: "os_fresh os mem"
    and raw: "AllocateRaw P os n mem = (mem', Inr b)" and ok: "mem_ok mem'"
  shows "pool_owns P (acquire_commit b p, mem') (add_mset b B)"
proof -
  let ?s = "\<lparr>ps_pool = p, ps_mem = mem, ps_out = B, ps_inflight = {#}, ps_victims = {#}\<rparr>"
  let ?t = "?s\<lparr>ps_mem := mem', ps_inflight := {#b#}\<rparr>"
  have "pool_sys_inv P ?s" using own by (simp add: pool_owns_def)
  moreover have "pool_step P ?s ?t"
    using pool_step.raw_alloc [of os ?s P n mem' b] fresh raw ok by simp
  ultimately have "pool_sys_inv P ?t" by (rule pool_step_inv)
  moreover have "pool_step P ?t (?t\<lparr>ps_pool := acquire_commit b p, ps_out := add_mset b B, ps_inflight := {#}\<rparr>)"
    using pool_step.commit [of b ?t P] by simp
  ultimately have "pool_sys_inv P (?t\<lparr>ps_pool := acquire_commit b p, ps_out := add_mset b B, ps_inflight := {#}\<rparr>)"
    by (rule pool_step_inv)
  then show ?thesis by (simp add: pool_owns_def)
qed

lemma pool_owns_evict:
  assumes own: "pool_sys_inv P \<lparr>ps_pool = p, ps_mem = mem, ps_out = B, ps_inflight = {#}, ps_victims = {#b#}\<rparr>"
  shows "\<exists>mem' b'. FreeRaw P b mem = Inr (mem', b') \<and> pool_owns P (count_free p, mem') B"
proof -
  let ?s = "\<lparr>ps_pool = p, ps_mem = mem, ps_out = B, ps_inflight = {#}, ps_victims = {#b#}\<rparr>"
  have "block_ok P b" using own by (simp add: pool_sys_inv_def)
  then obtain mem' b' where f: "FreeRaw P b mem = Inr (mem', b')" by (simp add: FreeRaw_ok)
  have "pool_step P ?s (?s\<lparr>ps_pool := count_free p, ps_mem := mem', ps_victims := {#}\<rparr>)"
    using pool_step.raw_free [of b ?s P mem' b'] f by simp
  from pool_step_inv [OF own this] f show ?thesis by (auto simp: pool_owns_def)
qed

lemma pool_acquire_Inr:
  assumes own: "pool_owns P s B" and fresh: "os_fresh os (snd s)"
    and acq: "Pooled_acquire P os n s = (s', Inr b)" and ok: "mem_ok (snd s')"
  shows "pool_owns P s' (add_mset b B) \<and> block_ok P b \<and> n \<le> usableSize b"
proof -
  obtain p mem where s: "s = (p, mem)" by fastforce
  from acq obtain k where k: "pooledSizeFor P n = Inr k"
    by (auto simp: Pooled_acquire_def split: sum.splits)
  note nk = pooledSizeFor_ge [OF k]
  obtain p1 ob where lk: "acquire_locked k p = (p1, ob)" by fastforce
  show ?thesis
  proof (cases ob)
    case (Some c)
    with acq k lk s have s': "s' = (p1, mem)" "c = b" by (auto simp: Pooled_acquire_def)
    have inv: "pool_inv P p" using own by (simp add: s pool_owns_def pool_sys_inv_def)
    show ?thesis
      using own lk Some nk acquire_locked_Some(3,4) [OF lk [unfolded Some] inv]
        pool_owns_hit [of P p mem B k p1 b] by (simp add: s s')
  next
    case None
    let ?n = "if acquire_cacheable k p1 then k else n"
    from acq k lk s None obtain mem' where raw: "AllocateRaw P os ?n mem = (mem', Inr b)"
      and s': "s' = (acquire_commit b p1, mem')"
      by (auto simp: Pooled_acquire_def split: prod.splits sum.splits)
    have "pool_owns P (p1, mem) B" using own lk None by (auto simp: s intro: pool_owns_miss)
    moreover have "mem_ok mem'" using ok by (simp add: s')
    moreover have "n \<le> ?n" using nk by simp
    ultimately show ?thesis
      using pool_owns_new [OF _ fresh [unfolded s snd_conv] raw] AllocateRaw_Inr(2,3) [OF raw]
      by (auto simp: s' intro: order_trans)
  qed
qed

lemma NextPowerOfTwo_Inl: "NextPowerOfTwo v = Inl e \<Longrightarrow> e = BadAlloc"
  by (auto simp: NextPowerOfTwo_def Let_def split: if_splits)

lemma pool_acquire_Inl:
  assumes own: "pool_owns P s B" and fresh: "os_fresh os (snd s)"
    and acq: "Pooled_acquire P os n s = (s', Inl e)"
  shows "pool_owns P s' B \<and> snd s' = snd s \<and> e = BadAlloc"
proof (cases "pooledSizeFor P n")
  case (Inl x)
  with acq own show ?thesis
    by (auto simp: Pooled_acquire_def pooledSizeFor_def dest: NextPowerOfTwo_Inl)
next
  case (Inr k)
  obtain p mem where s: "s = (p, mem)" by fastforce
  obtain p1 ob where lk: "acquire_locked k p = (p1, ob)" by fastforce
  let ?n = "if acquire_cacheable k p1 then k else n"
  from acq Inr lk s obtain mem' where raw: "AllocateRaw P os ?n mem = (mem', Inl e)"
    and s': "s' = (p1, mem')" and ob: "ob = None"
    by (auto simp: Pooled_acquire_def split: prod.splits sum.splits option.splits)
  have "pool_owns P (p1, mem) B" using own lk ob by (auto simp: s intro: pool_owns_miss)
  with AllocateRaw_Inl [OF raw fresh [unfolded s snd_conv]] show ?thesis by (simp add: s s')
qed

lemma pool_release:
  assumes own: "pool_owns P s (add_mset b B)"
  shows "\<exists>s'. Pooled_release P ins b s = Inr s' \<and> pool_owns P s' B"
proof -
  obtain p mem where s: "s = (p, mem)" by fastforce
  let ?s = "\<lparr>ps_pool = p, ps_mem = mem, ps_out = add_mset b B, ps_inflight = {#}, ps_victims = {#}\<rparr>"
  have inv: "pool_sys_inv P ?s" using own by (simp add: s pool_owns_def)
  then have "allocationSize b \<le> checkedOutBytes (counters p)"
    by (intro unat_sub_bytes(1) [of _ "add_mset b B"]) (simp_all add: pool_sys_inv_def)
  then obtain p1 cached where lk: "release_locked ins b p = Inr (p1, cached)"
    using release_locked_total by blast
  have valid: "block_valid b" using inv by (simp add: pool_sys_inv_def block_ok_def block_valid_def)
  show ?thesis
  proof (cases cached)
    case True
    have "pool_step P ?s (?s\<lparr>ps_pool := p1, ps_out := B\<rparr>)"
      using pool_step.release_caches [of b ?s ins p1 P] lk True by simp
    from pool_step_inv [OF inv this] lk True valid show ?thesis
      by (auto simp: s Pooled_release_def pool_owns_def)
  next
    case False
    have "pool_step P ?s (?s\<lparr>ps_pool := p1, ps_out := B, ps_victims := {#b#}\<rparr>)"
      using pool_step.release_evicts [of b ?s ins p1 P] lk False by simp
    from pool_step_inv [OF inv this]
    have "pool_sys_inv P \<lparr>ps_pool = p1, ps_mem = mem, ps_out = B, ps_inflight = {#}, ps_victims = {#b#}\<rparr>"
      by simp
    from pool_owns_evict [OF this] lk False valid show ?thesis
      by (auto simp: s Pooled_release_def)
  qed
qed

interpretation pooled: fiber_stack_allocator
  "Pooled_acquire P" "Pooled_release P ins" snd "pool_owns P" P for P ins
proof
  show "image_mset region_of B \<subseteq># mset (snd a) \<and> mem_ok (snd a)" if "pool_owns P a B" for a B
    using that by (simp add: pool_owns_def pool_sys_inv_def)
qed (blast intro: pool_acquire_Inr pool_acquire_Inl pool_release
      dest: pool_acquire_Inr pool_acquire_Inl)+

subsection \<open>Trimming\<close>

lemma trim_loop_spec:
  assumes "pool_owns P s B" and "length (cachedBlocks (fst s)) < fuel"
  shows "\<exists>s'. trim_loop fuel P keep s = Some (Inr s') \<and> pool_owns P s' B \<and>
    cachedBytes (counters (fst s')) \<le> keep \<and> options (fst s') = options (fst s) \<and>
    mset (cachedBlocks (fst s')) \<subseteq># mset (cachedBlocks (fst s))"
  using assms
proof (induction fuel arbitrary: s)
  case 0
  then show ?case by simp
next
  case (Suc fuel)
  obtain p mem where s: "s = (p, mem)" by fastforce
  have inv: "pool_inv P p" using Suc.prems(1) by (simp add: s pool_owns_def pool_sys_inv_def)
  show ?case
  proof (cases "trim_locked keep p")
    case None
    with Suc.prems(1) trim_locked_None [OF None inv] show ?thesis by (simp add: s)
  next
    case (Some r)
    obtain p1 b where r: "r = (p1, b)" by fastforce
    note t = trim_locked_Some [OF Some [unfolded r] inv]
    let ?s = "\<lparr>ps_pool = p, ps_mem = mem, ps_out = B, ps_inflight = {#}, ps_victims = {#}\<rparr>"
    have "pool_step P ?s (?s\<lparr>ps_pool := p1, ps_victims := {#b#}\<rparr>)"
      using pool_step.trim_evicts [of keep ?s p1 b P] Some r by simp
    from pool_step_inv [OF _ this] Suc.prems(1)
    have "pool_sys_inv P \<lparr>ps_pool = p1, ps_mem = mem, ps_out = B, ps_inflight = {#}, ps_victims = {#b#}\<rparr>"
      by (simp add: s pool_owns_def)
    from pool_owns_evict [OF this] obtain mem' b' where
      f: "FreeRaw P b mem = Inr (mem', b')" and own: "pool_owns P (count_free p1, mem') B" by blast
    have "length (cachedBlocks p) = Suc (length (cachedBlocks p1))"
      using arg_cong [OF t(2), of size] by simp
    then have "length (cachedBlocks (fst (count_free p1, mem'))) < fuel"
      using Suc.prems(2) by (simp add: s)
    moreover have "mset (cachedBlocks p1) \<subseteq># mset (cachedBlocks p)"
      by (simp add: t(2))
    ultimately show ?thesis
      using Suc.IH [OF own] f Some r t(4) by (auto simp: s intro: subset_mset.order_trans)
  qed
qed

lemma Pooled_trim_spec:
  assumes "pool_owns P s B"
  shows "\<exists>s'. Pooled_trim P keep s = Some (Inr s') \<and> pool_owns P s' B \<and>
    cachedBytes (counters (fst s')) \<le> keep \<and> options (fst s') = options (fst s) \<and>
    mset (cachedBlocks (fst s')) \<subseteq># mset (cachedBlocks (fst s))"
  unfolding Pooled_trim_def using assms by (intro trim_loop_spec) simp_all

section \<open>Properties\<close>

text \<open>A 64-bit Linux host without guard pages, and answers of its allocator.\<close>

definition example_platform :: platform where
  "example_platform = \<lparr>minimum_size = 8192, guard_pages = False, sc_pagesize = 4096\<rparr>"

definition example_os :: os_answers where
  "example_os = \<lparr>malloc_ret = 65536, mmap_ret = 1048576, mprotect_ret = 0\<rparr>"

definition example_options :: StackPoolOptions where
  "example_options = \<lparr>maxCachedBytes = kDefaultMaxCachedBytes,
     maxPooledStackSize = kDefaultMaxPooledStackSize\<rparr>"

definition example_pool :: PooledImpl where
  "example_pool = \<lparr>options = example_options, freeLists = [], counters = zero_stats,
     failNextCacheInsert = False\<rparr>"

definition example_block :: FiberStackBlock where
  "example_block = \<lparr>allocation = 65536, stackBase = 65536, usableSize = 131072,
     allocationSize = 131072, backend = MALLOC\<rparr>"

lemmas example_defs = example_platform_def example_os_def example_options_def example_pool_def
  example_block_def kDefaultMaxCachedBytes_def kDefaultMaxPooledStackSize_def zero_stats_def

lemma example_class: "NextPowerOfTwo 1048576 = Inr 1048576" "NextPowerOfTwo 100000 = Inr 131072"
  "NextPowerOfTwo 131072 = Inr 131072"
  by code_simp+

lemma example_pool_new: "PooledStackAllocator example_platform example_options = Inr example_pool"
  by (simp add: PooledStackAllocator_def NormalizeMinimum_def example_defs example_class)

lemma example_pool_owns: "pool_owns example_platform (example_pool, []) {#}"
  using pool.inv_init [of example_platform
      "\<lparr>ps_pool = example_pool, ps_mem = [], ps_out = {#}, ps_inflight = {#}, ps_victims = {#}\<rparr>"]
    example_pool_new
  by (auto simp: pool_owns_def pool_start_def)

definition example_cached :: PooledImpl where
  "example_cached = example_pool\<lparr>freeLists := [(131072, [example_block])],
     counters := zero_stats\<lparr>cachedBytes := 131072, returns := 1\<rparr>\<rparr>"

lemma example_cached_owns:
  "pool_owns example_platform (example_cached, [(65536, MALLOC, 131072)]) {#}"
  by (simp add: pool_owns_def pool_sys_inv_def pool_inv_def mem_ok_def is_class_def block_ok_def
      cachedBlocks_def region_of_def block_bytes_def example_cached_def example_defs)

lemma example_acquire:
  "Pooled_acquire example_platform example_os 100000 (example_pool, []) =
     ((acquire_commit example_block (fst (acquire_locked 131072 example_pool)),
       [(65536, MALLOC, 131072)]), Inr example_block)"
  by (simp add: Pooled_acquire_def pooledSizeFor_def NormalizeMinimum_def AllocateRaw_def
      acquire_locked_def acquire_cacheable_def bucket_of_def Let_def example_defs example_class)

text \<open>
  C17: the size class of a request is the least power of two that is not smaller than it, and
  the only requests refused are those above 2^63, whose class a 64-bit size cannot hold.
\<close>

theorem NextPowerOfTwo_least:
  "case NextPowerOfTwo v of
     Inl e \<Rightarrow> e = BadAlloc \<and> 2 ^ 63 < unat v
   | Inr p \<Rightarrow> \<exists>k < 64. unat p = 2 ^ k \<and> unat v \<le> unat p \<and> (\<forall>j. unat v \<le> 2 ^ j \<longrightarrow> k \<le> j)"
proof (cases "NextPowerOfTwo v")
  case (Inl e)
  then show ?thesis
    using NextPowerOfTwo_total [of v] NextPowerOfTwo_Inl [of v e] by (auto simp: not_le)
next
  case (Inr p)
  then obtain k where k: "k < 64" "unat p = 2 ^ k" "unat v \<le> 2 ^ k"
    and small: "1 < unat v \<longrightarrow> 2 ^ k < 2 * unat v"
    using NextPowerOfTwo_Inr by blast
  have "k \<le> j" if j: "unat v \<le> 2 ^ j" for j
  proof (cases "1 < unat v")
    case True
    with small j have "(2::nat) ^ k < 2 ^ Suc j" by simp
    then have "k < Suc j" by (rule power_less_imp_less_exp [rotated]) simp
    then show ?thesis by simp
  next
    case False
    then have "p = 1" using Inr by (simp add: NextPowerOfTwo_def word_le_nat_alt split: if_splits)
    with k(2) have "k = 0" by (cases k) auto
    then show ?thesis by simp
  qed
  with k Inr show ?thesis by auto
qed

theorem NextPowerOfTwo_least_witness:
  "NextPowerOfTwo 100000 = Inr 131072 \<and>
   (\<exists>k < 64. unat (131072 :: u64) = 2 ^ k \<and> (\<forall>j. (100000 :: nat) \<le> 2 ^ j \<longrightarrow> k \<le> j))"
  using NextPowerOfTwo_least [of 100000] by (auto simp: example_class)

text \<open>
  C3: whatever the threads that share a pool do and however their critical sections
  interleave, the live memory consists of exactly the cached blocks, the blocks clients hold,
  the blocks being handed out and the victims being freed, each once (nothing leaks, nothing is
  owned twice); the two byte gauges equal the bytes they describe; the cache never exceeds its
  budget; and every cached block has the size of the class it is filed under.
\<close>

theorem pool_accounting_exact:
  assumes "pool_start P s" and "(pool_step P)\<^sup>*\<^sup>* s t"
  shows "distinct (map fst (ps_mem t)) \<and>
    mset (ps_mem t) = image_mset region_of
      (mset (cachedBlocks (ps_pool t)) + ps_out t + ps_inflight t + ps_victims t) \<and>
    unat (checkedOutBytes (counters (ps_pool t))) = block_bytes (ps_out t) \<and>
    unat (cachedBytes (counters (ps_pool t))) = block_bytes (mset (cachedBlocks (ps_pool t))) \<and>
    cachedBytes (counters (ps_pool t)) \<le> maxCachedBytes (options (ps_pool t)) \<and>
    (\<forall>(k, bs) \<in> set (freeLists (ps_pool t)). \<forall>b \<in> set bs. usableSize b = k)"
  using pool.inv_reachable [OF assms]
  by (auto simp: pool_sys_inv_def pool_inv_def mem_ok_def)

theorem pool_accounting_exact_witness:
  "\<exists>s t. pool_start example_platform s \<and> (pool_step example_platform)\<^sup>*\<^sup>* s t \<and>
     ps_inflight t = {#example_block#} \<and> distinct (map fst (ps_mem t))"
proof -
  let ?s = "\<lparr>ps_pool = example_pool, ps_mem = [], ps_out = {#}, ps_inflight = {#}, ps_victims = {#}\<rparr>"
  let ?t = "?s\<lparr>ps_mem := [(65536, MALLOC, 131072)], ps_inflight := add_mset example_block (ps_inflight ?s)\<rparr>"
  have start: "pool_start example_platform ?s"
    using example_pool_new by (auto simp: pool_start_def)
  have "pool_step example_platform ?s ?t"
    by (rule pool_step.raw_alloc [of example_os _ _ 131072])
      (simp_all add: os_fresh_def AllocateRaw_def NormalizeMinimum_def mem_ok_def example_defs)
  then have steps: "(pool_step example_platform)\<^sup>*\<^sup>* ?s ?t" by (rule r_into_rtranclp)
  from start steps pool_accounting_exact [OF start steps] show ?thesis
    by (intro exI [of _ ?s] exI [of _ ?t]) simp
qed

text \<open>
  \<^verbatim>\<open>acquire\<close> of the pool returns a live block of at least the requested size that no
  other client holds, and releasing it restores what the clients held before: no terminate, no
  leak, no double free, whichever way the free-list insertion goes.
\<close>

theorem pooled_acquire_release:
  assumes "pool_owns P s B" and "os_fresh os (snd s)"
    and "Pooled_acquire P os n s = (s', Inr b)" and "mem_ok (snd s')"
  shows "block_ok P b \<and> n \<le> usableSize b \<and> pool_owns P s' (add_mset b B) \<and>
    (\<forall>c \<in># B. allocation c \<noteq> allocation b) \<and>
    (\<exists>s''. Pooled_release P ins b s' = Inr s'' \<and> pool_owns P s'' B)"
proof -
  from pooled.acquire_gives [OF assms] have blk: "block_ok P b" "n \<le> usableSize b"
    and own: "pool_owns P s' (add_mset b B)" by auto
  have "allocation c \<noteq> allocation b" if "c \<in># B" for c
  proof -
    have "pool_owns P s' (add_mset c (add_mset b (B - {#c#})))"
      using own that by (simp add: add_mset_commute)
    then show ?thesis by (rule pooled.held_blocks_distinct)
  qed
  with blk own pooled.acquire_release [OF assms] show ?thesis by blast
qed

theorem pooled_acquire_release_witness:
  "100000 \<le> usableSize example_block \<and>
   (\<exists>s''. Pooled_release example_platform Insert_ok example_block
      (fst (Pooled_acquire example_platform example_os 100000 (example_pool, []))) = Inr s'')"
  using pooled_acquire_release [of example_platform "(example_pool, [])" "{#}" example_os 100000
      "fst (Pooled_acquire example_platform example_os 100000 (example_pool, []))" example_block Insert_ok]
    example_pool_owns
  by (auto simp add: example_acquire os_fresh_def mem_ok_def)

text \<open>
  \<^verbatim>\<open>trim(keep)\<close> terminates, brings the cached bytes to at most \<open>keep\<close> by freeing cached
  blocks only, and never touches a block a client holds; the destructor, \<^verbatim>\<open>trim(0)\<close>, leaves
  no cached block.
\<close>

theorem trim_reaches_target:
  assumes "pool_owns P s B"
  shows "(\<exists>s'. Pooled_trim P keep s = Some (Inr s') \<and> pool_owns P s' B \<and>
      cachedBytes (counters (fst s')) \<le> keep \<and>
      mset (cachedBlocks (fst s')) \<subseteq># mset (cachedBlocks (fst s))) \<and>
    (\<exists>s'. Pooled_destroy P s = Some (Inr s') \<and> mset (snd s') = image_mset region_of B)"
proof -
  from Pooled_trim_spec [OF assms, of 0] obtain s' where
    d: "Pooled_destroy P s = Some (Inr s')" and own: "pool_owns P s' B"
    and zero: "cachedBytes (counters (fst s')) \<le> 0"
    by (auto simp: Pooled_destroy_def)
  have none: "block_bytes (mset (cachedBlocks (fst s'))) = 0"
    using own zero by (simp add: pool_owns_def pool_sys_inv_def pool_inv_def)
  have pos: "0 < unat (allocationSize b)" if "b \<in> set (cachedBlocks (fst s'))" for b
  proof -
    have "usableSize b \<noteq> 0 \<and> usableSize b \<le> allocationSize b"
      using own that pool_inv_cached [of P "fst s'" b]
      by (auto simp: pool_owns_def pool_sys_inv_def is_class_def block_ok_def)
    then have "0 < unat (usableSize b)" "unat (usableSize b) \<le> unat (allocationSize b)"
      by (simp_all add: unat_gt_0 word_le_nat_alt)
    then show ?thesis by (rule less_le_trans)
  qed
  have "cachedBlocks (fst s') = []"
  proof (cases "cachedBlocks (fst s')")
    case (Cons b bs)
    with pos [of b] none show ?thesis by simp
  qed
  with d own have "\<exists>s'. Pooled_destroy P s = Some (Inr s') \<and> mset (snd s') = image_mset region_of B"
    by (auto simp: pool_owns_def pool_sys_inv_def)
  with Pooled_trim_spec [OF assms, of keep] show ?thesis by blast
qed

theorem trim_reaches_target_witness:
  "\<exists>s'. Pooled_trim example_platform 65536 (example_cached, [(65536, MALLOC, 131072)]) = Some (Inr s') \<and>
     cachedBytes (counters (fst s')) \<le> 65536"
  using trim_reaches_target [OF example_cached_owns, of 65536] by blast

text \<open>
  what comes back is reused first: a block that \<^verbatim>\<open>release\<close> cached is what the next
  \<^verbatim>\<open>acquire\<close> of its class returns, without any call to the operating system, and the two
  gauges return to what they were.
\<close>

theorem release_then_acquire_reuses:
  assumes "pool_owns P (p, mem) (add_mset b B)"
    and "release_locked ins b p = Inr (p', True)"
    and "pooledSizeFor P n = Inr (usableSize b)"
  shows "\<exists>p''. Pooled_acquire P os n (p', mem) = ((p'', mem), Inr b) \<and>
    checkedOutBytes (counters p'') = checkedOutBytes (counters p) \<and>
    cachedBytes (counters p'') = cachedBytes (counters p) \<and>
    cacheHits (counters p'') = cacheHits (counters p') + 1"
proof -
  from assms(2) have b: "bucket_of (usableSize b) p' = bucket_of (usableSize b) p @ [b]"
    and c: "cachedBytes (counters p') = cachedBytes (counters p) + allocationSize b"
    "checkedOutBytes (counters p') = checkedOutBytes (counters p) - allocationSize b"
    and cls: "acquire_cacheable (usableSize b) p'"
    using assms(1)
    by (auto simp: release_locked_def Let_def bucket_of_def release_cacheable_def
        acquire_cacheable_def pool_owns_def pool_sys_inv_def pool_inv_def
        split: if_splits cache_insert.splits)
  show ?thesis
    using assms(3) b c cls by (auto simp: Pooled_acquire_def acquire_locked_def Let_def)
qed

theorem release_then_acquire_reuses_witness:
  "\<exists>p' p''. release_locked Insert_ok example_block
       (example_pool\<lparr>counters := zero_stats\<lparr>checkedOutBytes := 131072\<rparr>\<rparr>) = Inr (p', True) \<and>
     Pooled_acquire example_platform example_os 100000 (p', [(65536, MALLOC, 131072)]) =
       ((p'', [(65536, MALLOC, 131072)]), Inr example_block)"
proof -
  let ?p = "example_pool\<lparr>counters := zero_stats\<lparr>checkedOutBytes := 131072\<rparr>\<rparr>"
  have own: "pool_owns example_platform (?p, [(65536, MALLOC, 131072)]) (add_mset example_block {#})"
    by (simp add: pool_owns_def pool_sys_inv_def pool_inv_def mem_ok_def block_ok_def
        cachedBlocks_def region_of_def block_bytes_def example_defs)
  have "\<exists>p'. release_locked Insert_ok example_block ?p = Inr (p', True)"
    by (simp add: release_locked_def release_cacheable_def Let_def example_defs)
  then obtain p' where rel: "release_locked Insert_ok example_block ?p = Inr (p', True)" by blast
  have "pooledSizeFor example_platform 100000 = Inr (usableSize example_block)"
    by (simp add: pooledSizeFor_def NormalizeMinimum_def example_defs example_class)
  from release_then_acquire_reuses [OF own rel this, of example_os] rel show ?thesis by blast
qed

end
