(* ===== verification/Fiber.thy ===== *)
theory Fiber
  imports Stack_Ownership
begin

text \<open>
  Model of \<^verbatim>\<open>fiber.hpp\<close> and \<^verbatim>\<open>fiber.cpp\<close>: Fiber objects, the thread-local pointers to the
  current, main and scheduling Fiber, construction on a stack block, the two halves of
  \<^verbatim>\<open>resume\<close> around the context switch, \<^verbatim>\<open>yield\<close>, the end of \<^verbatim>\<open>MainFunc\<close>, \<^verbatim>\<open>reset\<close> and
  destruction. Boost.Context is represented by what the code observes of it: a handle
  (\<open>fcontext\<close>, \<open>callerContext\<close>) is empty or not, resuming moves it out, and control comes back
  with a fresh handle when the Fiber yields and with an empty one when it returned. Every
  thread keeps the stack of its \<^verbatim>\<open>resume\<close> activations, and \<open>fiber_step\<close> interleaves the steps
  of any number of threads.
\<close>

section \<open>State\<close>

datatype State = READY | RUNNING | TERM_STATE

text \<open>Pointers to Fibers, callbacks, exceptions and threads are numbers.\<close>

type_synonym fid = nat
type_synonym callback = nat
type_synonym exn = nat
type_synonym thread = nat

record Fiber =
  fiber_id :: u64
  stackSize :: u64
  fstate :: State
  fcontext :: bool
  callerContext :: bool
  hasAllocator :: bool
  stackBlock :: FiberStackBlock
  fiber_cb :: "callback option"
  fexception :: "exn option"
  resumeInProgress :: bool
  isRunInScheduler :: bool
  isMainFiber :: bool
  isSchedulerCallback :: bool
  schedulerOwnerId :: u64
  schedulerOriginWorker :: u64

text \<open>
  The thread-local variables, and the native call stack of the thread as far as it consists of
  \<^verbatim>\<open>resume\<close> activations: the Fiber resumed and the \<^verbatim>\<open>caller\<close> saved by the activation,
  innermost first. \<open>returning\<close> is set between the switch out of a Fiber and the end of the
  \<^verbatim>\<open>resume\<close> that had switched into it.
\<close>

record thread_locals =
  cur_fiber :: "fid option"
  cur_thread_fiber :: "fid option"
  cur_scheduler_fiber :: "fid option"
  resumes :: "(fid \<times> fid) list"
  returning :: bool

record 'a fiber_world =
  fibers :: "fid \<Rightarrow> Fiber option"
  locals :: "thread \<Rightarrow> thread_locals"
  cur_fiber_id :: u64
  fiber_count :: u64
  allocator :: 'a

definition g_fiber_stack_size :: u64 where
  "g_fiber_stack_size = 128 * 1024"

definition upd_fiber :: "fid \<Rightarrow> Fiber \<Rightarrow> 'a fiber_world \<Rightarrow> 'a fiber_world" where
  "upd_fiber p f w = w\<lparr>fibers := (fibers w)(p \<mapsto> f)\<rparr>"

definition upd_locals :: "thread \<Rightarrow> thread_locals \<Rightarrow> 'a fiber_world \<Rightarrow> 'a fiber_world" where
  "upd_locals t l w = w\<lparr>locals := (locals w)(t := l)\<rparr>"

definition SetThis :: "thread \<Rightarrow> fid option \<Rightarrow> 'a fiber_world \<Rightarrow> 'a fiber_world" where
  "SetThis t f w = upd_locals t ((locals w t)\<lparr>cur_fiber := f\<rparr>) w"

section \<open>Construction\<close>

text \<open>The private constructor: the main Fiber of a thread, which has no stack of its own.\<close>

definition main_fiber :: "u64 \<Rightarrow> Fiber" where
  "main_fiber i = \<lparr>fiber_id = i, stackSize = 0, fstate = RUNNING, fcontext = False,
     callerContext = False, hasAllocator = False, stackBlock = empty_block, fiber_cb = None,
     fexception = None, resumeInProgress = False, isRunInScheduler = False,
     isMainFiber = True, isSchedulerCallback = False, schedulerOwnerId = 0,
     schedulerOriginWorker = - 1\<rparr>"

text \<open>\<open>p\<close> is the address a new Fiber object gets, if one is created.\<close>

definition GetThis :: "thread \<Rightarrow> fid \<Rightarrow> 'a fiber_world \<Rightarrow> 'a fiber_world \<times> fid" where
  "GetThis t p w =
     (case cur_fiber (locals w t) of
        Some f \<Rightarrow> (w, f)
      | None \<Rightarrow>
          (let w = SetThis t (Some p) w;
               w = upd_fiber p (main_fiber (cur_fiber_id w)) w;
               w = w\<lparr>fiber_count := fiber_count w + 1, cur_fiber_id := cur_fiber_id w + 1\<rparr> in
           (upd_locals t ((locals w t)\<lparr>cur_thread_fiber := Some p\<rparr>) w, p)))"

definition TotalFiberNum :: "'a fiber_world \<Rightarrow> u64" where
  "TotalFiberNum w = fiber_count w"

text \<open>
  \<^verbatim>\<open>ReleaseStack\<close>: a held block goes back to the allocator, then the allocator reference and
  the size are dropped.
\<close>

definition ReleaseStack ::
  "(FiberStackBlock \<Rightarrow> 'a \<Rightarrow> 'a result) \<Rightarrow> Fiber \<Rightarrow> 'a \<Rightarrow> (Fiber \<times> 'a) result" where
  "ReleaseStack release f a =
     bind_res
       (if block_valid (stackBlock f) then
          bind_res (CondPanic (hasAllocator f) ''fiber stack allocator is nullptr'')
            (\<lambda>_. bind_res (release (stackBlock f) a) (\<lambda>a. Inr (f\<lparr>stackBlock := empty_block\<rparr>, a)))
        else Inr (f, a))
       (\<lambda>(f, a). Inr (f\<lparr>hasAllocator := False, stackSize := 0\<rparr>, a))"

text \<open>
  \<^verbatim>\<open>CreateContext\<close>: \<open>before\<close> is the allocator's \<^verbatim>\<open>beforeContextCreate\<close>, which may throw; the
  checks of \<^verbatim>\<open>ContextStackAllocator::allocate\<close> follow; the result is a non-empty handle.
\<close>

definition CreateContext :: "(FiberStackBlock \<Rightarrow> failure option) \<Rightarrow> Fiber \<Rightarrow> bool result" where
  "CreateContext before f =
     (case before (stackBlock f) of
        Some e \<Rightarrow> Inl e
      | None \<Rightarrow> bind_res (CondPanic (block_valid (stackBlock f)) ''fiber stack block is empty'')
          (\<lambda>_. Inr True))"

definition new_fiber :: "u64 \<Rightarrow> callback \<Rightarrow> bool \<Rightarrow> Fiber" where
  "new_fiber i cb run_inscheduler = \<lparr>fiber_id = i, stackSize = 0, fstate = READY, fcontext = False,
     callerContext = False, hasAllocator = True, stackBlock = empty_block, fiber_cb = Some cb,
     fexception = None, resumeInProgress = False, isRunInScheduler = run_inscheduler,
     isMainFiber = False, isSchedulerCallback = False, schedulerOwnerId = 0,
     schedulerOriginWorker = - 1\<rparr>"

text \<open>
  The body of the constructor's \<^verbatim>\<open>try\<close>: what it throws together with the Fiber as it is then,
  or the finished Fiber.
\<close>

definition Fiber_build ::
  "(os_answers \<Rightarrow> u64 \<Rightarrow> 'a \<Rightarrow> 'a \<times> FiberStackBlock result) \<Rightarrow> (FiberStackBlock \<Rightarrow> failure option) \<Rightarrow>
     os_answers \<Rightarrow> u64 \<Rightarrow> Fiber \<Rightarrow> 'a \<Rightarrow> 'a \<times> (failure \<times> Fiber + Fiber)" where
  "Fiber_build acquire before os stacksize f a =
     (let requested = (if 0 < stacksize then stacksize else g_fiber_stack_size) in
      case acquire os requested a of
        (a, Inl e) \<Rightarrow> (a, Inl (e, f))
      | (a, Inr block) \<Rightarrow>
          (let f = f\<lparr>stackBlock := block\<rparr> in
           if \<not> block_valid block \<or> stackBase block = 0 \<or> usableSize block < requested
           then (a, Inl (BadAlloc, f))
           else
             (let f = f\<lparr>stackSize := usableSize block\<rparr> in
              case CreateContext before f of
                Inl e \<Rightarrow> (a, Inl (e, f))
              | Inr c \<Rightarrow> (a, Inr (f\<lparr>fcontext := c\<rparr>)))))"

text \<open>
  The public constructor. The id is consumed even if construction fails; the failure is the
  exception that leaves the constructor after \<^verbatim>\<open>ReleaseStack\<close>.
\<close>

definition Fiber_new ::
  "(os_answers \<Rightarrow> u64 \<Rightarrow> 'a \<Rightarrow> 'a \<times> FiberStackBlock result) \<Rightarrow>
   (FiberStackBlock \<Rightarrow> 'a \<Rightarrow> 'a result) \<Rightarrow> (FiberStackBlock \<Rightarrow> failure option) \<Rightarrow>
     os_answers \<Rightarrow> fid \<Rightarrow> callback \<Rightarrow> u64 \<Rightarrow> bool \<Rightarrow> 'a fiber_world \<Rightarrow>
     'a fiber_world \<times> unit result" where
  "Fiber_new acquire release before os p cb stacksize run_inscheduler w =
     (let f = new_fiber (cur_fiber_id w) cb run_inscheduler;
          w = w\<lparr>cur_fiber_id := cur_fiber_id w + 1\<rparr> in
      case Fiber_build acquire before os stacksize f (allocator w) of
        (a, Inl (e, f)) \<Rightarrow>
          (case ReleaseStack release f a of
             Inl e' \<Rightarrow> (w\<lparr>allocator := a\<rparr>, Inl e')
           | Inr (f, a) \<Rightarrow> (w\<lparr>allocator := a\<rparr>, Inl e))
      | (a, Inr f) \<Rightarrow>
          (upd_fiber p f (w\<lparr>allocator := a, fiber_count := fiber_count w + 1\<rparr>), Inr ()))"

section \<open>Switching\<close>

text \<open>
  The first half of \<^verbatim>\<open>resume\<close>, up to and including the switch. The \<^verbatim>\<open>ResumeGuard\<close> holds
  \<open>resumeInProgress\<close> until \<open>resume_return\<close>. In the resumed Fiber the handle of the resumer
  arrives in \<open>callerContext\<close>.
\<close>

definition resume_enter :: "thread \<Rightarrow> fid \<Rightarrow> 'a fiber_world \<Rightarrow> 'a fiber_world result" where
  "resume_enter t p w =
     (case fibers w p of
        None \<Rightarrow> Inl (Undefined ''resume of a destroyed fiber'')
      | Some f \<Rightarrow>
          if resumeInProgress f then Inl (LogicError ''fiber is already being resumed'')
          else bind_res (CondPanic (fstate f \<noteq> TERM_STATE \<and> fstate f \<noteq> RUNNING) ''state error'')
            (\<lambda>_. bind_res (CondPanic (fcontext f) ''fiber context is empty'')
            (\<lambda>_. case cur_fiber (locals w t) of
               None \<Rightarrow> Inl (Panic ''caller fiber is nullptr'')
             | Some caller \<Rightarrow>
                 Inr (upd_fiber p (f\<lparr>resumeInProgress := True, fstate := RUNNING,
                                     fcontext := False, callerContext := True\<rparr>)
                       (upd_locals t ((locals w t)\<lparr>cur_fiber := Some p,
                          resumes := (p, caller) # resumes (locals w t)\<rparr>) w)))))"

text \<open>The Fiber that \<^verbatim>\<open>yield\<close> and \<^verbatim>\<open>MainFunc\<close> make current before they switch away.\<close>

definition return_fiber :: "thread \<Rightarrow> Fiber \<Rightarrow> 'a fiber_world \<Rightarrow> fid option" where
  "return_fiber t f w =
     (if isRunInScheduler f then cur_scheduler_fiber (locals w t)
      else cur_thread_fiber (locals w t))"

text \<open>\<^verbatim>\<open>yield\<close> of Fiber \<open>p\<close> on thread \<open>t\<close>, up to and including the switch.\<close>

definition yield :: "thread \<Rightarrow> fid \<Rightarrow> 'a fiber_world \<Rightarrow> 'a fiber_world result" where
  "yield t p w =
     (case fibers w p of
        None \<Rightarrow> Inl (Undefined ''yield of a destroyed fiber'')
      | Some f \<Rightarrow>
          bind_res (CondPanic (fstate f = RUNNING) ''state error'')
            (\<lambda>_. bind_res (CondPanic (callerContext f) ''caller context is empty'')
            (\<lambda>_. bind_res (CondPanic (return_fiber t f w \<noteq> None) ''return fiber is nullptr'')
            (\<lambda>_. Inr (upd_fiber p (f\<lparr>fstate := READY, callerContext := False, fcontext := True\<rparr>)
                   (upd_locals t ((locals w t)\<lparr>cur_fiber := return_fiber t f w,
                      returning := True\<rparr>) w))))))"

text \<open>
  The end of \<^verbatim>\<open>MainFunc\<close>: the callback has returned or thrown \<open>ex\<close>; the context ends, so the
  resumer receives an empty handle.
\<close>

definition MainFunc_end ::
  "thread \<Rightarrow> fid \<Rightarrow> exn option \<Rightarrow> 'a fiber_world \<Rightarrow> 'a fiber_world result" where
  "MainFunc_end t p ex w =
     (case fibers w p of
        None \<Rightarrow> Inl (Undefined ''return from a destroyed fiber'')
      | Some f \<Rightarrow>
          bind_res (CondPanic (return_fiber t f w \<noteq> None) ''return fiber is nullptr'')
            (\<lambda>_. Inr (upd_fiber p (f\<lparr>fexception := (case ex of None \<Rightarrow> fexception f | Some x \<Rightarrow> Some x),
                                     fiber_cb := None, fstate := TERM_STATE,
                                     callerContext := False, fcontext := False\<rparr>)
                   (upd_locals t ((locals w t)\<lparr>cur_fiber := return_fiber t f w,
                      returning := True\<rparr>) w))))"

text \<open>
  The second half of \<^verbatim>\<open>resume\<close>, after the switch back: the caller becomes current again, a
  stored exception is moved out of a terminated Fiber and rethrown, and the guard clears the
  flag either way.
\<close>

definition resume_return :: "thread \<Rightarrow> 'a fiber_world \<Rightarrow> ('a fiber_world \<times> exn option) result" where
  "resume_return t w =
     (case resumes (locals w t) of
        [] \<Rightarrow> Inl (Undefined ''no resume to return to'')
      | (p, caller) # rest \<Rightarrow>
          (case fibers w p of
             None \<Rightarrow> Inl (Undefined ''resume of a destroyed fiber'')
           | Some f \<Rightarrow>
               (let thrown = (if fstate f = TERM_STATE then fexception f else None) in
                Inr (upd_fiber p (f\<lparr>fexception := (if fstate f = TERM_STATE then None else fexception f),
                                    resumeInProgress := False\<rparr>)
                      (upd_locals t ((locals w t)\<lparr>cur_fiber := Some caller, resumes := rest,
                         returning := False\<rparr>) w), thrown))))"

section \<open>Reuse and destruction\<close>

definition reset ::
  "(FiberStackBlock \<Rightarrow> failure option) \<Rightarrow> fid \<Rightarrow> callback \<Rightarrow> 'a fiber_world \<Rightarrow>
     'a fiber_world result" where
  "reset before p cb w =
     (case fibers w p of
        None \<Rightarrow> Inl (Undefined ''reset of a destroyed fiber'')
      | Some f \<Rightarrow>
          bind_res (CondPanic (\<not> isMainFiber f) ''main fiber cannot be reset'')
            (\<lambda>_. bind_res (CondPanic (fstate f = TERM_STATE) ''state isn't TERM'')
            (\<lambda>_. bind_res (CondPanic (\<not> fcontext f) ''terminated fiber context should be empty'')
            (\<lambda>_. bind_res (CreateContext before f)
            (\<lambda>c. Inr (upd_fiber p (f\<lparr>fiber_cb := Some cb, fexception := None, fcontext := c,
                                     fstate := READY\<rparr>) w))))))"

definition MarkSchedulerCallback :: "u64 \<Rightarrow> u64 \<Rightarrow> Fiber \<Rightarrow> Fiber" where
  "MarkSchedulerCallback ownerId originWorker f =
     f\<lparr>isSchedulerCallback := True, schedulerOwnerId := ownerId,
       schedulerOriginWorker := originWorker\<rparr>"

definition IsReusableSchedulerCallback :: "u64 \<Rightarrow> u64 \<Rightarrow> Fiber \<Rightarrow> bool" where
  "IsReusableSchedulerCallback ownerId originWorker f \<longleftrightarrow>
     isSchedulerCallback f \<and> schedulerOwnerId f = ownerId \<and>
     schedulerOriginWorker f = originWorker \<and> \<not> isMainFiber f \<and> fstate f = TERM_STATE \<and>
     \<not> fcontext f \<and> \<not> callerContext f"

text \<open>The destructor, run on thread \<open>t\<close>.\<close>

definition Fiber_destroy ::
  "(FiberStackBlock \<Rightarrow> 'a \<Rightarrow> 'a result) \<Rightarrow> thread \<Rightarrow> fid \<Rightarrow> 'a fiber_world \<Rightarrow>
     'a fiber_world result" where
  "Fiber_destroy release t p w =
     (case fibers w p of
        None \<Rightarrow> Inl (Undefined ''destruction of a destroyed fiber'')
      | Some f \<Rightarrow>
          (let w = w\<lparr>fiber_count := fiber_count w - 1\<rparr> in
           if \<not> isMainFiber f then
             bind_res (CondPanic (fstate f = TERM_STATE) ''fiber state should be term'')
               (\<lambda>_. bind_res (ReleaseStack release f (allocator w))
               (\<lambda>(f, a). Inr (w\<lparr>fibers := (fibers w)(p := None), allocator := a\<rparr>)))
           else
             bind_res (CondPanic (fiber_cb f = None) ''main fiber no callback'')
               (\<lambda>_. bind_res (CondPanic (fstate f = RUNNING) ''main fiber state should be running'')
               (\<lambda>_. let w = (if cur_fiber (locals w t) = Some p then SetThis t None w else w) in
                    Inr (w\<lparr>fibers := (fibers w)(p := None)\<rparr>)))))"


section \<open>Threads in any order\<close>

text \<open>
  The steps threads can take. A thread that is \<open>returning\<close> finishes its \<^verbatim>\<open>resume\<close> first; the
  Fiber that yields or ends is the one its thread is executing; \<^verbatim>\<open>reset\<close> and destruction are
  called by the last owner, when no \<^verbatim>\<open>resume\<close> of the Fiber is in progress. A thread that ends
  drops its main Fiber and its thread-local variables.
\<close>

definition no_thread :: thread_locals where
  "no_thread = \<lparr>cur_fiber = None, cur_thread_fiber = None, cur_scheduler_fiber = None,
     resumes = [], returning = False\<rparr>"

inductive fiber_step ::
  "(os_answers \<Rightarrow> u64 \<Rightarrow> 'a \<Rightarrow> 'a \<times> FiberStackBlock result) \<Rightarrow>
   (FiberStackBlock \<Rightarrow> 'a \<Rightarrow> 'a result) \<Rightarrow> ('a \<Rightarrow> memory) \<Rightarrow>
     'a fiber_world \<Rightarrow> 'a fiber_world \<Rightarrow> bool" for acquire release mem_of where
  step_main:
    "fibers w p = None \<Longrightarrow> fiber_step acquire release mem_of w (fst (GetThis t p w))"
| step_scheduler:
    "fiber_step acquire release mem_of w
       (upd_locals t ((locals w t)\<lparr>cur_scheduler_fiber := Some p\<rparr>) w)"
| step_new:
    "fibers w p = None \<Longrightarrow> os_fresh os (mem_of (allocator w)) \<Longrightarrow>
     Fiber_new acquire release before os p cb n insched w = (w', r) \<Longrightarrow>
     mem_ok (mem_of (fst (acquire os (if 0 < n then n else g_fiber_stack_size) (allocator w)))) \<Longrightarrow>
     fiber_step acquire release mem_of w w'"
| step_resume:
    "\<not> returning (locals w t) \<Longrightarrow> resume_enter t p w = Inr w' \<Longrightarrow>
     fiber_step acquire release mem_of w w'"
| step_yield:
    "\<not> returning (locals w t) \<Longrightarrow> resumes (locals w t) = (p, c) # rest \<Longrightarrow> yield t p w = Inr w' \<Longrightarrow>
     fiber_step acquire release mem_of w w'"
| step_end:
    "\<not> returning (locals w t) \<Longrightarrow> resumes (locals w t) = (p, c) # rest \<Longrightarrow>
     MainFunc_end t p ex w = Inr w' \<Longrightarrow> fiber_step acquire release mem_of w w'"
| step_return:
    "returning (locals w t) \<Longrightarrow> resume_return t w = Inr (w', ex) \<Longrightarrow>
     fiber_step acquire release mem_of w w'"
| step_reset:
    "fibers w p = Some f \<Longrightarrow> \<not> resumeInProgress f \<Longrightarrow> reset before p cb w = Inr w' \<Longrightarrow>
     fiber_step acquire release mem_of w w'"
| step_destroy:
    "fibers w p = Some f \<Longrightarrow> \<not> isMainFiber f \<Longrightarrow> \<not> resumeInProgress f \<Longrightarrow>
     Fiber_destroy release t p w = Inr w' \<Longrightarrow> fiber_step acquire release mem_of w w'"
| step_exit:
    "resumes (locals w t) = [] \<Longrightarrow> cur_thread_fiber (locals w t) = Some p \<Longrightarrow>
     fibers w p = Some f \<Longrightarrow> isMainFiber f \<Longrightarrow> Fiber_destroy release t p w = Inr w' \<Longrightarrow>
     fiber_step acquire release mem_of w (upd_locals t no_thread w')"

text \<open>The start of the process, with an allocator from which nothing has been taken.\<close>

definition fiber_start :: "'a \<Rightarrow> 'a fiber_world \<Rightarrow> bool" where
  "fiber_start a w \<longleftrightarrow> fibers w = Map.empty \<and> locals w = (\<lambda>t. no_thread) \<and> fiber_count w = 0 \<and>
     allocator w = a"

section \<open>The control invariant\<close>

definition stack_of :: "thread_locals \<Rightarrow> fid list" where
  "stack_of l = map fst (resumes l)"

definition on_stack :: "'a fiber_world \<Rightarrow> thread \<Rightarrow> fid \<Rightarrow> bool" where
  "on_stack w t p \<longleftrightarrow> p \<in> set (stack_of (locals w t))"

text \<open>The Fibers whose code is on a thread's call stack.\<close>

definition executing :: "'a fiber_world \<Rightarrow> thread \<Rightarrow> fid set" where
  "executing w t =
     set (if returning (locals w t) then tl (stack_of (locals w t)) else stack_of (locals w t))"

fun linked :: "fid option \<Rightarrow> (fid \<times> fid) list \<Rightarrow> bool" where
  "linked m [] = True"
| "linked m [(p, c)] = (m = Some c)"
| "linked m ((p, c) # (q, d) # rest) = (c = q \<and> linked m ((q, d) # rest))"

text \<open>
  A Fiber that is not executing can be resumed or has ended; a Fiber that is executing holds
  the handle of its resumer and none of its own.
\<close>

definition parked :: "Fiber \<Rightarrow> bool" where
  "parked f \<longleftrightarrow> \<not> callerContext f \<and>
     (fstate f = READY \<and> fcontext f \<and> fiber_cb f \<noteq> None \<and> fexception f = None \<or>
      fstate f = TERM_STATE \<and> \<not> fcontext f \<and> fiber_cb f = None)"

definition running :: "Fiber \<Rightarrow> bool" where
  "running f \<longleftrightarrow> fstate f = RUNNING \<and> callerContext f \<and> \<not> fcontext f \<and> fiber_cb f \<noteq> None \<and>
     fexception f = None"

definition thread_inv :: "thread_locals \<Rightarrow> bool" where
  "thread_inv l \<longleftrightarrow> distinct (stack_of l) \<and> linked (cur_thread_fiber l) (resumes l) \<and>
     (if returning l then resumes l \<noteq> [] \<and> cur_fiber l \<noteq> None
      else cur_fiber l = (case resumes l of [] \<Rightarrow> cur_thread_fiber l | (p, c) # _ \<Rightarrow> Some p))"

definition object_inv :: "'a fiber_world \<Rightarrow> fid \<Rightarrow> Fiber \<Rightarrow> bool" where
  "object_inv w p f \<longleftrightarrow>
     (if isMainFiber f
      then fstate f = RUNNING \<and> fiber_cb f = None \<and> \<not> resumeInProgress f \<and> (\<forall>t. \<not> on_stack w t p)
      else (resumeInProgress f \<longleftrightarrow> (\<exists>t. on_stack w t p)) \<and>
        (\<not> resumeInProgress f \<longrightarrow> fexception f = None) \<and>
        (if \<exists>t. p \<in> executing w t then running f else parked f))"

definition fiber_inv :: "'a fiber_world \<Rightarrow> bool" where
  "fiber_inv w \<longleftrightarrow> (\<forall>t. thread_inv (locals w t)) \<and>
     (\<forall>t p. on_stack w t p \<longrightarrow> fibers w p \<noteq> None) \<and>
     (\<forall>t u p. on_stack w t p \<longrightarrow> on_stack w u p \<longrightarrow> t = u) \<and>
     (\<forall>p f. fibers w p = Some f \<longrightarrow> object_inv w p f)"

lemma upd_fiber_fields [simp]:
  "fibers (upd_fiber p f w) = (fibers w)(p \<mapsto> f)"
  "locals (upd_fiber p f w) = locals w"
  "allocator (upd_fiber p f w) = allocator w"
  "fiber_count (upd_fiber p f w) = fiber_count w"
  by (simp_all add: upd_fiber_def)

lemma upd_locals_fields [simp]:
  "fibers (upd_locals t l w) = fibers w"
  "locals (upd_locals t l w) = (locals w)(t := l)"
  "allocator (upd_locals t l w) = allocator w"
  "fiber_count (upd_locals t l w) = fiber_count w"
  by (simp_all add: upd_locals_def)

lemma SetThis_fields [simp]:
  "fibers (SetThis t f w) = fibers w"
  "locals (SetThis t f w) = (locals w)(t := (locals w t)\<lparr>cur_fiber := f\<rparr>)"
  "allocator (SetThis t f w) = allocator w"
  "fiber_count (SetThis t f w) = fiber_count w"
  by (simp_all add: SetThis_def)

lemma fiber_invD:
  assumes "fiber_inv w"
  shows "thread_inv (locals w t)"
    and "on_stack w t p \<Longrightarrow> fibers w p \<noteq> None"
    and "on_stack w t p \<Longrightarrow> on_stack w u p \<Longrightarrow> t = u"
    and "fibers w p = Some f \<Longrightarrow> object_inv w p f"
  using assms unfolding fiber_inv_def by blast+

lemma fiber_invI:
  assumes "\<And>t. thread_inv (locals w t)"
    and "\<And>t p. on_stack w t p \<Longrightarrow> fibers w p \<noteq> None"
    and "\<And>t u p. on_stack w t p \<Longrightarrow> on_stack w u p \<Longrightarrow> t = u"
    and "\<And>p f. fibers w p = Some f \<Longrightarrow> object_inv w p f"
  shows "fiber_inv w"
  using assms unfolding fiber_inv_def by blast

text \<open>A step that keeps the stacks and removes at most a Fiber that is on none.\<close>

lemma fiber_inv_shrink:
  assumes inv: "fiber_inv w" and th: "\<And>t. thread_inv (locals w' t)"
    and on: "\<And>t q. on_stack w' t q = on_stack w t q" and ex: "\<And>t. executing w' t = executing w t"
    and fib: "\<And>q. fibers w' q = fibers w q \<or> fibers w' q = None \<and> (\<forall>t. \<not> on_stack w t q)"
  shows "fiber_inv w'"
proof (rule fiber_invI [OF th])
  show "fibers w' q \<noteq> None" if "on_stack w' t q" for t q
    using that fib [of q] fiber_invD(2) [OF inv, of t q] by (auto simp: on)
  show "t = u" if "on_stack w' t q" "on_stack w' u q" for t u q
    using that fiber_invD(3) [OF inv, of t q u] by (simp add: on)
  show "object_inv w' q f" if "fibers w' q = Some f" for q f
  proof -
    have "object_inv w q f" using that fib [of q] fiber_invD(4) [OF inv, of q f] by auto
    then show ?thesis by (simp add: object_inv_def on ex)
  qed
qed

lemma executing_on_stack: "p \<in> executing w t \<Longrightarrow> on_stack w t p"
  by (cases "stack_of (locals w t)") (auto simp: executing_def on_stack_def split: if_splits)

lemma same_locals:
  assumes "locals w' u = locals w u"
  shows "on_stack w' u q = on_stack w u q" and "executing w' u = executing w u"
  using assms by (simp_all add: on_stack_def executing_def)

lemma object_executing:
  assumes "object_inv w p f" and "p \<in> executing w t"
  shows "\<not> isMainFiber f" and "resumeInProgress f" and "running f"
proof -
  have "on_stack w t p" using assms(2) by (rule executing_on_stack)
  with assms(1) show m: "\<not> isMainFiber f" and "resumeInProgress f"
    by (auto simp: object_inv_def split: if_splits)
  have "\<exists>t. p \<in> executing w t" using assms(2) ..
  with assms(1) m show "running f" by (simp add: object_inv_def)
qed

lemma object_idle:
  assumes "object_inv w p f" and "\<not> isMainFiber f" and "\<not> resumeInProgress f"
  shows "\<not> on_stack w t p" and "p \<notin> executing w t" and "parked f" and "fexception f = None"
proof -
  show off: "\<not> on_stack w t p" for t using assms by (auto simp: object_inv_def)
  then show ex: "p \<notin> executing w t" for t using executing_on_stack by metis
  show "parked f" and "fexception f = None" using assms ex by (simp_all add: object_inv_def)
qed

lemma object_idleI:
  assumes "\<not> isMainFiber f" and "\<not> resumeInProgress f" and "parked f" and "fexception f = None"
    and "\<And>t. \<not> on_stack w t p"
  shows "object_inv w p f"
proof -
  have "p \<notin> executing w t" for t using assms(5) executing_on_stack by metis
  with assms show ?thesis by (simp add: object_inv_def)
qed

text \<open>What a step of thread \<open>t\<close> that rewrites Fiber \<open>p\<close> has to establish.\<close>

lemma fiber_inv_update:
  assumes inv: "fiber_inv w" and th: "thread_inv (locals w' t)"
    and loc: "\<And>u. u \<noteq> t \<Longrightarrow> locals w' u = locals w u"
    and fib: "\<And>q. q \<noteq> p \<Longrightarrow> fibers w' q = fibers w q"
    and self: "fibers w' p = Some f'" "object_inv w' p f'"
    and stack: "\<And>q. q \<noteq> p \<Longrightarrow> on_stack w' t q = on_stack w t q"
    and exec: "\<And>q. q \<noteq> p \<Longrightarrow> q \<in> executing w' t \<longleftrightarrow> q \<in> executing w t"
    and excl: "on_stack w' t p \<Longrightarrow> \<forall>u. u \<noteq> t \<longrightarrow> \<not> on_stack w u p"
  shows "fiber_inv w'"
proof -
  have st: "on_stack w' u q = (if u = t \<and> q = p then on_stack w' t p else on_stack w u q)" for u q
    using stack [of q] same_locals(1) [OF loc, of u q] by (cases "u = t") auto
  have ex: "q \<in> executing w' u \<longleftrightarrow> q \<in> executing w u" if "q \<noteq> p" for u q
    using exec [OF that] same_locals(2) [OF loc, of u] by (cases "u = t") auto
  have "thread_inv (locals w' u)" for u
    using th loc fiber_invD(1) [OF inv, of u] by (cases "u = t") auto
  moreover have "fibers w' q \<noteq> None" if "on_stack w' u q" for u q
    using that st [of u q] self(1) fib [of q] fiber_invD(2) [OF inv, of u q]
    by (cases "q = p") auto
  moreover have "u = v" if "on_stack w' u q" "on_stack w' v q" for u v q
    using that st [of u q] st [of v q] excl fiber_invD(3) [OF inv, of u q v]
    by (auto split: if_splits)
  moreover have "object_inv w' q f" if "fibers w' q = Some f" for q f
  proof (cases "q = p")
    case True
    then show ?thesis using that self by simp
  next
    case False
    then have "object_inv w q f" using that fib fiber_invD(4) [OF inv] by simp
    then show ?thesis using False by (simp add: object_inv_def st ex)
  qed
  ultimately show ?thesis by (auto simp: fiber_inv_def)
qed

text \<open>The shape of the successful switches.\<close>

lemma resume_enter_Inr:
  assumes "resume_enter t p w = Inr w'"
  obtains f c where "fibers w p = Some f" and "\<not> resumeInProgress f" and "fstate f \<noteq> TERM_STATE"
    and "fstate f \<noteq> RUNNING" and "cur_fiber (locals w t) = Some c"
    and "w' = upd_fiber p (f\<lparr>resumeInProgress := True, fstate := RUNNING, fcontext := False,
        callerContext := True\<rparr>) (upd_locals t ((locals w t)\<lparr>cur_fiber := Some p,
        resumes := (p, c) # resumes (locals w t)\<rparr>) w)"
  using assms by (auto simp: resume_enter_def bind_res_Inr_iff split: option.splits if_splits)

lemma yield_Inr:
  assumes "yield t p w = Inr w'"
  obtains f r where "fibers w p = Some f" and "return_fiber t f w = Some r"
    and "w' = upd_fiber p (f\<lparr>fstate := READY, callerContext := False, fcontext := True\<rparr>)
        (upd_locals t ((locals w t)\<lparr>cur_fiber := Some r, returning := True\<rparr>) w)"
  using assms by (cases "fibers w p") (auto simp: yield_def bind_res_Inr_iff)

lemma MainFunc_end_Inr:
  assumes "MainFunc_end t p ex w = Inr w'"
  obtains f r where "fibers w p = Some f" and "return_fiber t f w = Some r"
    and "w' = upd_fiber p (f\<lparr>fexception := (case ex of None \<Rightarrow> fexception f | Some x \<Rightarrow> Some x),
        fiber_cb := None, fstate := TERM_STATE, callerContext := False, fcontext := False\<rparr>)
        (upd_locals t ((locals w t)\<lparr>cur_fiber := Some r, returning := True\<rparr>) w)"
  using assms by (cases "fibers w p") (auto simp: MainFunc_end_def bind_res_Inr_iff)

lemma resume_return_Inr:
  assumes "resume_return t w = Inr (w', ex)"
  obtains p c rest f where "resumes (locals w t) = (p, c) # rest" and "fibers w p = Some f"
    and "ex = (if fstate f = TERM_STATE then fexception f else None)"
    and "w' = upd_fiber p (f\<lparr>fexception := (if fstate f = TERM_STATE then None else fexception f),
        resumeInProgress := False\<rparr>)
        (upd_locals t ((locals w t)\<lparr>cur_fiber := Some c, resumes := rest, returning := False\<rparr>) w)"
  using assms by (auto simp: resume_return_def Let_def split: list.splits option.splits)

lemma linked_cong: "linked m ((p, c) # rest) \<Longrightarrow> linked m rest"
  by (cases rest) auto

lemma resume_enter_inv:
  assumes inv: "fiber_inv w" and nr: "\<not> returning (locals w t)" and ok: "resume_enter t p w = Inr w'"
  shows "fiber_inv w'"
proof -
  from ok obtain f c where f: "fibers w p = Some f" and nip: "\<not> resumeInProgress f"
    and st: "fstate f \<noteq> TERM_STATE" "fstate f \<noteq> RUNNING" and c: "cur_fiber (locals w t) = Some c"
    and w': "w' = upd_fiber p (f\<lparr>resumeInProgress := True, fstate := RUNNING, fcontext := False,
        callerContext := True\<rparr>) (upd_locals t ((locals w t)\<lparr>cur_fiber := Some p,
        resumes := (p, c) # resumes (locals w t)\<rparr>) w)"
    by (rule resume_enter_Inr)
  note obj = fiber_invD(4) [OF inv f] and th = fiber_invD(1) [OF inv, of t]
  have nm: "\<not> isMainFiber f" using obj st by (auto simp: object_inv_def)
  note off = object_idle(1) [OF obj nm nip] and pk = object_idle(3) [OF obj nm nip]
  show ?thesis
  proof (rule fiber_inv_update [OF inv, of w' t p])
    show "thread_inv (locals w' t)"
      using th nr off [of t] c by (auto simp: w' thread_inv_def on_stack_def stack_of_def split: list.splits)
    show "object_inv w' p (f\<lparr>resumeInProgress := True, fstate := RUNNING, fcontext := False,
        callerContext := True\<rparr>)"
    proof -
      have "on_stack w' t p" "p \<in> executing w' t"
        using nr by (simp_all add: w' on_stack_def executing_def stack_of_def)
      then show ?thesis using nm pk st by (auto simp: object_inv_def running_def parked_def)
    qed
    show "on_stack w' t p \<Longrightarrow> \<forall>u. u \<noteq> t \<longrightarrow> \<not> on_stack w u p" using off by blast
  qed (use nr in \<open>simp_all add: w' on_stack_def executing_def stack_of_def\<close>)
qed

text \<open>Leaving the executing Fiber, by \<^verbatim>\<open>yield\<close> or by the end of its callback.\<close>

lemma switch_out_inv:
  assumes inv: "fiber_inv w" and nr: "\<not> returning (locals w t)"
    and top: "resumes (locals w t) = (p, c) # rest" and f: "fibers w p = Some f"
    and f': "isMainFiber f' = isMainFiber f" "resumeInProgress f' = resumeInProgress f"
      "running f \<Longrightarrow> parked f'"
    and w': "w' = upd_fiber p f' (upd_locals t ((locals w t)\<lparr>cur_fiber := Some r, returning := True\<rparr>) w)"
  shows "fiber_inv w'"
proof -
  note obj = fiber_invD(4) [OF inv f] and th = fiber_invD(1) [OF inv, of t]
  have on: "on_stack w t p" by (simp add: on_stack_def stack_of_def top)
  have nm: "\<not> isMainFiber f" and ip: "resumeInProgress f"
    using obj on by (auto simp: object_inv_def split: if_splits)
  have "p \<in> executing w t" using nr top by (simp add: executing_def stack_of_def)
  then have pk: "parked f'" using f'(3) object_executing(3) [OF obj] by blast
  have p_rest: "p \<notin> set (map fst rest)" using th top by (simp add: thread_inv_def stack_of_def)
  have only: "u = t" if "on_stack w u p" for u using fiber_invD(3) [OF inv that on] .
  have off: "p \<notin> executing w' u" for u
  proof (cases "u = t")
    case True
    then show ?thesis using p_rest top by (simp add: w' executing_def stack_of_def)
  next
    case False
    then have "executing w' u = executing w u" by (intro same_locals) (simp add: w')
    with False only show ?thesis using executing_on_stack by metis
  qed
  show ?thesis
  proof (rule fiber_inv_update [OF inv, of w' t p])
    show "thread_inv (locals w' t)"
      using th nr top by (auto simp: w' thread_inv_def stack_of_def)
    have "on_stack w' t p" using on by (simp add: w' on_stack_def stack_of_def)
    then have "\<exists>u. on_stack w' u p" ..
    then show "object_inv w' p f'"
      using nm ip off f'(1,2) pk by (simp add: object_inv_def)
    show "on_stack w' t p \<Longrightarrow> \<forall>u. u \<noteq> t \<longrightarrow> \<not> on_stack w u p" using only by blast
  qed (use nr top in \<open>simp_all add: w' on_stack_def executing_def stack_of_def\<close>)
qed

lemma yield_inv:
  assumes "fiber_inv w" and "\<not> returning (locals w t)"
    and "resumes (locals w t) = (p, c) # rest" and "yield t p w = Inr w'"
  shows "fiber_inv w'"
  using assms(4)
proof (rule yield_Inr)
  fix f r assume f: "fibers w p = Some f"
    and w': "w' = upd_fiber p (f\<lparr>fstate := READY, callerContext := False, fcontext := True\<rparr>)
        (upd_locals t ((locals w t)\<lparr>cur_fiber := Some r, returning := True\<rparr>) w)"
  show ?thesis
    by (intro switch_out_inv [OF assms(1-3) f _ _ _ w']) (simp_all add: parked_def running_def)
qed

lemma MainFunc_end_inv:
  assumes "fiber_inv w" and "\<not> returning (locals w t)"
    and "resumes (locals w t) = (p, c) # rest" and "MainFunc_end t p ex w = Inr w'"
  shows "fiber_inv w'"
  using assms(4)
proof (rule MainFunc_end_Inr)
  fix f r assume f: "fibers w p = Some f"
    and w': "w' = upd_fiber p (f\<lparr>fexception := (case ex of None \<Rightarrow> fexception f | Some x \<Rightarrow> Some x),
        fiber_cb := None, fstate := TERM_STATE, callerContext := False, fcontext := False\<rparr>)
        (upd_locals t ((locals w t)\<lparr>cur_fiber := Some r, returning := True\<rparr>) w)"
  show ?thesis
    by (intro switch_out_inv [OF assms(1-3) f _ _ _ w']) (simp_all add: parked_def)
qed

lemma resume_return_inv:
  assumes inv: "fiber_inv w" and ret: "returning (locals w t)" and ok: "resume_return t w = Inr (w', ex)"
  shows "fiber_inv w'"
proof -
  let ?e = "\<lambda>f. if fstate f = TERM_STATE then None else fexception f"
  from ok obtain p c rest f where top: "resumes (locals w t) = (p, c) # rest" and f: "fibers w p = Some f"
    and w': "w' = upd_fiber p (f\<lparr>fexception := ?e f, resumeInProgress := False\<rparr>)
        (upd_locals t ((locals w t)\<lparr>cur_fiber := Some c, resumes := rest, returning := False\<rparr>) w)"
    by (rule resume_return_Inr)
  note obj = fiber_invD(4) [OF inv f] and th = fiber_invD(1) [OF inv, of t]
  have on: "on_stack w t p" by (simp add: on_stack_def stack_of_def top)
  have nm: "\<not> isMainFiber f"
    using obj on by (auto simp: object_inv_def split: if_splits)
  have p_rest: "p \<notin> set (map fst rest)" using th top by (simp add: thread_inv_def stack_of_def)
  have only: "u = t" if "on_stack w u p" for u using fiber_invD(3) [OF inv that on] .
  have ex: "p \<notin> executing w u" for u
  proof (cases "u = t")
    case True
    then show ?thesis using p_rest top ret by (simp add: executing_def stack_of_def)
  next
    case False
    with only show ?thesis using executing_on_stack by metis
  qed
  then have pk: "parked f" using obj nm by (simp add: object_inv_def)
  have off: "\<not> on_stack w' u p" for u
  proof (cases "u = t")
    case True
    then show ?thesis using p_rest by (simp add: w' on_stack_def stack_of_def)
  next
    case False
    then have "on_stack w' u p = on_stack w u p" by (intro same_locals) (simp add: w')
    with False only show ?thesis by metis
  qed
  show ?thesis
  proof (rule fiber_inv_update [OF inv, of w' t p])
    show "thread_inv (locals w' t)"
      using th ret top by (cases rest) (auto simp: w' thread_inv_def stack_of_def)
    show "object_inv w' p (f\<lparr>fexception := ?e f, resumeInProgress := False\<rparr>)"
      by (rule object_idleI) (use nm off pk in \<open>auto simp: parked_def\<close>)
    show "on_stack w' t p \<Longrightarrow> \<forall>u. u \<noteq> t \<longrightarrow> \<not> on_stack w u p" using only by blast
  qed (use ret top in \<open>simp_all add: w' on_stack_def executing_def stack_of_def\<close>)
qed

text \<open>Steps that leave the resume activations alone.\<close>

lemma fiber_inv_put:
  assumes inv: "fiber_inv w" and loc: "locals w' = locals w" and fib: "fibers w' = (fibers w)(p \<mapsto> f)"
    and off: "\<And>t. \<not> on_stack w t p"
    and f: "\<not> isMainFiber f" "\<not> resumeInProgress f" "parked f" "fexception f = None"
  shows "fiber_inv w'"
proof -
  note same = same_locals [OF fun_cong [OF loc]]
  show ?thesis
  proof (rule fiber_inv_update [OF inv, of w' undefined p])
    show "object_inv w' p f" by (rule object_idleI [OF f]) (simp add: same off)
  qed (simp_all add: loc fib same off fiber_invD(1) [OF inv])
qed

lemma Fiber_build_Inr:
  assumes "Fiber_build acquire before os n f a = (a', Inr f')"
  obtains b where "acquire os (if 0 < n then n else g_fiber_stack_size) a = (a', Inr b)"
    and "f' = f\<lparr>stackBlock := b, stackSize := usableSize b, fcontext := True\<rparr>"
  using assms
  by (auto simp: Fiber_build_def Let_def CreateContext_def bind_res_Inr_iff CondPanic_def
      split: prod.splits sum.splits if_splits option.splits)

lemma Fiber_new_Inr:
  assumes "Fiber_new acquire release before os p cb n s w = (w', Inr ())"
  obtains a b where
    "acquire os (if 0 < n then n else g_fiber_stack_size) (allocator w) = (a, Inr b)"
    and "w' = upd_fiber p ((new_fiber (cur_fiber_id w) cb s)\<lparr>stackBlock := b,
           stackSize := usableSize b, fcontext := True\<rparr>)
         (w\<lparr>cur_fiber_id := cur_fiber_id w + 1, allocator := a, fiber_count := fiber_count w + 1\<rparr>)"
  using assms
  by (auto simp: Fiber_new_def Let_def split: prod.splits sum.splits elim: Fiber_build_Inr)

lemma Fiber_new_Inl:
  assumes "Fiber_new acquire release before os p cb n s w = (w', Inl e)"
  shows "fibers w' = fibers w \<and> locals w' = locals w \<and> fiber_count w' = fiber_count w"
  using assms by (auto simp: Fiber_new_def Let_def split: prod.splits sum.splits)

lemma fiber_inv_cong:
  assumes inv: "fiber_inv w" and fib: "fibers w' = fibers w"
    and loc: "\<And>t. cur_fiber (locals w' t) = cur_fiber (locals w t)"
      "\<And>t. cur_thread_fiber (locals w' t) = cur_thread_fiber (locals w t)"
      "\<And>t. resumes (locals w' t) = resumes (locals w t)"
      "\<And>t. returning (locals w' t) = returning (locals w t)"
  shows "fiber_inv w'"
proof (rule fiber_inv_shrink [OF inv])
  show "thread_inv (locals w' t)" for t
    using fiber_invD(1) [OF inv, of t] by (simp add: thread_inv_def stack_of_def loc cong: list.case_cong)
qed (simp_all add: on_stack_def executing_def stack_of_def loc fib)

lemma Fiber_new_inv:
  assumes inv: "fiber_inv w" and new: "fibers w p = None"
    and ok: "Fiber_new acquire release before os p cb n s w = (w', r)"
  shows "fiber_inv w'"
proof (cases r)
  case (Inl e)
  with ok have "fibers w' = fibers w \<and> locals w' = locals w" by (auto dest: Fiber_new_Inl)
  then show ?thesis by (intro fiber_inv_cong [OF inv]) simp_all
next
  case (Inr u)
  with ok have "Fiber_new acquire release before os p cb n s w = (w', Inr ())" by simp
  then obtain a b f where f: "f = (new_fiber (cur_fiber_id w) cb s)\<lparr>stackBlock := b,
           stackSize := usableSize b, fcontext := True\<rparr>" and w': "w' = upd_fiber p f
         (w\<lparr>cur_fiber_id := cur_fiber_id w + 1, allocator := a, fiber_count := fiber_count w + 1\<rparr>)"
    by (rule Fiber_new_Inr) blast
  have "\<not> on_stack w t p" for t using new fiber_invD(2) [OF inv] by metis
  then show ?thesis
    by (intro fiber_inv_put [OF inv, of w' p f]) (simp_all add: w' f new_fiber_def parked_def)
qed

lemma GetThis_inv:
  assumes inv: "fiber_inv w" and new: "fibers w p = None"
  shows "fiber_inv (fst (GetThis t p w))"
proof (cases "cur_fiber (locals w t)")
  case None
  let ?w = "fst (GetThis t p w)"
  have th: "resumes (locals w t) = [] \<and> \<not> returning (locals w t)"
    using None fiber_invD(1) [OF inv, of t] by (auto simp: thread_inv_def split: if_splits list.splits)
  have off: "\<not> on_stack w u p" for u using new fiber_invD(2) [OF inv] by metis
  have loc: "locals ?w = (locals w)(t := (locals w t)\<lparr>cur_fiber := Some p, cur_thread_fiber := Some p\<rparr>)"
    and fib: "fibers ?w = (fibers w)(p \<mapsto> main_fiber (cur_fiber_id w))"
    by (simp_all add: GetThis_def None Let_def SetThis_def upd_locals_def upd_fiber_def)
  have on: "on_stack ?w u q = on_stack w u q" for u q by (simp add: on_stack_def stack_of_def loc)
  have ex: "executing ?w u = executing w u" for u by (simp add: executing_def stack_of_def loc)
  show ?thesis
  proof (rule fiber_inv_update [OF inv, of ?w t p])
    show "thread_inv (locals ?w t)" by (simp add: loc th thread_inv_def stack_of_def)
    show "object_inv ?w p (main_fiber (cur_fiber_id w))"
      by (simp add: object_inv_def main_fiber_def on off)
  qed (simp_all add: loc fib on ex off)
qed (simp add: GetThis_def inv)

lemma reset_Inr:
  assumes "reset before p cb w = Inr w'"
  obtains f where "fibers w p = Some f" and "\<not> isMainFiber f" and "fstate f = TERM_STATE"
    and "w' = upd_fiber p (f\<lparr>fiber_cb := Some cb, fexception := None, fcontext := True, fstate := READY\<rparr>) w"
  using assms
  by (auto simp: reset_def CreateContext_def bind_res_Inr_iff CondPanic_def split: option.splits if_splits)

lemma reset_inv:
  assumes inv: "fiber_inv w" and f: "fibers w p = Some f" "\<not> resumeInProgress f"
    and ok: "reset before p cb w = Inr w'"
  shows "fiber_inv w'"
  using ok
proof (rule reset_Inr)
  fix g assume g: "fibers w p = Some g" "\<not> isMainFiber g" "fstate g = TERM_STATE"
    and w': "w' = upd_fiber p (g\<lparr>fiber_cb := Some cb, fexception := None, fcontext := True, fstate := READY\<rparr>) w"
  have "object_inv w p g" using fiber_invD(4) [OF inv g(1)] .
  moreover have "\<not> resumeInProgress g" using f g by simp
  ultimately have "parked g" "\<And>t. \<not> on_stack w t p" using object_idle [of w p g] g by blast+
  with f g show ?thesis
    by (intro fiber_inv_put [OF inv, of w' p "g\<lparr>fiber_cb := Some cb, fexception := None,
        fcontext := True, fstate := READY\<rparr>"]) (simp_all add: w' parked_def)
qed

lemma fiber_inv_remove:
  assumes inv: "fiber_inv w" and loc: "locals w' = locals w" and fib: "fibers w' = (fibers w)(p := None)"
    and off: "\<And>t. \<not> on_stack w t p"
  shows "fiber_inv w'"
  using fiber_invD(1) [OF inv] same_locals [OF fun_cong [OF loc]] off
  by (intro fiber_inv_shrink [OF inv]) (simp_all add: loc fib)

lemma Fiber_destroy_Inr:
  assumes "Fiber_destroy release t p w = Inr w'" and "fibers w p = Some f"
  shows "fibers w' = (fibers w)(p := None)" and "fiber_count w' = fiber_count w - 1"
    and "\<not> isMainFiber f \<Longrightarrow> locals w' = locals w \<and> fstate f = TERM_STATE \<and>
      (\<exists>g. ReleaseStack release f (allocator w) = Inr (g, allocator w'))"
    and "isMainFiber f \<Longrightarrow> allocator w' = allocator w \<and>
      locals w' = (if cur_fiber (locals w t) = Some p
        then (locals w)(t := (locals w t)\<lparr>cur_fiber := None\<rparr>) else locals w)"
  using assms
  by (auto simp: Fiber_destroy_def Let_def bind_res_Inr_iff CondPanic_def SetThis_def upd_locals_def
      split: if_splits)

lemma Fiber_destroy_inv:
  assumes inv: "fiber_inv w" and f: "fibers w p = Some f" "\<not> isMainFiber f" "\<not> resumeInProgress f"
    and ok: "Fiber_destroy release t p w = Inr w'"
  shows "fiber_inv w'"
  using Fiber_destroy_Inr [OF ok f(1)] f object_idle(1) [OF fiber_invD(4) [OF inv f(1)]]
  by (intro fiber_inv_remove [OF inv, of w' p]) simp_all

lemma thread_exit_inv:
  assumes inv: "fiber_inv w" and r: "resumes (locals w t) = []"
    and f: "fibers w p = Some f" "isMainFiber f"
    and ok: "Fiber_destroy release t p w = Inr w'"
  shows "fiber_inv (upd_locals t no_thread w')"
proof -
  define v where "v = upd_locals t no_thread w'"
  have nr: "\<not> returning (locals w t)" using fiber_invD(1) [OF inv, of t] r by (auto simp: thread_inv_def)
  have loc: "locals v = (locals w)(t := no_thread)" and fib: "fibers v = (fibers w)(p := None)"
    using Fiber_destroy_Inr [OF ok f(1)] f by (auto simp: v_def)
  have on: "on_stack v u q = on_stack w u q" "executing v u = executing w u" for u q
    using r nr by (simp_all add: on_stack_def executing_def stack_of_def loc no_thread_def)
  have off: "\<not> on_stack w u p" for u using fiber_invD(4) [OF inv f(1)] f(2) by (simp add: object_inv_def)
  have th: "thread_inv no_thread" by (simp add: thread_inv_def no_thread_def stack_of_def)
  show ?thesis
    unfolding v_def [symmetric]
    by (rule fiber_inv_shrink [OF inv]) (use fiber_invD(1) [OF inv] th off in \<open>simp_all add: on fib loc\<close>)
qed

lemma fiber_step_inv:
  assumes "fiber_step acquire release mem_of w w'" and "fiber_inv w"
  shows "fiber_inv w'"
  using assms
proof (induction rule: fiber_step.induct)
  case (step_scheduler w t p)
  then show ?case
    by (rule fiber_inv_cong) simp_all
qed (blast intro: GetThis_inv Fiber_new_inv resume_enter_inv yield_inv MainFunc_end_inv
    resume_return_inv reset_inv Fiber_destroy_inv thread_exit_inv)+

lemma fiber_start_inv: "fiber_start a w \<Longrightarrow> fiber_inv w"
  by (simp add: fiber_start_def fiber_inv_def no_thread_def thread_inv_def stack_of_def on_stack_def)

interpretation fiber: invariant_of "fiber_start a" "fiber_step acquire release mem_of" fiber_inv
  for a acquire release mem_of
  by unfold_locales (blast intro: fiber_start_inv fiber_step_inv)+

end
