(* ===== verification/Fiber_Safety.thy ===== *)
theory Fiber_Safety
  imports Fiber
begin

text \<open>
  What \<^verbatim>\<open>fiber.cpp\<close> promises over all interleavings of threads: which stack blocks the live
  Fibers hold, for every allocator that keeps the contract of \<open>fiber_stack_allocator\<close>, and the
  properties of the Fibers of a process that uses the pooled allocator.
\<close>


section \<open>Stacks and the allocator\<close>

text \<open>
  The blocks the live Fibers hold. \<open>fiber_owns\<close> says that they are exactly what the allocator
  has handed out, that every block is well formed, and that \<^verbatim>\<open>fiber_count\<close> is the number of
  Fiber objects.
\<close>

definition coroutines :: "'a fiber_world \<Rightarrow> fid set" where
  "coroutines w = {p. \<exists>f. fibers w p = Some f \<and> \<not> isMainFiber f}"

definition held :: "'a fiber_world \<Rightarrow> FiberStackBlock multiset" where
  "held w = {#stackBlock (the (fibers w p)). p \<in># mset_set (coroutines w)#}"

definition stack_ok :: "platform \<Rightarrow> Fiber \<Rightarrow> bool" where
  "stack_ok P f \<longleftrightarrow> isMainFiber f \<or>
     hasAllocator f \<and> block_ok P (stackBlock f) \<and> stackSize f = usableSize (stackBlock f)"

definition fiber_owns ::
  "('a \<Rightarrow> FiberStackBlock multiset \<Rightarrow> bool) \<Rightarrow> platform \<Rightarrow> 'a fiber_world \<Rightarrow> bool" where
  "fiber_owns owns P w \<longleftrightarrow> finite (dom (fibers w)) \<and> owns (allocator w) (held w) \<and>
     (\<forall>p f. fibers w p = Some f \<longrightarrow> stack_ok P f) \<and>
     fiber_count w = of_nat (card (dom (fibers w)))"

lemma finite_coroutines: "finite (dom (fibers w)) \<Longrightarrow> finite (coroutines w)"
  by (rule finite_subset [of _ "dom (fibers w)"]) (auto simp: coroutines_def)

text \<open>Writes that keep the stack of every Fiber keep the ownership.\<close>

definition stack_part :: "Fiber \<Rightarrow> bool \<times> bool \<times> u64 \<times> FiberStackBlock" where
  "stack_part f = (isMainFiber f, hasAllocator f, stackSize f, stackBlock f)"

lemma fiber_owns_cong:
  assumes own: "fiber_owns owns P w" and a: "allocator w' = allocator w" "fiber_count w' = fiber_count w"
    and eq: "\<And>q. map_option stack_part (fibers w' q) = map_option stack_part (fibers w q)"
  shows "fiber_owns owns P w'"
proof -
  have dom: "dom (fibers w') = dom (fibers w)"
    using eq by (auto simp: dom_def) (metis map_option_is_None not_None_eq option.distinct(1))+
  have part: "\<exists>g. fibers w q = Some g \<and> stack_part g = stack_part f" if "fibers w' q = Some f" for q f
    using eq [of q] that by (cases "fibers w q") auto
  have part': "\<exists>g. fibers w' q = Some g \<and> stack_part g = stack_part f" if "fibers w q = Some f" for q f
    using eq [of q] that by (cases "fibers w' q") auto
  have co: "coroutines w' = coroutines w"
    using part part' by (fastforce simp: coroutines_def stack_part_def)
  have "held w' = held w"
    unfolding held_def co
  proof (rule image_mset_cong)
    fix p assume "p \<in># mset_set (coroutines w)"
    then have "p \<in> coroutines w" by (metis elem_mset_set empty_iff mset_set.infinite set_mset_empty)
    then obtain f where "fibers w p = Some f" by (auto simp: coroutines_def)
    with part' [OF this] show "stackBlock (the (fibers w' p)) = stackBlock (the (fibers w p))"
      by (auto simp: stack_part_def)
  qed
  moreover have "stack_ok P f" if "fibers w' q = Some f" for q f
  proof -
    from part [OF that] obtain g where "fibers w q = Some g" and g: "stack_part g = stack_part f" by blast
    then have "stack_ok P g" using own by (simp add: fiber_owns_def)
    with g show ?thesis by (simp add: stack_ok_def stack_part_def)
  qed
  ultimately show ?thesis using own by (simp add: fiber_owns_def a dom)
qed

lemma fiber_owns_put:
  assumes own: "fiber_owns owns P w" and p: "fibers w p = Some f" "stack_part f' = stack_part f"
  shows "fiber_owns owns P (upd_fiber p f' (upd_locals t l w))"
  by (rule fiber_owns_cong [OF own]) (simp_all add: p)

lemma fiber_owns_locals: "fiber_owns owns P w \<Longrightarrow> fiber_owns owns P (upd_locals t l w)"
  by (rule fiber_owns_cong) simp_all

lemma switch_owns:
  assumes own: "fiber_owns owns P w"
  shows "resume_enter t p w = Inr w1 \<Longrightarrow> fiber_owns owns P w1"
    and "yield t p w = Inr w2 \<Longrightarrow> fiber_owns owns P w2"
    and "MainFunc_end t p ex w = Inr w3 \<Longrightarrow> fiber_owns owns P w3"
    and "resume_return t w = Inr (w4, ex) \<Longrightarrow> fiber_owns owns P w4"
  by (auto elim!: resume_enter_Inr yield_Inr MainFunc_end_Inr resume_return_Inr
      intro!: fiber_owns_put [OF own] simp: stack_part_def)

lemma reset_owns:
  assumes own: "fiber_owns owns P w" and ok: "reset before p cb w = Inr w'"
  shows "fiber_owns owns P w'"
  using ok
proof (rule reset_Inr)
  fix f assume f: "fibers w p = Some f"
    and w': "w' = upd_fiber p (f\<lparr>fiber_cb := Some cb, fexception := None, fcontext := True, fstate := READY\<rparr>) w"
  show ?thesis by (rule fiber_owns_cong [OF own]) (simp_all add: w' f stack_part_def)
qed

text \<open>A Fiber object appears or goes.\<close>

lemma card_dom_new:
  assumes "finite (dom m)" and "m p = None"
  shows "card (dom (m(p \<mapsto> f))) = Suc (card (dom m))"
  using assms by (simp add: domIff)

lemma coroutines_add:
  assumes "fibers w p = None" and "fibers w' = (fibers w)(p \<mapsto> f)"
  shows "coroutines w' = (if isMainFiber f then coroutines w else insert p (coroutines w))"
  using assms by (auto simp: coroutines_def)

lemma held_cong:
  assumes "coroutines w' = coroutines w" and "\<And>p. p \<in> coroutines w \<Longrightarrow> fibers w' p = fibers w p"
  shows "held w' = held w"
  unfolding held_def assms(1)
proof (rule image_mset_cong)
  fix p assume "p \<in># mset_set (coroutines w)"
  then have "p \<in> coroutines w" by (cases "finite (coroutines w)") simp_all
  then show "stackBlock (the (fibers w' p)) = stackBlock (the (fibers w p))" by (simp add: assms(2))
qed

lemma held_insert:
  assumes fin: "finite (coroutines w)" and p: "p \<notin> coroutines w" and co: "coroutines w' = insert p (coroutines w)"
    and f: "fibers w' p = Some f" and same: "\<And>q. q \<in> coroutines w \<Longrightarrow> fibers w' q = fibers w q"
  shows "held w' = add_mset (stackBlock f) (held w)"
proof -
  have "image_mset (\<lambda>q. stackBlock (the (fibers w' q))) (mset_set (coroutines w)) = held w"
    unfolding held_def using fin same by (intro image_mset_cong) simp
  then show ?thesis using fin p f by (simp add: held_def [of w'] co)
qed

lemma main_owns:
  assumes own: "fiber_owns owns P w" and new: "fibers w p = None"
    and w': "fibers w' = (fibers w)(p \<mapsto> main_fiber i)" "allocator w' = allocator w"
      "fiber_count w' = fiber_count w + 1"
  shows "fiber_owns owns P w'"
proof -
  have co: "coroutines w' = coroutines w" using coroutines_add [OF new w'(1)] by (simp add: main_fiber_def)
  have "held w' = held w" using new by (intro held_cong [OF co]) (auto simp: w' coroutines_def)
  moreover have "card (dom (fibers w')) = Suc (card (dom (fibers w)))"
    unfolding w'(1) using own new by (intro card_dom_new) (auto simp: fiber_owns_def)
  moreover have "stack_ok P (main_fiber i)" by (simp add: stack_ok_def main_fiber_def)
  ultimately show ?thesis using own by (simp add: fiber_owns_def w')
qed

lemma GetThis_owns:
  assumes "fiber_owns owns P w" and "fibers w p = None"
  shows "fiber_owns owns P (fst (GetThis t p w))"
  by (cases "cur_fiber (locals w t)")
    (use assms in \<open>auto simp: GetThis_def Let_def intro!: main_owns [of owns P w p]\<close>)

context fiber_stack_allocator
begin

lemma ReleaseStack_owned:
  assumes "owns a (add_mset (stackBlock f) B)" and "stack_ok P f" and "\<not> isMainFiber f"
  shows "\<exists>g a'. ReleaseStack release f a = Inr (g, a') \<and> owns a' B"
proof -
  obtain a' where "release (stackBlock f) a = Inr a'" "owns a' B" using release_takes [OF assms(1)] by blast
  with assms(2,3) show ?thesis
    by (simp add: ReleaseStack_def block_valid_def stack_ok_def block_ok_def CondPanic_def)
qed

lemma Fiber_new_owns:
  assumes own: "fiber_owns owns P w" and new: "fibers w p = None" and fresh: "os_fresh os (mem_of (allocator w))"
    and ok: "Fiber_new acquire release before os p cb n s w = (w', Inr ())"
    and mem: "mem_ok (mem_of (fst (acquire os (if 0 < n then n else g_fiber_stack_size) (allocator w))))"
  shows "fiber_owns owns P w'"
  using ok
proof (rule Fiber_new_Inr)
  fix a b assume acq: "acquire os (if 0 < n then n else g_fiber_stack_size) (allocator w) = (a, Inr b)"
    and w'': "w' = upd_fiber p ((new_fiber (cur_fiber_id w) cb s)\<lparr>stackBlock := b, stackSize := usableSize b,
        fcontext := True\<rparr>) (w\<lparr>cur_fiber_id := cur_fiber_id w + 1, allocator := a,
        fiber_count := fiber_count w + 1\<rparr>)"
  define f where "f = (new_fiber (cur_fiber_id w) cb s)\<lparr>stackBlock := b, stackSize := usableSize b,
        fcontext := True\<rparr>"
  have f: "\<not> isMainFiber f" "hasAllocator f" "stackBlock f = b" "stackSize f = usableSize b"
    by (simp_all add: f_def new_fiber_def)
  have w': "fibers w' = (fibers w)(p \<mapsto> f)" "allocator w' = a" "fiber_count w' = fiber_count w + 1"
    by (simp_all add: w'' f_def)
  have o: "owns (allocator w) (held w)" and fin: "finite (dom (fibers w))"
    using own by (simp_all add: fiber_owns_def)
  have g: "owns a (add_mset b (held w))" "block_ok P b"
    using acquire_gives [OF o fresh acq] mem acq by auto
  have old: "p \<notin> coroutines w" using new by (simp add: coroutines_def)
  have co: "coroutines w' = insert p (coroutines w)" using coroutines_add [OF new w'(1)] f(1) by simp
  have "held w' = add_mset (stackBlock f) (held w)"
    by (rule held_insert [OF finite_coroutines [OF fin] old co]) (use old in \<open>auto simp: w'\<close>)
  moreover have "card (dom (fibers w')) = Suc (card (dom (fibers w)))"
    unfolding w'(1) by (rule card_dom_new [OF fin new])
  ultimately show ?thesis using own g f by (simp add: fiber_owns_def w' stack_ok_def)
qed

lemma Fiber_new_fails:
  assumes own: "fiber_owns owns P w" and fresh: "os_fresh os (mem_of (allocator w))"
    and ok: "Fiber_new acquire release before os p cb n s w = (w', Inl e)"
    and mem: "mem_ok (mem_of (fst (acquire os (if 0 < n then n else g_fiber_stack_size) (allocator w))))"
  shows "fiber_owns owns P w'"
proof -
  let ?n = "if 0 < n then n else g_fiber_stack_size" and ?f = "new_fiber (cur_fiber_id w) cb s"
  have o: "owns (allocator w) (held w)" using own by (simp add: fiber_owns_def)
  obtain a r where acq: "acquire os ?n (allocator w) = (a, r)" by fastforce
  have "owns (allocator w') (held w)"
  proof (cases r)
    case (Inl e')
    with acq acquire_fails [OF o fresh, of ?n a e'] ok show ?thesis
      by (auto simp: Fiber_new_def Let_def Fiber_build_def ReleaseStack_def new_fiber_def
          block_valid_def empty_block_def)
  next
    case (Inr b)
    with acquire_gives [OF o fresh, of ?n a b] acq mem
    have b: "owns a (add_mset b (held w))" "block_ok P b" "?n \<le> usableSize b" by auto
    let ?g = "?f\<lparr>stackBlock := b, stackSize := usableSize b\<rparr>"
    obtain g a' where "ReleaseStack release ?g a = Inr (g, a')" "owns a' (held w)"
      using ReleaseStack_owned [of a ?g "held w"] b
      by (auto simp: stack_ok_def new_fiber_def)
    then show ?thesis using ok acq Inr b
      by (auto simp: Fiber_new_def Let_def Fiber_build_def block_valid_def block_ok_def
          split: sum.splits if_splits)
  qed
  moreover have same: "fibers w' = fibers w" "fiber_count w' = fiber_count w" using Fiber_new_Inl [OF ok] by auto
  moreover have "held w' = held w" by (rule held_cong) (simp_all add: coroutines_def same)
  ultimately show ?thesis using own by (simp add: fiber_owns_def)
qed

lemma Fiber_destroy_owns:
  assumes own: "fiber_owns owns P w" and f: "fibers w p = Some f"
    and ok: "Fiber_destroy release t p w = Inr w'"
  shows "fiber_owns owns P w'"
proof -
  note d = Fiber_destroy_Inr [OF ok f]
  have fin: "finite (dom (fibers w))" and o: "owns (allocator w) (held w)" and st: "stack_ok P f"
    and fc: "fiber_count w = of_nat (card (dom (fibers w)))"
    using own f by (auto simp: fiber_owns_def)
  have "card (dom (fibers w)) = Suc (card (dom (fibers w) - {p}))"
    using fin f by (intro card.remove) auto
  then have n: "fiber_count w' = of_nat (card (dom (fibers w')))" by (simp add: d(1,2) fc)
  have "owns (allocator w') (held w')"
  proof (cases "isMainFiber f")
    case True
    then have "coroutines w' = coroutines w" using f by (auto simp: coroutines_def d(1))
    then have "held w' = held w" by (rule held_cong) (use f True in \<open>auto simp: coroutines_def d(1)\<close>)
    with True o show ?thesis by (simp add: d(4))
  next
    case False
    have co: "coroutines w = insert p (coroutines w')" "p \<notin> coroutines w'"
      using f False by (auto simp: coroutines_def d(1))
    have "held w = add_mset (stackBlock f) (held w')"
      by (rule held_insert [OF _ co(2,1) f]) (use finite_coroutines [OF fin] co f in \<open>auto simp: d(1)\<close>)
    with o ReleaseStack_owned [of "allocator w" f "held w'"] st False d(3) show ?thesis by auto
  qed
  with n fin own show ?thesis by (auto simp: fiber_owns_def d(1) split: if_splits)
qed

lemma fiber_step_owns:
  assumes "fiber_step acquire release mem_of w w'" and "fiber_owns owns P w"
  shows "fiber_owns owns P w'"
  using assms
proof (induction rule: fiber_step.induct)
  case (step_new w p os before cb n insched w' r)
  then show ?case by (cases r) (auto intro: Fiber_new_owns Fiber_new_fails)
qed (blast intro: GetThis_owns fiber_owns_locals switch_owns reset_owns Fiber_destroy_owns)+

end

definition fiber_run_start ::
  "('a \<Rightarrow> FiberStackBlock multiset \<Rightarrow> bool) \<Rightarrow> 'a fiber_world \<Rightarrow> bool" where
  "fiber_run_start owns w \<longleftrightarrow> fiber_start (allocator w) w \<and> owns (allocator w) {#}"

lemma fiber_run_start_owns: "fiber_run_start owns w \<Longrightarrow> fiber_owns owns P w"
  by (simp add: fiber_run_start_def fiber_start_def fiber_owns_def held_def coroutines_def)

text \<open>Fibers over any allocator that keeps the contract.\<close>

sublocale fiber_stack_allocator \<subseteq> fibers: invariant_of "fiber_run_start owns"
  "fiber_step acquire release mem_of" "\<lambda>w. fiber_inv w \<and> fiber_owns owns P w"
proof
  show "fiber_inv w \<and> fiber_owns owns P w" if "fiber_run_start owns w" for w
    using that fiber_run_start_owns fiber_start_inv by (auto simp: fiber_run_start_def)
  show "fiber_inv w' \<and> fiber_owns owns P w'"
    if "fiber_inv w \<and> fiber_owns owns P w" "fiber_step acquire release mem_of w w'" for w w'
    using that fiber_step_inv fiber_step_owns by blast
qed

context fiber_stack_allocator
begin

lemma fiber_stacks_distinct:
  assumes own: "fiber_owns owns P w" and p: "p \<in> coroutines w" and q: "q \<in> coroutines w" and pq: "p \<noteq> q"
  shows "allocation (stackBlock (the (fibers w p))) \<noteq> allocation (stackBlock (the (fibers w q)))"
proof -
  let ?b = "\<lambda>p. stackBlock (the (fibers w p))" and ?C = "coroutines w"
  have fin: "finite ?C" using own finite_coroutines by (auto simp: fiber_owns_def)
  have "mset_set ?C = add_mset p (mset_set (?C - {p}))" using mset_set.remove [OF fin p] .
  also have "mset_set (?C - {p}) = add_mset q (mset_set (?C - {p} - {q}))"
    using q pq fin by (intro mset_set.remove) auto
  finally have "held w = add_mset (?b p) (add_mset (?b q) (image_mset ?b (mset_set (?C - {p} - {q}))))"
    by (simp add: held_def)
  with own have "owns (allocator w) (add_mset (?b p) (add_mset (?b q) (image_mset ?b (mset_set (?C - {p} - {q})))))"
    by (simp add: fiber_owns_def)
  then show ?thesis by (rule held_blocks_distinct)
qed

lemma Fiber_destroy_succeeds:
  assumes own: "fiber_owns owns P w" and f: "fibers w p = Some f" "\<not> isMainFiber f" "fstate f = TERM_STATE"
  shows "\<exists>w'. Fiber_destroy release t p w = Inr w'"
proof -
  have o: "owns (allocator w) (held w)" and st: "stack_ok P f" and fin: "finite (coroutines w)"
    using own f finite_coroutines by (auto simp: fiber_owns_def)
  have "p \<in> coroutines w" using f by (simp add: coroutines_def)
  then have "held w = add_mset (stackBlock f) (image_mset (\<lambda>p. stackBlock (the (fibers w p))) (mset_set (coroutines w - {p})))"
    using mset_set.remove [OF fin] f by (simp add: held_def)
  with o ReleaseStack_owned [OF _ st f(2)]
  obtain g a where "ReleaseStack release f (allocator w) = Inr (g, a)" by metis
  with f show ?thesis by (simp add: Fiber_destroy_def CondPanic_def)
qed

end

section \<open>Properties\<close>

lemma yield_return:
  assumes inv: "fiber_inv w" and nr: "\<not> returning (locals w t)"
    and top: "resumes (locals w t) = (p, c) # rest" and f: "fibers w p = Some f"
    and ret: "return_fiber t f w = Some r"
  shows "\<exists>w1 w2. yield t p w = Inr w1 \<and> resume_return t w1 = Inr (w2, None) \<and>
    fibers w2 = (fibers w)(p \<mapsto> f\<lparr>fstate := READY, callerContext := False, fcontext := True,
      resumeInProgress := False\<rparr>) \<and>
    locals w2 = (locals w)(t := (locals w t)\<lparr>cur_fiber := Some c, resumes := rest\<rparr>) \<and>
    allocator w2 = allocator w"
proof -
  have "p \<in> executing w t" using nr top by (simp add: executing_def stack_of_def)
  then have run: "running f" using object_executing(3) [OF fiber_invD(4) [OF inv f]] by blast
  obtain w1 where y: "yield t p w = Inr w1"
    and w1: "w1 = upd_fiber p (f\<lparr>fstate := READY, callerContext := False, fcontext := True\<rparr>)
        (upd_locals t ((locals w t)\<lparr>cur_fiber := Some r, returning := True\<rparr>) w)"
    using run f ret by (simp add: yield_def running_def CondPanic_def)
  then show ?thesis using top nr by (auto simp: resume_return_def fun_eq_iff)
qed

lemma end_return:
  assumes inv: "fiber_inv w" and nr: "\<not> returning (locals w t)"
    and top: "resumes (locals w t) = (p, c) # rest" and f: "fibers w p = Some f"
    and ret: "return_fiber t f w = Some r"
  shows "\<exists>w1 w2. MainFunc_end t p ex w = Inr w1 \<and> resume_return t w1 = Inr (w2, ex) \<and>
    fibers w2 = (fibers w)(p \<mapsto> f\<lparr>fiber_cb := None, fstate := TERM_STATE, callerContext := False,
      resumeInProgress := False\<rparr>) \<and>
    locals w2 = (locals w)(t := (locals w t)\<lparr>cur_fiber := Some c, resumes := rest\<rparr>) \<and>
    allocator w2 = allocator w"
proof -
  have "p \<in> executing w t" using nr top by (simp add: executing_def stack_of_def)
  then have run: "running f" using object_executing(3) [OF fiber_invD(4) [OF inv f]] by blast
  obtain w1 where y: "MainFunc_end t p ex w = Inr w1"
    and w1: "w1 = upd_fiber p (f\<lparr>fexception := (case ex of None \<Rightarrow> fexception f | Some x \<Rightarrow> Some x),
        fiber_cb := None, fstate := TERM_STATE, callerContext := False, fcontext := False\<rparr>)
        (upd_locals t ((locals w t)\<lparr>cur_fiber := Some r, returning := True\<rparr>) w)"
    using f ret by (simp add: MainFunc_end_def CondPanic_def)
  have "f\<lparr>fiber_cb := None, fstate := TERM_STATE, callerContext := False,
      fcontext := False, fexception := None, resumeInProgress := False\<rparr> = f\<lparr>fiber_cb := None, fstate := TERM_STATE,
      callerContext := False, resumeInProgress := False\<rparr>"
    using run by (cases f) (simp add: running_def)
  moreover have "(case ex of None \<Rightarrow> fexception f | Some x \<Rightarrow> Some x) = ex"
    using run by (simp add: running_def split: option.splits)
  ultimately show ?thesis using y w1 top nr by (auto simp: resume_return_def fun_eq_iff)
qed

text \<open>A process with one thread that creates a Fiber on the pooled allocator and resumes it.\<close>

definition example_world :: "(PooledImpl \<times> memory) fiber_world" where
  "example_world = \<lparr>fibers = Map.empty, locals = (\<lambda>t. no_thread), cur_fiber_id = 0, fiber_count = 0,
     allocator = (example_pool, [])\<rparr>"

definition example_main :: "(PooledImpl \<times> memory) fiber_world" where
  "example_main = fst (GetThis 0 1 example_world)"

definition example_created :: "(PooledImpl \<times> memory) fiber_world" where
  "example_created = fst (Fiber_new (Pooled_acquire example_platform) (Pooled_release example_platform Insert_ok)
     (\<lambda>b. None) example_os 2 7 100000 False example_main)"

definition example_fiber :: Fiber where
  "example_fiber = (new_fiber 1 7 False)\<lparr>stackBlock := example_block, stackSize := 131072, fcontext := True\<rparr>"

definition example_running :: "(PooledImpl \<times> memory) fiber_world" where
  "example_running = upd_fiber 2 (example_fiber\<lparr>resumeInProgress := True, fstate := RUNNING,
      fcontext := False, callerContext := True\<rparr>)
     (upd_locals 0 ((locals example_created 0)\<lparr>cur_fiber := Some 2, resumes := [(2, 1)]\<rparr>) example_created)"

abbreviation example_fiber_step ::
  "(PooledImpl \<times> memory) fiber_world \<Rightarrow> (PooledImpl \<times> memory) fiber_world \<Rightarrow> bool" where
  "example_fiber_step \<equiv> fiber_step (Pooled_acquire example_platform)
     (Pooled_release example_platform Insert_ok) snd"

lemma example_start: "fiber_run_start (pool_owns example_platform) example_world"
  by (simp add: fiber_run_start_def fiber_start_def example_world_def example_pool_owns)

lemma example_main_fields:
  "fibers example_main = [1 \<mapsto> main_fiber 0]" "allocator example_main = (example_pool, [])"
  "locals example_main = (\<lambda>t. no_thread)(0 := no_thread\<lparr>cur_fiber := Some 1, cur_thread_fiber := Some 1\<rparr>)"
  "cur_fiber_id example_main = 1" "fiber_count example_main = 1"
  by (simp_all add: example_main_def example_world_def GetThis_def no_thread_def Let_def SetThis_def
      upd_locals_def upd_fiber_def)

lemma example_new:
  "Fiber_new (Pooled_acquire example_platform) (Pooled_release example_platform Insert_ok)
     (\<lambda>b. None) example_os 2 7 100000 False example_main = (example_created, Inr ())"
  "fibers example_created = [1 \<mapsto> main_fiber 0, 2 \<mapsto> example_fiber]"
  "locals example_created = locals example_main"
  by (simp_all add: example_created_def Fiber_new_def Fiber_build_def Let_def example_main_fields example_acquire
      CreateContext_def block_valid_def CondPanic_def example_fiber_def new_fiber_def upd_fiber_def example_block_def)

lemma example_resume: "resume_enter 0 2 example_created = Inr example_running"
  by (simp add: resume_enter_def example_new example_running_def CondPanic_def example_main_fields
      example_fiber_def new_fiber_def no_thread_def)

lemma example_steps: "example_fiber_step\<^sup>*\<^sup>* example_world example_running"
proof -
  have 1: "example_fiber_step example_world example_main"
    unfolding example_main_def by (rule fiber_step.step_main) (simp add: example_world_def)
  have 2: "example_fiber_step example_main example_created"
    by (rule fiber_step.step_new [OF _ _ example_new(1)])
      (simp_all add: example_main_fields example_acquire os_fresh_def mem_ok_def)
  have 3: "example_fiber_step example_created example_running"
    by (rule fiber_step.step_resume [OF _ example_resume])
      (simp add: example_new example_main_fields no_thread_def)
  from 1 2 3 show ?thesis by (meson converse_rtranclp_into_rtranclp r_into_rtranclp)
qed

lemma example_reachable_inv: "fiber_inv example_running"
  using pooled.fibers.inv_reachable [OF example_start example_steps] by simp

lemma example_running_fields:
  "fibers example_running 2 = Some (example_fiber\<lparr>resumeInProgress := True, fstate := RUNNING,
     fcontext := False, callerContext := True\<rparr>)"
  "resumes (locals example_running 0) = [(2, 1)]" "\<not> returning (locals example_running 0)"
  "cur_thread_fiber (locals example_running 0) = Some 1"
  by (simp_all add: example_running_def example_new example_main_fields no_thread_def)

text \<open>
  C1: in every interleaving of threads that create, resume, leave, reset and destroy Fibers on
  the pooled allocator, a Fiber's code is on the call stack of at most one thread, at most
  once; it is then in state RUNNING with its resumer's handle, and any further \<^verbatim>\<open>resume\<close> of it
  from any thread is refused with the logic error and without effect.
\<close>

theorem fiber_runs_on_one_thread:
  assumes "fiber_run_start (pool_owns P) w0"
    and "(fiber_step (Pooled_acquire P) (Pooled_release P ins) snd)\<^sup>*\<^sup>* w0 w"
    and "p \<in> executing w t"
  shows "(\<forall>u. p \<in> executing w u \<longrightarrow> u = t) \<and> count (mset (stack_of (locals w t))) p = 1 \<and>
    (\<exists>f. fibers w p = Some f \<and> fstate f = RUNNING \<and> callerContext f \<and> \<not> fcontext f) \<and>
    (\<forall>u. resume_enter u p w = Inl (LogicError ''fiber is already being resumed''))"
proof -
  have inv: "fiber_inv w" using pooled.fibers.inv_reachable [OF assms(1,2)] by simp
  have on: "on_stack w t p" using assms(3) by (rule executing_on_stack)
  then obtain f where f: "fibers w p = Some f" using fiber_invD(2) [OF inv] by blast
  note e = object_executing [OF fiber_invD(4) [OF inv f] assms(3)]
  have "u = t" if "p \<in> executing w u" for u
    using fiber_invD(3) [OF inv executing_on_stack [OF that] on] .
  moreover have "distinct (stack_of (locals w t))" using fiber_invD(1) [OF inv] by (simp add: thread_inv_def)
  then have "count (mset (stack_of (locals w t))) p = 1"
    using on by (simp add: on_stack_def distinct_count_atmost_1)
  ultimately show ?thesis using f e by (auto simp: running_def resume_enter_def)
qed

theorem fiber_runs_on_one_thread_witness:
  "fiber_run_start (pool_owns example_platform) example_world \<and>
   example_fiber_step\<^sup>*\<^sup>* example_world example_running \<and> 2 \<in> executing example_running 0 \<and>
   resume_enter 5 2 example_running = Inl (LogicError ''fiber is already being resumed'')"
  using fiber_runs_on_one_thread [OF example_start example_steps, of 2 0] example_start example_steps
  by (simp add: executing_def stack_of_def example_running_fields)

text \<open>
  C10: a Fiber that is executing can always yield, and can always finish, once the Fiber it
  returns to is set. Either way its \<^verbatim>\<open>resume\<close> returns in the caller that called it: the caller
  is the current Fiber again, one activation is popped, the Fiber is READY (or TERM) and free
  to be resumed (or reset), and no other Fiber, thread or stack is touched. An exception of
  the callback is rethrown by that \<^verbatim>\<open>resume\<close>, and by no later one.
\<close>

theorem resume_returns_to_caller:
  assumes "fiber_run_start (pool_owns P) w0"
    and "(fiber_step (Pooled_acquire P) (Pooled_release P ins) snd)\<^sup>*\<^sup>* w0 w"
    and "\<not> returning (locals w t)" and "resumes (locals w t) = (p, c) # rest"
    and "fibers w p = Some f" and "return_fiber t f w \<noteq> None"
  shows "c = (case rest of [] \<Rightarrow> the (cur_thread_fiber (locals w t)) | (q, d) # _ \<Rightarrow> q) \<and>
    (\<exists>w1 w2. yield t p w = Inr w1 \<and> resume_return t w1 = Inr (w2, None) \<and>
      fibers w2 = (fibers w)(p \<mapsto> f\<lparr>fstate := READY, callerContext := False, fcontext := True,
        resumeInProgress := False\<rparr>) \<and>
      locals w2 = (locals w)(t := (locals w t)\<lparr>cur_fiber := Some c, resumes := rest\<rparr>) \<and>
      allocator w2 = allocator w) \<and>
    (\<exists>w1 w2. MainFunc_end t p ex w = Inr w1 \<and> resume_return t w1 = Inr (w2, ex) \<and>
      fibers w2 = (fibers w)(p \<mapsto> f\<lparr>fiber_cb := None, fstate := TERM_STATE, callerContext := False,
        resumeInProgress := False\<rparr>) \<and> fexception (the (fibers w2 p)) = None \<and>
      locals w2 = (locals w)(t := (locals w t)\<lparr>cur_fiber := Some c, resumes := rest\<rparr>) \<and>
      allocator w2 = allocator w)"
proof -
  have inv: "fiber_inv w" using pooled.fibers.inv_reachable [OF assms(1,2)] by simp
  obtain r where r: "return_fiber t f w = Some r" using assms(6) by blast
  have "linked (cur_thread_fiber (locals w t)) ((p, c) # rest)"
    using fiber_invD(1) [OF inv, of t] assms(4) by (simp add: thread_inv_def)
  then have "c = (case rest of [] \<Rightarrow> the (cur_thread_fiber (locals w t)) | (q, d) # _ \<Rightarrow> q)"
    by (cases rest) auto
  moreover have "p \<in> executing w t" using assms(3,4) by (simp add: executing_def stack_of_def)
  then have "fexception f = None"
    using object_executing(3) [OF fiber_invD(4) [OF inv assms(5)]] by (auto simp: running_def)
  ultimately show ?thesis
    using yield_return [OF inv assms(3-5) r] end_return [OF inv assms(3-5) r, of ex] by auto
qed

theorem resume_returns_to_caller_witness:
  "(\<exists>w1 w2. yield 0 2 example_running = Inr w1 \<and> resume_return 0 w1 = Inr (w2, None) \<and>
     cur_fiber (locals w2 0) = Some 1) \<and>
   (\<exists>w1 w2. MainFunc_end 0 2 (Some 9) example_running = Inr w1 \<and> resume_return 0 w1 = Inr (w2, Some 9))"
  using resume_returns_to_caller [OF example_start example_steps example_running_fields(3,2,1), of "Some 9"]
  by (fastforce simp: return_fiber_def example_running_fields example_fiber_def new_fiber_def)

text \<open>
  C13: in every reachable state all Fibers other than main Fibers have a stack of their own: no
  two share an allocation, every stack is well formed, \<^verbatim>\<open>TotalFiberNum\<close> is the number of
  Fiber objects, and destroying a Fiber that has ended returns its stack without panic.
\<close>

theorem fiber_stacks_owned:
  assumes "fiber_run_start (pool_owns P) w0"
    and "(fiber_step (Pooled_acquire P) (Pooled_release P ins) snd)\<^sup>*\<^sup>* w0 w"
    and "fibers w p = Some f" and "\<not> isMainFiber f"
  shows "block_ok P (stackBlock f) \<and> stackSize f = usableSize (stackBlock f) \<and>
    (\<forall>q g. fibers w q = Some g \<longrightarrow> \<not> isMainFiber g \<longrightarrow> q \<noteq> p \<longrightarrow>
      allocation (stackBlock g) \<noteq> allocation (stackBlock f)) \<and>
    TotalFiberNum w = of_nat (card (dom (fibers w))) \<and>
    (fstate f = TERM_STATE \<longrightarrow> (\<exists>w'. Fiber_destroy (Pooled_release P ins) t p w = Inr w' \<and>
      fiber_owns (pool_owns P) P w' \<and> fibers w' = (fibers w)(p := None)))"
proof -
  have own: "fiber_owns (pool_owns P) P w" using pooled.fibers.inv_reachable [OF assms(1,2)] by simp
  then have "stack_ok P f" using assms(3) by (simp add: fiber_owns_def)
  moreover have "allocation (stackBlock g) \<noteq> allocation (stackBlock f)"
    if "fibers w q = Some g" "\<not> isMainFiber g" "q \<noteq> p" for q g
    using pooled.fiber_stacks_distinct [OF own, of q p] that assms(3,4) by (simp add: coroutines_def)
  moreover have "\<exists>w'. Fiber_destroy (Pooled_release P ins) t p w = Inr w' \<and>
      fiber_owns (pool_owns P) P w' \<and> fibers w' = (fibers w)(p := None)" if "fstate f = TERM_STATE"
    using pooled.Fiber_destroy_succeeds [OF own assms(3,4) that, of ins t]
      pooled.Fiber_destroy_owns [OF own assms(3)] Fiber_destroy_Inr(1) [OF _ assms(3)] by metis
  ultimately show ?thesis using own assms(4) by (auto simp: stack_ok_def TotalFiberNum_def fiber_owns_def)
qed

theorem fiber_stacks_owned_witness:
  "block_ok example_platform example_block \<and> TotalFiberNum example_running = of_nat (card (dom (fibers example_running)))"
  using fiber_stacks_owned [OF example_start example_steps example_running_fields(1)]
  by (simp add: example_fiber_def new_fiber_def)

text \<open>
  \<^verbatim>\<open>reset\<close> is refused for a main Fiber and for a Fiber that has not ended. On a Fiber that
  has ended and that no \<^verbatim>\<open>resume\<close> holds it succeeds unless the allocator's hook throws, keeps
  the id and the very same stack block, installs the new callback, and the next \<^verbatim>\<open>resume\<close> of
  the Fiber from any thread with a current Fiber enters it.
\<close>

theorem reset_reuses_fiber:
  assumes "fiber_run_start (pool_owns P) w0"
    and "(fiber_step (Pooled_acquire P) (Pooled_release P ins) snd)\<^sup>*\<^sup>* w0 w"
    and "fibers w p = Some f" and "\<not> resumeInProgress f" and "before (stackBlock f) = None"
  shows "if isMainFiber f then reset before p cb w = Inl (Panic ''main fiber cannot be reset'')
    else if fstate f \<noteq> TERM_STATE then reset before p cb w = Inl (Panic ''state isn't TERM'')
    else \<exists>w' g. reset before p cb w = Inr w' \<and> fibers w' = (fibers w)(p \<mapsto> g) \<and>
      locals w' = locals w \<and> allocator w' = allocator w \<and> fiber_id g = fiber_id f \<and>
      stackBlock g = stackBlock f \<and> fiber_cb g = Some cb \<and> fstate g = READY \<and>
      (\<forall>u. cur_fiber (locals w u) \<noteq> None \<longrightarrow>
        (\<exists>w''. resume_enter u p w' = Inr w'' \<and> cur_fiber (locals w'' u) = Some p))"
proof -
  have inv: "fiber_inv w" and own: "fiber_owns (pool_owns P) P w"
    using pooled.fibers.inv_reachable [OF assms(1,2)] by simp_all
  show ?thesis
  proof (cases "isMainFiber f \<or> fstate f \<noteq> TERM_STATE")
    case True
    then show ?thesis using assms(3) by (auto simp: reset_def CondPanic_def)
  next
    case False
    then have m: "\<not> isMainFiber f" and st: "fstate f = TERM_STATE" by simp_all
    have "parked f" using object_idle(3) [OF fiber_invD(4) [OF inv assms(3)] m assms(4)] .
    moreover have "block_valid (stackBlock f)"
      using own assms(3) m by (auto simp: fiber_owns_def stack_ok_def block_ok_def block_valid_def)
    ultimately have "reset before p cb w = Inr (upd_fiber p (f\<lparr>fiber_cb := Some cb, fexception := None,
        fcontext := True, fstate := READY\<rparr>) w)"
      using assms m st by (simp add: reset_def parked_def CreateContext_def CondPanic_def)
    then show ?thesis using m st assms(4) by (auto simp: resume_enter_def CondPanic_def)
  qed
qed

definition example_ended :: "(PooledImpl \<times> memory) fiber_world" where
  "example_ended = (case MainFunc_end 0 2 None example_running of Inr w \<Rightarrow>
     (case resume_return 0 w of Inr (w', _) \<Rightarrow> w' | Inl _ \<Rightarrow> w) | Inl _ \<Rightarrow> example_running)"

lemma example_ended_steps: "example_fiber_step\<^sup>*\<^sup>* example_world example_ended"
  and example_ended_fields: "fibers example_ended 2 = Some (example_fiber\<lparr>fcontext := False,
     fiber_cb := None, fstate := TERM_STATE\<rparr>)" "cur_fiber (locals example_ended 0) = Some 1"
proof -
  obtain w1 where e: "MainFunc_end 0 2 None example_running = Inr w1" "resume_return 0 w1 = Inr (example_ended, None)"
    by (simp add: example_ended_def MainFunc_end_def CondPanic_def example_running_fields return_fiber_def
        resume_return_def example_fiber_def new_fiber_def)
  have "example_fiber_step example_running w1"
    using fiber_step.step_end [OF example_running_fields(3,2) e(1)] .
  moreover have "returning (locals w1 0)" using e(1) by (auto elim: MainFunc_end_Inr)
  then have "example_fiber_step w1 example_ended" using e(2) by (rule fiber_step.step_return)
  ultimately show "example_fiber_step\<^sup>*\<^sup>* example_world example_ended" using example_steps by simp
  show "fibers example_ended 2 = Some (example_fiber\<lparr>fcontext := False, fiber_cb := None, fstate := TERM_STATE\<rparr>)"
    "cur_fiber (locals example_ended 0) = Some 1"
    by (simp_all add: example_ended_def MainFunc_end_def CondPanic_def example_running_fields return_fiber_def
        resume_return_def example_fiber_def new_fiber_def)
qed

theorem reset_reuses_fiber_witness:
  "\<exists>w' w''. reset (\<lambda>b. None) 2 8 example_ended = Inr w' \<and>
     stackBlock (the (fibers w' 2)) = example_block \<and> resume_enter 0 2 w' = Inr w''"
  using reset_reuses_fiber [OF example_start example_ended_steps example_ended_fields(1), of "\<lambda>b. None" 8]
    example_ended_fields(2)
  by (fastforce simp: example_fiber_def new_fiber_def)

end
