(* ===== verification/Scheduler.thy ===== *)
theory Scheduler
  imports Fiber_Safety
begin

text \<open>
  Model of \<^verbatim>\<open>scheduler.hpp\<close> and \<^verbatim>\<open>scheduler.cpp\<close>: tasks, the per-worker queues with local
  and stealing access, the placement of new tasks, the per-worker cache of callback Fibers
  with its gauges, the worker loop \<^verbatim>\<open>run\<close> cut at the points where another thread can
  intervene, and \<^verbatim>\<open>start\<close>, \<^verbatim>\<open>stopping\<close> and \<^verbatim>\<open>stop\<close>. A critical section of a queue
  mutex is one definition. The identity of an operating system thread, \<^verbatim>\<open>GetThreadId()\<close>, is its
  number as an integer, so that \<open>-1\<close> is free to mean "any thread". Vector sizes and positions are
  natural numbers; \<^verbatim>\<open>size_t\<close> values that wrap or serve as a sentinel are words.
\<close>

section \<open>State\<close>

record SchedulerTask =
  task_fiber :: "fid option"
  task_cb :: "callback option"
  task_thread :: int

definition task_reset :: SchedulerTask where
  "task_reset = \<lparr>task_fiber = None, task_cb = None, task_thread = -1\<rparr>"

definition fiber_task :: "fid \<Rightarrow> int \<Rightarrow> SchedulerTask" where
  "fiber_task f t = \<lparr>task_fiber = Some f, task_cb = None, task_thread = t\<rparr>"

definition callback_task :: "callback \<Rightarrow> int \<Rightarrow> SchedulerTask" where
  "callback_task cb t = \<lparr>task_fiber = None, task_cb = Some cb, task_thread = t\<rparr>"

record WorkerQueue =
  unpinnedTasks :: "SchedulerTask list"
  pinnedTasks :: "SchedulerTask list"
  callbackFiberCache :: "fid list"
  worker_threadId :: int
  active :: bool

definition new_WorkerQueue :: WorkerQueue where
  "new_WorkerQueue = \<lparr>unpinnedTasks = [], pinnedTasks = [], callbackFiberCache = [],
     worker_threadId = -1, active = False\<rparr>"

text \<open>
  The scheduler object. \<open>threadPool\<close> lists the worker index each pool thread runs with.
\<close>

record Scheduler =
  workerQueues :: "WorkerQueue list"
  nextQueue :: u64
  callbackFiberCachePerWorker :: u64
  ownerId :: u64
  callbackCacheHits :: u64
  callbackCacheMisses :: u64
  callbackCacheEvictions :: u64
  callbackCachedCount :: u64
  callbackCachedBytes :: u64
  threadPool :: "nat list"
  threadCnt :: nat
  idleThreadCnt :: u64
  isUseCaller :: bool
  rootFiber :: "fid option"
  rootThread :: int
  isStopped :: bool

text \<open>The thread-local variables of \<^verbatim>\<open>scheduler.cpp\<close>; \<open>cur_scheduler\<close>: \<^verbatim>\<open>GetThis() == this\<close>.\<close>

record sched_locals =
  cur_scheduler :: bool
  cur_worker_index :: u64
  victim_seed :: "u32 option"

definition kInvalidWorker :: u64 where
  "kInvalidWorker = - 1"

definition GetThreadId :: "thread \<Rightarrow> int" where
  "GetThreadId t = int t"

definition upd_worker :: "nat \<Rightarrow> (WorkerQueue \<Rightarrow> WorkerQueue) \<Rightarrow> Scheduler \<Rightarrow> Scheduler" where
  "upd_worker i g s = s\<lparr>workerQueues := (workerQueues s)[i := g (workerQueues s ! i)]\<rparr>"

section \<open>Construction\<close>

text \<open>
  The constructor on thread \<open>t\<close>. \<open>new\<close> is the constructor of a Fiber on the scheduler's stack
  allocator, \<open>run_cb\<close> the callback \<^verbatim>\<open>std::bind(&Scheduler::run, this, 0)\<close>, \<open>pm\<close> and \<open>pr\<close> the
  addresses of the main Fiber (if the thread has none yet) and of the root Fiber.
\<close>

definition empty_scheduler :: "u64 \<Rightarrow> nat \<Rightarrow> bool \<Rightarrow> u64 \<Rightarrow> Scheduler" where
  "empty_scheduler owner threads use_caller cache = \<lparr>workerQueues = replicate threads new_WorkerQueue,
     nextQueue = 0, callbackFiberCachePerWorker = cache, ownerId = owner, callbackCacheHits = 0,
     callbackCacheMisses = 0, callbackCacheEvictions = 0, callbackCachedCount = 0,
     callbackCachedBytes = 0, threadPool = [], threadCnt = 0, idleThreadCnt = 0,
     isUseCaller = use_caller, rootFiber = None, rootThread = 0, isStopped = False\<rparr>"

definition Scheduler_new ::
  "(fid \<Rightarrow> callback \<Rightarrow> u64 \<Rightarrow> bool \<Rightarrow> 'a fiber_world \<Rightarrow> 'a fiber_world \<times> unit result) \<Rightarrow>
     u64 \<Rightarrow> thread \<Rightarrow> fid \<Rightarrow> fid \<Rightarrow> callback \<Rightarrow> nat \<Rightarrow> bool \<Rightarrow> u64 \<Rightarrow> sched_locals \<Rightarrow> 'a fiber_world \<Rightarrow>
     (Scheduler \<times> sched_locals \<times> 'a fiber_world) result" where
  "Scheduler_new new owner t pm pr run_cb threads use_caller cache l w =
     bind_res (CondPanic (threads > 0) ''threads <= 0'') (\<lambda>_.
       let s = empty_scheduler owner threads use_caller cache in
       if use_caller then
         (let w = fst (GetThis t pm w) in
          bind_res (CondPanic (\<not> cur_scheduler l) ''GetThis err:cur scheduler is not nullptr'') (\<lambda>_.
            let l = l\<lparr>cur_scheduler := True\<rparr> in
            case new pr run_cb 0 False w of
              (w, Inl e) \<Rightarrow> Inl e
            | (w, Inr _) \<Rightarrow>
                (let w = upd_locals t ((locals w t)\<lparr>cur_scheduler_fiber := Some pr\<rparr>) w;
                     s = s\<lparr>rootFiber := Some pr, rootThread := GetThreadId t, threadCnt := threads - 1\<rparr>;
                     s = upd_worker 0 (\<lambda>q. q\<lparr>worker_threadId := GetThreadId t\<rparr>) s in
                 Inr (s, l, w))))
       else Inr (s\<lparr>rootThread := -1, threadCnt := threads\<rparr>, l, w))"

definition setCurrentWorkerActive :: "sched_locals \<Rightarrow> bool \<Rightarrow> Scheduler \<Rightarrow> Scheduler result" where
  "setCurrentWorkerActive l b s =
     bind_res (CondPanic (cur_scheduler l \<and> unat (cur_worker_index l) < length (workerQueues s))
         ''current thread is not a scheduler worker'')
       (\<lambda>_. Inr (upd_worker (unat (cur_worker_index l)) (\<lambda>q. q\<lparr>active := b\<rparr>) s))"

definition Scheduler_destroy :: "sched_locals \<Rightarrow> Scheduler \<Rightarrow> sched_locals result" where
  "Scheduler_destroy l s =
     bind_res (CondPanic (isStopped s) ''isstopped is false'')
       (\<lambda>_. Inr (if cur_scheduler l then l\<lparr>cur_scheduler := False\<rparr> else l))"

definition sched_start :: "Scheduler \<Rightarrow> Scheduler result" where
  "sched_start s =
     (if isStopped s then Inr s
      else bind_res (CondPanic (threadPool s = []) ''thread pool is not empty'')
        (\<lambda>_. Inr (s\<lparr>threadPool := map (\<lambda>i. i + (if isUseCaller s then 1 else 0)) [0..<threadCnt s]\<rparr>)))"

section \<open>Queues\<close>

text \<open>The first worker from position \<open>i\<close> on that is registered with the thread.\<close>

fun find_worker_from :: "nat \<Rightarrow> int \<Rightarrow> WorkerQueue list \<Rightarrow> u64" where
  "find_worker_from i thread [] = kInvalidWorker"
| "find_worker_from i thread (q # qs) =
     (if worker_threadId q = thread then of_nat i else find_worker_from (Suc i) thread qs)"

definition findWorkerByThread :: "int \<Rightarrow> Scheduler \<Rightarrow> u64" where
  "findWorkerByThread thread s =
     (if thread = -1 then kInvalidWorker else find_worker_from 0 thread (workerQueues s))"

definition pick_worker :: "sched_locals \<Rightarrow> SchedulerTask \<Rightarrow> Scheduler \<Rightarrow> u64" where
  "pick_worker l task s =
     (if task_thread task \<noteq> -1 then findWorkerByThread (task_thread task) s
      else if cur_scheduler l \<and> unat (cur_worker_index l) < length (workerQueues s)
      then cur_worker_index l
      else kInvalidWorker)"

definition push_task :: "SchedulerTask \<Rightarrow> WorkerQueue \<Rightarrow> WorkerQueue" where
  "push_task task q =
     (if task_thread task \<noteq> -1 then q\<lparr>pinnedTasks := pinnedTasks q @ [task]\<rparr>
      else q\<lparr>unpinnedTasks := unpinnedTasks q @ [task]\<rparr>)"

definition enqueueTask :: "sched_locals \<Rightarrow> SchedulerTask \<Rightarrow> Scheduler \<Rightarrow> Scheduler \<times> bool" where
  "enqueueTask l task s =
     (if task_fiber task = None \<and> task_cb task = None then (s, False)
      else
        (let (s, i) =
           (let i = pick_worker l task s in
            if i = kInvalidWorker
            then (s\<lparr>nextQueue := nextQueue s + 1\<rparr>, nextQueue s mod of_nat (length (workerQueues s)))
            else (s, i));
             q = workerQueues s ! unat i;
             wasEmpty = (unpinnedTasks q = [] \<and> pinnedTasks q = []) in
         (upd_worker (unat i) (push_task task) s, wasEmpty)))"

text \<open>\<^verbatim>\<open>scheduler(task, thread)\<close>: the result says whether \<^verbatim>\<open>tickle()\<close> is called.\<close>

definition sched_task :: "sched_locals \<Rightarrow> SchedulerTask \<Rightarrow> Scheduler \<Rightarrow> Scheduler \<times> bool" where
  "sched_task l task s = enqueueTask l task s"

definition tryTakeLocal :: "nat \<Rightarrow> int \<Rightarrow> Scheduler \<Rightarrow> (SchedulerTask \<times> Scheduler) option" where
  "tryTakeLocal i threadId s =
     (let q = workerQueues s ! i in
      case take_first (\<lambda>x. task_thread x = -1 \<or> task_thread x = threadId) (pinnedTasks q) of
        Some (x, rest) \<Rightarrow> Some (x, upd_worker i (\<lambda>q. q\<lparr>pinnedTasks := rest\<rparr>) s)
      | None \<Rightarrow>
          (case unpinnedTasks q of
             [] \<Rightarrow> None
           | x # rest \<Rightarrow> Some (x, upd_worker i (\<lambda>q. q\<lparr>unpinnedTasks := rest\<rparr>) s)))"

text \<open>One turn of the stealing loop: the critical section of the victim's mutex.\<close>

definition steal_from :: "nat \<Rightarrow> int \<Rightarrow> Scheduler \<Rightarrow> (SchedulerTask \<times> Scheduler) option" where
  "steal_from v threadId s =
     (let q = workerQueues s ! v in
      if unpinnedTasks q \<noteq> []
      then Some (last (unpinnedTasks q), upd_worker v (\<lambda>q. q\<lparr>unpinnedTasks := butlast (unpinnedTasks q)\<rparr>) s)
      else
        (case take_first (\<lambda>x. task_thread x = threadId) (pinnedTasks q) of
           Some (x, rest) \<Rightarrow> Some (x, upd_worker v (\<lambda>q. q\<lparr>pinnedTasks := rest\<rparr>) s)
         | None \<Rightarrow> None))"

text \<open>
  The seed of the thread, initialised at its first steal, and the victims in the order of the
  loop.
\<close>

definition next_seed :: "nat \<Rightarrow> u32 option \<Rightarrow> u32" where
  "next_seed i seed =
     (let cur = (case seed of Some x \<Rightarrow> x | None \<Rightarrow> ucast (of_nat i * 2654435761 + 1 :: u64)) in
      cur * 1664525 + 1013904223)"

definition victims :: "nat \<Rightarrow> nat \<Rightarrow> u32 \<Rightarrow> nat list" where
  "victims workerCount i seed =
     (let startOffset = unat seed mod (workerCount - 1) + 1 in
      map (\<lambda>k. (i + ((startOffset + k - 1) mod (workerCount - 1) + 1)) mod workerCount)
        [0..<workerCount - 1])"

fun steal_loop :: "nat list \<Rightarrow> int \<Rightarrow> Scheduler \<Rightarrow> (SchedulerTask \<times> Scheduler) option" where
  "steal_loop [] threadId s = None"
| "steal_loop (v # vs) threadId s =
     (case steal_from v threadId s of Some r \<Rightarrow> Some r | None \<Rightarrow> steal_loop vs threadId s)"

definition trySteal ::
  "nat \<Rightarrow> int \<Rightarrow> u32 option \<Rightarrow> Scheduler \<Rightarrow> u32 option \<times> (SchedulerTask \<times> Scheduler) option" where
  "trySteal i threadId seed s =
     (let workerCount = length (workerQueues s) in
      if workerCount \<le> 1 then (seed, None)
      else (let seed = next_seed i seed in
            (Some seed, steal_loop (victims workerCount i seed) threadId s)))"

definition tryTakeTask ::
  "nat \<Rightarrow> u32 option \<Rightarrow> Scheduler \<Rightarrow> u32 option \<times> (SchedulerTask \<times> Scheduler) option" where
  "tryTakeTask i seed s =
     (let threadId = worker_threadId (workerQueues s ! i) in
      case tryTakeLocal i threadId s of
        Some r \<Rightarrow> (seed, Some r)
      | None \<Rightarrow> trySteal i threadId seed s)"

definition hasPendingTasks :: "Scheduler \<Rightarrow> bool" where
  "hasPendingTasks s \<longleftrightarrow>
     list_ex (\<lambda>q. unpinnedTasks q \<noteq> [] \<or> pinnedTasks q \<noteq> []) (workerQueues s)"

section \<open>The cache of callback Fibers\<close>

text \<open>
  \<^verbatim>\<open>acquireCallbackFiber\<close>. \<open>new\<close> constructs a Fiber at address \<open>p\<close>, \<open>destroy\<close> is its
  destructor, run when \<^verbatim>\<open>reset\<close> throws and the last reference goes out of scope.
\<close>

definition acquireCallbackFiber ::
  "(fid \<Rightarrow> callback \<Rightarrow> u64 \<Rightarrow> bool \<Rightarrow> 'a fiber_world \<Rightarrow> 'a fiber_world \<times> unit result) \<Rightarrow>
   (FiberStackBlock \<Rightarrow> failure option) \<Rightarrow> (fid \<Rightarrow> 'a fiber_world \<Rightarrow> 'a fiber_world result) \<Rightarrow>
     nat \<Rightarrow> fid \<Rightarrow> callback \<Rightarrow> Scheduler \<Rightarrow> 'a fiber_world \<Rightarrow> Scheduler \<times> 'a fiber_world \<times> fid result" where
  "acquireCallbackFiber new before destroy i p cb s w =
     (let cache = callbackFiberCache (workerQueues s ! i) in
      if cache \<noteq> [] then
        (let c = last cache;
             s = upd_worker i (\<lambda>q. q\<lparr>callbackFiberCache := butlast (callbackFiberCache q)\<rparr>) s in
         case fibers w c of
           None \<Rightarrow> (s, w, Inl (Undefined ''cached fiber was destroyed''))
         | Some f \<Rightarrow>
             (let s = s\<lparr>callbackCacheHits := callbackCacheHits s + 1,
                        callbackCachedCount := callbackCachedCount s - 1,
                        callbackCachedBytes := callbackCachedBytes s - allocationSize (stackBlock f)\<rparr> in
              case reset before c cb w of
                Inr w' \<Rightarrow> (s, w', Inr c)
              | Inl e \<Rightarrow> (case destroy c w of Inr w' \<Rightarrow> (s, w', Inl e) | Inl e' \<Rightarrow> (s, w, Inl e'))))
      else
        (let s = s\<lparr>callbackCacheMisses := callbackCacheMisses s + 1\<rparr> in
         case new p cb 0 True w of
           (w', Inl e) \<Rightarrow> (s, w', Inl e)
         | (w', Inr _) \<Rightarrow>
             (case fibers w' p of
                None \<Rightarrow> (s, w', Inl (Undefined ''constructed fiber was destroyed''))
              | Some f \<Rightarrow> (s, upd_fiber p (MarkSchedulerCallback (ownerId s) (of_nat i) f) w', Inr p))))"

text \<open>
  \<^verbatim>\<open>tryCacheCallbackFiber\<close>. \<open>uses\<close> is the reference count, \<open>push\<close> says whether \<^verbatim>\<open>push_back\<close>
  got its memory. The result says whether the reference was moved into the cache.
\<close>

definition tryCacheCallbackFiber ::
  "nat \<Rightarrow> bool \<Rightarrow> nat \<Rightarrow> fid option \<Rightarrow> 'a fiber_world \<Rightarrow> Scheduler \<Rightarrow> Scheduler \<times> bool" where
  "tryCacheCallbackFiber uses push i fiber w s =
     (case fiber of
        None \<Rightarrow> (s, False)
      | Some p \<Rightarrow>
          (case fibers w p of
             None \<Rightarrow> (s, False)
           | Some f \<Rightarrow>
               if uses \<noteq> 1 \<or> \<not> IsReusableSchedulerCallback (ownerId s) (of_nat i) f then (s, False)
               else if callbackFiberCachePerWorker s \<le> of_nat (length (callbackFiberCache (workerQueues s ! i)))
               then (s\<lparr>callbackCacheEvictions := callbackCacheEvictions s + 1\<rparr>, False)
               else if push then
                 (let s = upd_worker i (\<lambda>q. q\<lparr>callbackFiberCache := callbackFiberCache q @ [p]\<rparr>) s in
                  (s\<lparr>callbackCachedCount := callbackCachedCount s + 1,
                     callbackCachedBytes := callbackCachedBytes s + allocationSize (stackBlock f)\<rparr>, True))
               else (s\<lparr>callbackCacheEvictions := callbackCacheEvictions s + 1\<rparr>, False)))"

text \<open>
  \<^verbatim>\<open>clearCallbackFiberCaches\<close>: for every worker the gauges go down by each cached Fiber, then
  \<^verbatim>\<open>clear\<close> drops the references.
\<close>

definition gauge_off :: "'a fiber_world \<Rightarrow> fid \<Rightarrow> Scheduler \<Rightarrow> Scheduler" where
  "gauge_off w p s = s\<lparr>callbackCachedCount := callbackCachedCount s - 1,
     callbackCachedBytes := callbackCachedBytes s -
       (case fibers w p of None \<Rightarrow> 0 | Some f \<Rightarrow> allocationSize (stackBlock f))\<rparr>"

fun drop_all ::
  "(fid \<Rightarrow> 'a fiber_world \<Rightarrow> 'a fiber_world result) \<Rightarrow> fid list \<Rightarrow> 'a fiber_world \<Rightarrow>
     'a fiber_world result" where
  "drop_all destroy [] w = Inr w"
| "drop_all destroy (p # ps) w = bind_res (destroy p w) (drop_all destroy ps)"

definition clear_worker ::
  "(fid \<Rightarrow> 'a fiber_world \<Rightarrow> 'a fiber_world result) \<Rightarrow> nat \<Rightarrow> Scheduler \<times> 'a fiber_world \<Rightarrow>
     (Scheduler \<times> 'a fiber_world) result" where
  "clear_worker destroy i = (\<lambda>(s, w).
     let cache = callbackFiberCache (workerQueues s ! i);
         s = fold (gauge_off w) cache s in
     bind_res (drop_all destroy cache w)
       (\<lambda>w. Inr (upd_worker i (\<lambda>q. q\<lparr>callbackFiberCache := []\<rparr>) s, w)))"

fun clear_workers ::
  "(fid \<Rightarrow> 'a fiber_world \<Rightarrow> 'a fiber_world result) \<Rightarrow> nat list \<Rightarrow> Scheduler \<times> 'a fiber_world \<Rightarrow>
     (Scheduler \<times> 'a fiber_world) result" where
  "clear_workers destroy [] sw = Inr sw"
| "clear_workers destroy (i # is) sw =
     bind_res (clear_worker destroy i sw) (clear_workers destroy is)"

definition clearCallbackFiberCaches ::
  "(fid \<Rightarrow> 'a fiber_world \<Rightarrow> 'a fiber_world result) \<Rightarrow> Scheduler \<times> 'a fiber_world \<Rightarrow>
     (Scheduler \<times> 'a fiber_world) result" where
  "clearCallbackFiberCaches destroy sw =
     clear_workers destroy [0..<length (workerQueues (fst sw))] sw"

section \<open>The worker loop\<close>

text \<open>
  Where a worker is in \<^verbatim>\<open>run\<close>. \<open>Run_take\<close>: the flag \<open>active\<close> is stored and the own queue is
  next; \<open>Run_steal\<close>: the remaining victims; \<open>Run_fiber\<close>, \<open>Run_callback\<close>: a task is in hand;
  \<open>Run_resumed\<close>: inside \<^verbatim>\<open>resume\<close> of a task's Fiber; \<open>Run_idle\<close>: no task was found;
  \<open>Run_idling\<close>: inside \<^verbatim>\<open>resume\<close> of the idle Fiber.
\<close>

datatype worker_pc =
    Run_fetch
  | Run_take
  | Run_steal "nat list"
  | Run_fiber fid
  | Run_callback callback
  | Run_resumed fid
  | Run_idle
  | Run_idling
  | Run_exit

text \<open>
  The head of \<^verbatim>\<open>run\<close> on thread \<open>t\<close>: registration, and the idle Fiber at address \<open>pi\<close>; \<open>pm\<close>
  is the address of the main Fiber if the thread has none.
\<close>

definition run_begin ::
  "(fid \<Rightarrow> callback \<Rightarrow> u64 \<Rightarrow> bool \<Rightarrow> 'a fiber_world \<Rightarrow> 'a fiber_world \<times> unit result) \<Rightarrow>
     thread \<Rightarrow> fid \<Rightarrow> fid \<Rightarrow> callback \<Rightarrow> nat \<Rightarrow> Scheduler \<Rightarrow> sched_locals \<Rightarrow> 'a fiber_world \<Rightarrow>
     (Scheduler \<times> sched_locals \<times> 'a fiber_world) result" where
  "run_begin new t pm pi idle_cb i s l w =
     bind_res (CondPanic (i < length (workerQueues s)) ''worker index out of range'') (\<lambda>_.
       let l = l\<lparr>cur_scheduler := True, cur_worker_index := of_nat i\<rparr>;
           s = upd_worker i (\<lambda>q. q\<lparr>worker_threadId := GetThreadId t\<rparr>) s;
           w = (if GetThreadId t \<noteq> rootThread s then
                  (let (w, m) = GetThis t pm w in
                   upd_locals t ((locals w t)\<lparr>cur_scheduler_fiber := Some m\<rparr>) w)
                else w) in
       case new pi idle_cb 0 True w of
         (w, Inl e) \<Rightarrow> Inl e
       | (w, Inr _) \<Rightarrow> Inr (s, l, w))"

definition run_dispatch :: "SchedulerTask \<Rightarrow> worker_pc" where
  "run_dispatch task =
     (case task_fiber task of
        Some f \<Rightarrow> Run_fiber f
      | None \<Rightarrow> (case task_cb task of Some cb \<Rightarrow> Run_callback cb | None \<Rightarrow> Run_idle))"

text \<open>The check before a Fiber task is resumed.\<close>

definition run_fiber_check :: "fid \<Rightarrow> 'a fiber_world \<Rightarrow> unit result" where
  "run_fiber_check p w =
     (case fibers w p of
        None \<Rightarrow> Inl (Undefined ''fiber task was destroyed'')
      | Some f \<Rightarrow> CondPanic (fstate f = READY) ''fiber task state error'')"

text \<open>
  The branch without a task: the idle Fiber has ended and the loop is left, or it is resumed;
  the last component says whether \<^verbatim>\<open>tickle()\<close> is called before.
\<close>

definition run_idle :: "nat \<Rightarrow> State \<Rightarrow> Scheduler \<Rightarrow> Scheduler \<times> worker_pc \<times> bool" where
  "run_idle i idle_state s =
     (let s = upd_worker i (\<lambda>q. q\<lparr>active := False\<rparr>) s in
      if idle_state = TERM_STATE
      then (upd_worker i (\<lambda>q. q\<lparr>active := False\<rparr>) s, Run_exit, False)
      else (s\<lparr>idleThreadCnt := idleThreadCnt s + 1\<rparr>, Run_idling, hasPendingTasks s))"

definition run_idle_return :: "Scheduler \<Rightarrow> Scheduler" where
  "run_idle_return s = s\<lparr>idleThreadCnt := idleThreadCnt s - 1\<rparr>"

definition run_leave :: "sched_locals \<Rightarrow> sched_locals" where
  "run_leave l = l\<lparr>cur_worker_index := kInvalidWorker\<rparr>"

definition stopping :: "Scheduler \<Rightarrow> bool" where
  "stopping s \<longleftrightarrow>
     (if \<not> isStopped s then False
      else if hasPendingTasks s then False
      else \<not> list_ex active (workerQueues s))"

text \<open>The idle Fiber of the base class: it yields or, once \<^verbatim>\<open>stopping()\<close>, ends.\<close>

datatype idle_action = Idle_yield | Idle_end

definition idle :: "Scheduler \<Rightarrow> idle_action" where
  "idle s = (if \<not> stopping s then Idle_yield else Idle_end)"

text \<open>
  \<^verbatim>\<open>stop\<close> up to the resume of the root Fiber: \<open>None\<close> is the early return; otherwise the
  number of \<^verbatim>\<open>tickle()\<close> calls and the root Fiber to resume. After it the threads of the pool
  are joined and the caches cleared.
\<close>

definition stop_begin :: "sched_locals \<Rightarrow> Scheduler \<Rightarrow> (Scheduler \<times> (nat \<times> fid option) option) result" where
  "stop_begin l s =
     (if stopping s then Inr (s, None)
      else
        (let s = s\<lparr>isStopped := True\<rparr> in
         bind_res (if isUseCaller s
                   then CondPanic (cur_scheduler l) ''cur thread is not caller thread''
                   else CondPanic (\<not> cur_scheduler l) ''cur thread is caller thread'')
           (\<lambda>_. Inr (s, Some (threadCnt s + (case rootFiber s of Some _ \<Rightarrow> 1 | None \<Rightarrow> 0), rootFiber s)))))"

definition stop_end ::
  "(fid \<Rightarrow> 'a fiber_world \<Rightarrow> 'a fiber_world result) \<Rightarrow> Scheduler \<times> 'a fiber_world \<Rightarrow>
     (Scheduler \<times> 'a fiber_world) result" where
  "stop_end destroy = (\<lambda>(s, w). clearCallbackFiberCaches destroy (s\<lparr>threadPool := []\<rparr>, w))"

end
