(* ===== verification/Scheduler_Queues.thy ===== *)
theory Scheduler_Queues
  imports Scheduler
begin

text \<open>
  The task queues of the scheduler: where a task is placed, what a worker takes from its own
  queue and from its victims, and that nothing runnable is overlooked.
\<close>


section \<open>Queues\<close>

definition queue_tasks :: "WorkerQueue \<Rightarrow> SchedulerTask multiset" where
  "queue_tasks q = mset (unpinnedTasks q) + mset (pinnedTasks q)"

definition queued :: "Scheduler \<Rightarrow> SchedulerTask multiset" where
  "queued s = sum_list (map queue_tasks (workerQueues s))"

definition real_task :: "SchedulerTask \<Rightarrow> bool" where
  "real_task x \<longleftrightarrow> task_fiber x \<noteq> None \<or> task_cb x \<noteq> None"

definition queue_ok :: "WorkerQueue \<Rightarrow> bool" where
  "queue_ok q \<longleftrightarrow> (\<forall>x \<in> set (unpinnedTasks q). task_thread x = -1 \<and> real_task x) \<and>
     (\<forall>x \<in> set (pinnedTasks q). task_thread x \<noteq> -1 \<and> real_task x)"

text \<open>A vector of queue pointers is not empty and its size fits \<^verbatim>\<open>size_t\<close>.\<close>

definition sizes_ok :: "Scheduler \<Rightarrow> bool" where
  "sizes_ok s \<longleftrightarrow> 0 < length (workerQueues s) \<and> length (workerQueues s) < 2 ^ 64"

lemma upd_worker_fields [simp]:
  "length (workerQueues (upd_worker i g s)) = length (workerQueues s)"
  "workerQueues (upd_worker i g s) = (workerQueues s)[i := g (workerQueues s ! i)]"
  "nextQueue (upd_worker i g s) = nextQueue s"
  "callbackFiberCachePerWorker (upd_worker i g s) = callbackFiberCachePerWorker s"
  "ownerId (upd_worker i g s) = ownerId s"
  "callbackCachedCount (upd_worker i g s) = callbackCachedCount s"
  "callbackCachedBytes (upd_worker i g s) = callbackCachedBytes s"
  "idleThreadCnt (upd_worker i g s) = idleThreadCnt s"
  "isStopped (upd_worker i g s) = isStopped s"
  by (simp_all add: upd_worker_def)

lemma sum_list_update_comm:
  fixes f :: "'a \<Rightarrow> 'b::cancel_comm_monoid_add"
  assumes "i < length xs"
  shows "sum_list (map f (xs[i := y])) + f (xs ! i) = sum_list (map f xs) + f y"
  using assms
proof (induction xs arbitrary: i)
  case (Cons x xs)
  then show ?case by (cases i) (auto simp: ac_simps)
qed simp

lemma queued_upd:
  assumes "i < length (workerQueues s)"
  shows "queued (upd_worker i g s) + queue_tasks (workerQueues s ! i) =
    queued s + queue_tasks (g (workerQueues s ! i))"
  using sum_list_update_comm [OF assms, of queue_tasks "g (workerQueues s ! i)"] by (simp add: queued_def)

lemma queued_same:
  assumes "i < length (workerQueues s)" and "\<And>q. queue_tasks (g q) = queue_tasks q"
  shows "queued (upd_worker i g s) = queued s"
  using queued_upd [OF assms(1), of g] assms(2) by simp

lemma queued_elem: "x \<in># queued s \<longleftrightarrow> (\<exists>q \<in> set (workerQueues s). x \<in># queue_tasks q)"
proof -
  have "x \<in># sum_list (map queue_tasks qs) \<longleftrightarrow> (\<exists>q \<in> set qs. x \<in># queue_tasks q)" for qs
    by (induction qs) auto
  then show ?thesis by (simp add: queued_def)
qed

lemma queued_empty_iff: "queued s = {#} \<longleftrightarrow> \<not> hasPendingTasks s"
proof -
  have "sum_list (map queue_tasks qs) = {#} \<longleftrightarrow>
      \<not> list_ex (\<lambda>q. unpinnedTasks q \<noteq> [] \<or> pinnedTasks q \<noteq> []) qs" for qs
    by (induction qs) (auto simp: queue_tasks_def)
  then show ?thesis by (simp add: queued_def hasPendingTasks_def)
qed

subsection \<open>Placing a task\<close>

lemma find_worker_from_cases:
  obtains "find_worker_from i thread qs = kInvalidWorker" and "\<forall>q \<in> set qs. worker_threadId q \<noteq> thread"
  | k where "k < length qs" and "find_worker_from i thread qs = of_nat (i + k)"
    and "worker_threadId (qs ! k) = thread" and "\<forall>j < k. worker_threadId (qs ! j) \<noteq> thread"
proof (induction qs arbitrary: i thesis)
  case Nil
  then show ?case by simp
next
  case (Cons q qs)
  show ?case
  proof (cases "worker_threadId q = thread")
    case True
    then show ?thesis using Cons.prems(2) [of 0] by simp
  next
    case False
    show ?thesis
    proof (rule Cons.IH [of "Suc i"])
      assume "find_worker_from (Suc i) thread qs = kInvalidWorker" "\<forall>q \<in> set qs. worker_threadId q \<noteq> thread"
      with False show ?thesis using Cons.prems(1) by simp
    next
      fix k assume "k < length qs" "find_worker_from (Suc i) thread qs = of_nat (Suc i + k)"
        "worker_threadId (qs ! k) = thread" "\<forall>j < k. worker_threadId (qs ! j) \<noteq> thread"
      with False show ?thesis
        by (intro Cons.prems(2) [of "Suc k"]) (auto simp: nth_Cons split: nat.splits)
    qed
  qed
qed

lemma of_nat_small: "k < 2 ^ 64 \<Longrightarrow> unat (of_nat k :: u64) = k"
  by (simp add: unat_of_nat)

lemma of_nat_valid:
  assumes "k < n" and "n < 2 ^ 64"
  shows "(of_nat k :: u64) \<noteq> kInvalidWorker"
proof
  assume "(of_nat k :: u64) = kInvalidWorker"
  then have "unat (of_nat k :: u64) = unat (- 1 :: u64)" by (simp add: kInvalidWorker_def)
  moreover have "unat (- 1 :: u64) = 2 ^ 64 - 1"
    by (simp add: unsigned_minus_1_eq_mask mask_eq_exp_minus_1)
  ultimately show False using assms by (simp add: of_nat_small)
qed

text \<open>The queue a task goes to.\<close>

definition target :: "sched_locals \<Rightarrow> SchedulerTask \<Rightarrow> Scheduler \<Rightarrow> nat" where
  "target l task s = (let i = pick_worker l task s in
     unat (if i = kInvalidWorker then nextQueue s mod of_nat (length (workerQueues s)) else i))"

lemma enqueueTask_alt:
  assumes "real_task task"
  shows "enqueueTask l task s =
    (let i = target l task s;
         s' = (if pick_worker l task s = kInvalidWorker then s\<lparr>nextQueue := nextQueue s + 1\<rparr> else s) in
     (upd_worker i (push_task task) s',
      unpinnedTasks (workerQueues s ! i) = [] \<and> pinnedTasks (workerQueues s ! i) = []))"
  using assms by (auto simp: enqueueTask_def target_def Let_def real_task_def)

lemma pick_worker_range:
  assumes "sizes_ok s" and "pick_worker l task s \<noteq> kInvalidWorker"
  shows "unat (pick_worker l task s) < length (workerQueues s)"
proof (cases "task_thread task = -1")
  case True
  with assms show ?thesis by (auto simp: pick_worker_def split: if_splits)
next
  case False
  then have p: "pick_worker l task s = find_worker_from 0 (task_thread task) (workerQueues s)"
    by (simp add: pick_worker_def findWorkerByThread_def)
  with assms(2) obtain k where "k < length (workerQueues s)" "pick_worker l task s = of_nat k"
    by (metis add_0 find_worker_from_cases)
  with assms(1) show ?thesis by (simp add: of_nat_small sizes_ok_def)
qed

lemma target_range: "sizes_ok s \<Longrightarrow> target l task s < length (workerQueues s)"
  using pick_worker_range [of s l task]
  by (auto simp: target_def Let_def unat_mod sizes_ok_def of_nat_small)

lemma enqueueTask_queued:
  assumes "sizes_ok s" and "real_task task"
  shows "queued (fst (enqueueTask l task s)) = add_mset task (queued s)"
    and "length (workerQueues (fst (enqueueTask l task s))) = length (workerQueues s)"
proof -
  let ?i = "target l task s" and ?f = "\<lambda>s. if pick_worker l task s = kInvalidWorker
    then s\<lparr>nextQueue := nextQueue s + 1\<rparr> else s"
  have i: "?i < length (workerQueues (?f s))" using target_range [OF assms(1)] by simp
  have "queue_tasks (push_task task q) = add_mset task (queue_tasks q)" for q
    by (simp add: queue_tasks_def push_task_def)
  then have "queued (upd_worker ?i (push_task task) (?f s)) = add_mset task (queued (?f s))"
    using queued_upd [OF i, of "push_task task"] by simp
  then show "queued (fst (enqueueTask l task s)) = add_mset task (queued s)"
    by (simp add: enqueueTask_alt [OF assms(2)] Let_def queued_def)
  show "length (workerQueues (fst (enqueueTask l task s))) = length (workerQueues s)"
    by (simp add: enqueueTask_alt [OF assms(2)] Let_def)
qed

subsection \<open>Taking a task\<close>

text \<open>\<open>takes x q q'\<close>: \<open>q'\<close> is \<open>q\<close> without one occurrence of \<open>x\<close>, and nothing else changed.\<close>

definition takes :: "SchedulerTask \<Rightarrow> WorkerQueue \<Rightarrow> WorkerQueue \<Rightarrow> bool" where
  "takes x q q' \<longleftrightarrow> queue_tasks q = add_mset x (queue_tasks q') \<and>
     set (unpinnedTasks q') \<subseteq> set (unpinnedTasks q) \<and> set (pinnedTasks q') \<subseteq> set (pinnedTasks q) \<and>
     q' = q\<lparr>unpinnedTasks := unpinnedTasks q', pinnedTasks := pinnedTasks q'\<rparr>"

lemma takes_fields:
  assumes "takes x q q'"
  shows "callbackFiberCache q' = callbackFiberCache q" "active q' = active q"
    "worker_threadId q' = worker_threadId q" "queue_ok q \<Longrightarrow> queue_ok q'" "x \<in># queue_tasks q"
proof -
  from assms have q': "q' = q\<lparr>unpinnedTasks := unpinnedTasks q', pinnedTasks := pinnedTasks q'\<rparr>"
    by (simp add: takes_def)
  show "callbackFiberCache q' = callbackFiberCache q" "active q' = active q"
    "worker_threadId q' = worker_threadId q" by (subst q', simp)+
  show "queue_ok q \<Longrightarrow> queue_ok q'" "x \<in># queue_tasks q"
    using assms by (auto simp: takes_def queue_ok_def)
qed

lemma takes_pinned:
  assumes "take_first P (pinnedTasks q) = Some (x, rest)"
  shows "takes x q (q\<lparr>pinnedTasks := rest\<rparr>)"
  using take_first_mset [OF assms] mset_eq_setD [OF take_first_mset [OF assms, folded mset.simps(2)]]
  by (auto simp: takes_def queue_tasks_def)

lemma takes_unpinned:
  assumes "mset (unpinnedTasks q) = add_mset x (mset rest)"
  shows "takes x q (q\<lparr>unpinnedTasks := rest\<rparr>)"
  using assms mset_eq_setD [OF assms [folded mset.simps(2)]] by (auto simp: takes_def queue_tasks_def)

lemma tryTakeLocal_Some:
  assumes "tryTakeLocal i tid s = Some (x, s')"
  obtains q' where "takes x (workerQueues s ! i) q'" and "s' = s\<lparr>workerQueues := (workerQueues s)[i := q']\<rparr>"
    and "x \<in> set (unpinnedTasks (workerQueues s ! i)) \<or> task_thread x = -1 \<or> task_thread x = tid"
proof (cases "take_first (\<lambda>x. task_thread x = -1 \<or> task_thread x = tid) (pinnedTasks (workerQueues s ! i))")
  case None
  with assms obtain rest where u: "unpinnedTasks (workerQueues s ! i) = x # rest"
    and s': "s' = upd_worker i (\<lambda>q. q\<lparr>unpinnedTasks := rest\<rparr>) s"
    by (auto simp: tryTakeLocal_def Let_def split: list.splits)
  have "takes x (workerQueues s ! i) ((workerQueues s ! i)\<lparr>unpinnedTasks := rest\<rparr>)"
    by (rule takes_unpinned) (simp add: u)
  then show ?thesis by (rule that) (simp_all add: s' u upd_worker_def)
next
  case (Some r)
  then obtain rest where t: "take_first (\<lambda>x. task_thread x = -1 \<or> task_thread x = tid)
      (pinnedTasks (workerQueues s ! i)) = Some (x, rest)"
    and s': "s' = upd_worker i (\<lambda>q. q\<lparr>pinnedTasks := rest\<rparr>) s"
    using assms by (cases r) (simp add: tryTakeLocal_def Let_def)
  from takes_pinned [OF t] show ?thesis
    by (rule that) (use take_first_P [OF t] in \<open>simp_all add: s' upd_worker_def\<close>)
qed

lemma tryTakeLocal_None:
  assumes "tryTakeLocal i tid s = None"
  shows "unpinnedTasks (workerQueues s ! i) = []"
    and "\<forall>x \<in> set (pinnedTasks (workerQueues s ! i)). task_thread x \<noteq> -1 \<and> task_thread x \<noteq> tid"
  using assms by (auto simp: tryTakeLocal_def Let_def take_first_None_iff split: option.splits list.splits)

lemma steal_from_Some:
  assumes "steal_from v tid s = Some (x, s')"
  obtains q' where "takes x (workerQueues s ! v) q'" and "s' = s\<lparr>workerQueues := (workerQueues s)[v := q']\<rparr>"
    and "x \<in> set (unpinnedTasks (workerQueues s ! v)) \<or> task_thread x = tid"
proof (cases "unpinnedTasks (workerQueues s ! v) = []")
  case True
  with assms that takes_pinned [of _ "workerQueues s ! v"] take_first_P [of _ "pinnedTasks (workerQueues s ! v)"]
  show ?thesis by (fastforce simp: steal_from_def Let_def upd_worker_def split: option.splits)
next
  case False
  then have "mset (unpinnedTasks (workerQueues s ! v)) =
      add_mset (last (unpinnedTasks (workerQueues s ! v))) (mset (butlast (unpinnedTasks (workerQueues s ! v))))"
    by (metis append_butlast_last_id mset_append mset_single_iff add_mset_add_single mset.simps)
  from takes_unpinned [OF this] False assms that show ?thesis
    by (auto simp: steal_from_def Let_def upd_worker_def)
qed

lemma steal_from_None:
  assumes "steal_from v tid s = None"
  shows "unpinnedTasks (workerQueues s ! v) = []"
    and "\<forall>x \<in> set (pinnedTasks (workerQueues s ! v)). task_thread x \<noteq> tid"
  using assms by (auto simp: steal_from_def Let_def take_first_None_iff split: option.splits if_splits)

lemma queued_takes:
  assumes "i < length (workerQueues s)" and "takes x (workerQueues s ! i) q'"
    and "s' = s\<lparr>workerQueues := (workerQueues s)[i := q']\<rparr>"
  shows "queued s = add_mset x (queued s')"
  using queued_upd [OF assms(1), of "\<lambda>q. q'"] assms(2) by (simp add: takes_def assms(3) queued_def)

subsection \<open>The order of the victims\<close>

lemma mod_add_cancel_nat:
  fixes m :: nat
  assumes "x < m" and "y < m" and "(c + x) mod m = (c + y) mod m"
  shows "x = y"
proof -
  have le: "x = y" if "x \<le> y" "y < m" "(c + x) mod m = (c + y) mod m" for x y
  proof -
    have "m dvd (c + y) - (c + x)" using that mod_eq_dvd_iff_nat [of "c + x" "c + y" m] by simp
    then have "m dvd y - x" by simp
    with that show ?thesis by (auto dest: dvd_imp_le)
  qed
  show ?thesis using assms le [of x y] le [of y x] by (cases "x \<le> y") auto
qed

lemma shifted_mod_image:
  fixes m :: nat
  assumes "0 < m"
  shows "inj_on (\<lambda>k. (c + k) mod m) {0..<m}" and "(\<lambda>k. (c + k) mod m) ` {0..<m} = {0..<m}"
proof -
  show inj: "inj_on (\<lambda>k. (c + k) mod m) {0..<m}"
    by (rule inj_onI) (auto intro: mod_add_cancel_nat)
  show "(\<lambda>k. (c + k) mod m) ` {0..<m} = {0..<m}"
    by (rule endo_inj_surj [OF _ _ inj]) (use assms in auto)
qed

lemma victims_props:
  assumes "1 < n" and "i < n"
  shows "distinct (victims n i seed)" and "set (victims n i seed) = {0..<n} - {i}"
proof -
  let ?c = "unat seed mod (n - 1)"
  let ?o = "\<lambda>k. (?c + k) mod (n - 1) + 1" and ?v = "\<lambda>k. (i + k) mod n"
  have v: "victims n i seed = map (\<lambda>k. ?v (?o k)) [0..<n - 1]" by (simp add: victims_def)
  have m: "0 < n - 1" using assms by simp
  have inj_o: "inj_on ?o {0..<n - 1}"
  proof (rule inj_onI)
    fix x y assume "x \<in> {0..<n - 1}" "y \<in> {0..<n - 1}" "?o x = ?o y"
    then show "x = y" using mod_add_cancel_nat [of x "n - 1" y ?c] by simp
  qed
  have "?o ` {0..<n - 1} = Suc ` ((\<lambda>k. (?c + k) mod (n - 1)) ` {0..<n - 1})" by (simp add: image_image)
  also have "\<dots> = Suc ` {0..<n - 1}" by (simp only: shifted_mod_image(2) [OF m])
  also have "\<dots> = {1..<n}" using assms by (simp add: image_Suc_atLeastLessThan)
  finally have im_o: "?o ` {0..<n - 1} = {1..<n}" .
  have inj_v: "inj_on ?v {0..<n}" using shifted_mod_image(1) assms by simp
  then have "inj_on ?v (?o ` {0..<n - 1})" unfolding im_o by (rule inj_on_subset) auto
  with inj_o have "inj_on (\<lambda>k. ?v (?o k)) {0..<n - 1}" by (rule comp_inj_on [unfolded comp_def])
  then show "distinct (victims n i seed)" by (simp add: v distinct_map)
  have "set (victims n i seed) = ?v ` (?o ` {0..<n - 1})" by (simp add: v image_image)
  also have "\<dots> = ?v ` ({0..<n} - {0})" unfolding im_o by (rule arg_cong [of _ _ "image ?v"]) auto
  also have "\<dots> = ?v ` {0..<n} - ?v ` {0}"
    using inj_v assms by (intro inj_on_image_set_diff [of _ "{0..<n}"]) auto
  also have "\<dots> = {0..<n} - {i}" using assms by (simp add: shifted_mod_image(2))
  finally show "set (victims n i seed) = {0..<n} - {i}" .
qed

lemma steal_loop_Some:
  assumes "steal_loop vs tid s = Some (x, s')"
  obtains v where "v \<in> set vs" and "steal_from v tid s = Some (x, s')"
  using assms by (induction vs) (auto split: option.splits)

lemma steal_loop_None:
  assumes "steal_loop vs tid s = None" and "v \<in> set vs"
  shows "steal_from v tid s = None"
  using assms by (induction vs) (auto split: option.splits)

text \<open>What a worker registered with thread \<open>tid\<close> may run.\<close>

definition runnable :: "int \<Rightarrow> SchedulerTask \<Rightarrow> bool" where
  "runnable tid x \<longleftrightarrow> task_thread x = -1 \<or> task_thread x = tid"

lemma queue_ok_unpinned: "queue_ok q \<Longrightarrow> x \<in> set (unpinnedTasks q) \<Longrightarrow> task_thread x = -1"
  by (simp add: queue_ok_def)

lemma tryTakeTask_Some:
  assumes i: "i < length (workerQueues s)" and ok: "\<forall>q \<in> set (workerQueues s). queue_ok q"
    and t: "tryTakeTask i seed s = (seed', Some (x, s'))"
  shows "queued s = add_mset x (queued s') \<and> runnable (worker_threadId (workerQueues s ! i)) x"
proof -
  let ?tid = "worker_threadId (workerQueues s ! i)"
  have "\<exists>v < length (workerQueues s). \<exists>q'. takes x (workerQueues s ! v) q' \<and>
      s' = s\<lparr>workerQueues := (workerQueues s)[v := q']\<rparr> \<and>
      (x \<in> set (unpinnedTasks (workerQueues s ! v)) \<or> task_thread x = -1 \<or> task_thread x = ?tid)"
  proof (cases "tryTakeLocal i ?tid s")
    case None
    with t have n: "1 < length (workerQueues s)"
      and "steal_loop (victims (length (workerQueues s)) i (next_seed i seed)) ?tid s = Some (x, s')"
      by (auto simp: tryTakeTask_def trySteal_def Let_def split: if_splits)
    then obtain v where "v \<in> set (victims (length (workerQueues s)) i (next_seed i seed))"
      and "steal_from v ?tid s = Some (x, s')" by (blast elim: steal_loop_Some)
    then show ?thesis using victims_props(2) [OF n i] by (auto elim!: steal_from_Some)
  next
    case (Some r)
    with t have "tryTakeLocal i ?tid s = Some (x, s')" by (simp add: tryTakeTask_def Let_def)
    then show ?thesis using i by (auto elim!: tryTakeLocal_Some)
  qed
  then obtain v q' where "v < length (workerQueues s)" "takes x (workerQueues s ! v) q'"
      "s' = s\<lparr>workerQueues := (workerQueues s)[v := q']\<rparr>"
      "x \<in> set (unpinnedTasks (workerQueues s ! v)) \<or> task_thread x = -1 \<or> task_thread x = ?tid" by blast
  with ok show ?thesis using queued_takes queue_ok_unpinned by (metis nth_mem runnable_def)
qed

lemma tryTakeTask_None:
  assumes i: "i < length (workerQueues s)" and ok: "\<forall>q \<in> set (workerQueues s). queue_ok q"
    and t: "tryTakeTask i seed s = (seed', None)"
  shows "\<forall>x \<in># queued s. \<not> runnable (worker_threadId (workerQueues s ! i)) x"
proof -
  let ?tid = "worker_threadId (workerQueues s ! i)" and ?n = "length (workerQueues s)"
  from t have loc: "tryTakeLocal i ?tid s = None" and st: "snd (trySteal i ?tid seed s) = None"
    by (auto simp: tryTakeTask_def Let_def split: option.splits)
  have none: "unpinnedTasks (workerQueues s ! v) = [] \<and>
      (\<forall>x \<in> set (pinnedTasks (workerQueues s ! v)). task_thread x \<noteq> ?tid)" if "v < ?n" for v
  proof (cases "v = i")
    case True
    then show ?thesis using tryTakeLocal_None [OF loc] by simp
  next
    case False
    with that i have n: "1 < ?n" by linarith
    with st have "steal_loop (victims ?n i (next_seed i seed)) ?tid s = None"
      by (simp add: trySteal_def Let_def)
    moreover have "v \<in> set (victims ?n i (next_seed i seed))"
      using False that by (simp add: victims_props(2) [OF n i])
    ultimately have "steal_from v ?tid s = None" by (rule steal_loop_None)
    then show ?thesis using steal_from_None by blast
  qed
  show ?thesis
  proof
    fix x assume "x \<in># queued s"
    then obtain v where v: "v < ?n" "x \<in># queue_tasks (workerQueues s ! v)"
      by (auto simp: queued_elem in_set_conv_nth)
    with none [OF v(1)] have p: "x \<in> set (pinnedTasks (workerQueues s ! v))" "task_thread x \<noteq> ?tid"
      by (auto simp: queue_tasks_def)
    moreover have "task_thread x \<noteq> -1" using ok v(1) p(1) by (auto simp: queue_ok_def)
    ultimately show "\<not> runnable ?tid x" by (simp add: runnable_def)
  qed
qed

end
