(* ===== verification/Scheduler_Cache.thy ===== *)
theory Scheduler_Cache
  imports Scheduler_Queues
begin

text \<open>
  The per-worker caches of finished callback Fibers: their invariant, the exactness of the
  gauges under \<^verbatim>\<open>acquireCallbackFiber\<close>, \<^verbatim>\<open>tryCacheCallbackFiber\<close> and
  \<^verbatim>\<open>clearCallbackFiberCaches\<close>, and that a cached Fiber can always be reset or destroyed.
\<close>


section \<open>The cache of callback Fibers\<close>

definition cached :: "Scheduler \<Rightarrow> fid list" where
  "cached s = concat (map callbackFiberCache (workerQueues s))"

definition fiber_bytes :: "'a fiber_world \<Rightarrow> fid \<Rightarrow> u64" where
  "fiber_bytes w p = (case fibers w p of None \<Rightarrow> 0 | Some f \<Rightarrow> allocationSize (stackBlock f))"

text \<open>
  The cached Fibers are distinct, each is a finished callback Fiber of its worker that no
  \<^verbatim>\<open>resume\<close> holds, no cache exceeds its limit, and the two gauges are exact.
\<close>

definition reusable_in :: "'a fiber_world \<Rightarrow> u64 \<Rightarrow> nat \<Rightarrow> fid \<Rightarrow> bool" where
  "reusable_in w owner i p \<longleftrightarrow> (\<exists>f. fibers w p = Some f \<and>
     IsReusableSchedulerCallback owner (of_nat i) f \<and> \<not> resumeInProgress f)"

definition cache_inv :: "Scheduler \<Rightarrow> 'a fiber_world \<Rightarrow> bool" where
  "cache_inv s w \<longleftrightarrow> distinct (cached s) \<and>
     (\<forall>i < length (workerQueues s). \<forall>p \<in> set (callbackFiberCache (workerQueues s ! i)).
        reusable_in w (ownerId s) i p) \<and>
     (\<forall>i < length (workerQueues s).
        length (callbackFiberCache (workerQueues s ! i)) \<le> unat (callbackFiberCachePerWorker s)) \<and>
     callbackCachedCount s = of_nat (length (cached s)) \<and>
     callbackCachedBytes s = sum_list (map (fiber_bytes w) (cached s))"

lemma cached_upd:
  assumes "i < length (workerQueues s)"
  shows "mset (cached (upd_worker i g s)) + mset (callbackFiberCache (workerQueues s ! i)) =
    mset (cached s) + mset (callbackFiberCache (g (workerQueues s ! i)))"
  using mset_concat_update [OF assms, of callbackFiberCache "g (workerQueues s ! i)"] by (simp add: cached_def)

lemma cached_elem: "p \<in> set (cached s) \<longleftrightarrow>
    (\<exists>i < length (workerQueues s). p \<in> set (callbackFiberCache (workerQueues s ! i)))"
  by (simp add: cached_def) (metis in_set_conv_nth)

lemma cache_invD:
  assumes "cache_inv s w"
  shows "distinct (cached s)"
    and "i < length (workerQueues s) \<Longrightarrow> p \<in> set (callbackFiberCache (workerQueues s ! i)) \<Longrightarrow>
      reusable_in w (ownerId s) i p"
    and "i < length (workerQueues s) \<Longrightarrow>
      length (callbackFiberCache (workerQueues s ! i)) \<le> unat (callbackFiberCachePerWorker s)"
    and "callbackCachedCount s = of_nat (length (cached s))"
    and "callbackCachedBytes s = sum_list (map (fiber_bytes w) (cached s))"
  using assms by (simp_all add: cache_inv_def)

lemma cached_alive:
  assumes "cache_inv s w" and "p \<in> set (cached s)"
  obtains i f where "i < length (workerQueues s)" and "fibers w p = Some f"
    and "IsReusableSchedulerCallback (ownerId s) (of_nat i) f" and "\<not> resumeInProgress f"
proof -
  from assms(2) obtain i where "i < length (workerQueues s)" "p \<in> set (callbackFiberCache (workerQueues s ! i))"
    by (auto simp: cached_elem)
  with cache_invD(2) [OF assms(1) this] that show ?thesis by (auto simp: reusable_in_def)
qed

text \<open>All that \<open>cache_inv\<close> looks at.\<close>

lemma cache_inv_cong:
  assumes inv: "cache_inv s w"
    and q: "map callbackFiberCache (workerQueues s') = map callbackFiberCache (workerQueues s)"
    and f: "callbackFiberCachePerWorker s' = callbackFiberCachePerWorker s" "ownerId s' = ownerId s"
      "callbackCachedCount s' = callbackCachedCount s" "callbackCachedBytes s' = callbackCachedBytes s"
    and w: "\<And>p. p \<in> set (cached s) \<Longrightarrow> fibers w' p = fibers w p"
  shows "cache_inv s' w'"
proof -
  have c: "cached s' = cached s" using q by (simp add: cached_def)
  have n: "length (workerQueues s') = length (workerQueues s)" using arg_cong [OF q, of length] by simp
  have nth: "callbackFiberCache (workerQueues s' ! i) = callbackFiberCache (workerQueues s ! i)"
    if "i < length (workerQueues s)" for i
    using arg_cong [OF q, of "\<lambda>xs. xs ! i"] that n by simp
  have b: "map (fiber_bytes w') (cached s) = map (fiber_bytes w) (cached s)"
    by (simp add: fiber_bytes_def w)
  have r: "reusable_in w' (ownerId s) i p"
    if "i < length (workerQueues s)" "p \<in> set (callbackFiberCache (workerQueues s ! i))" for i p
  proof -
    have "p \<in> set (cached s)" using that by (auto simp: cached_elem)
    then show ?thesis using cache_invD(2) [OF inv that] w by (simp add: reusable_in_def)
  qed
  show ?thesis using inv r by (simp add: cache_inv_def c n f b nth)
qed

lemma upd_worker_caches:
  assumes "\<And>q. callbackFiberCache (g q) = callbackFiberCache q"
  shows "map callbackFiberCache (workerQueues (upd_worker i g s)) = map callbackFiberCache (workerQueues s)"
  using assms by (simp add: map_update list_update_same_conv) (metis list_update_id map_update)

text \<open>One Fiber leaves or enters the cache of worker \<open>i\<close>.\<close>

lemma cache_pop:
  assumes inv: "cache_inv s w" and i: "i < length (workerQueues s)"
    and ne: "callbackFiberCache (workerQueues s ! i) \<noteq> []" and c: "c = last (callbackFiberCache (workerQueues s ! i))"
    and s': "s' = (upd_worker i (\<lambda>q. q\<lparr>callbackFiberCache := butlast (callbackFiberCache q)\<rparr>) s)\<lparr>
      callbackCacheHits := h, callbackCachedCount := callbackCachedCount s - 1,
      callbackCachedBytes := callbackCachedBytes s - fiber_bytes w c\<rparr>"
  shows "cache_inv s' w" and "mset (cached s) = add_mset c (mset (cached s'))"
proof -
  let ?q = "workerQueues s ! i"
  have cs: "callbackFiberCache ?q = butlast (callbackFiberCache ?q) @ [c]" using ne c by simp
  have m: "mset (cached s) = add_mset c (mset (cached s'))"
    using cached_upd [OF i, of "\<lambda>q. q\<lparr>callbackFiberCache := butlast (callbackFiberCache q)\<rparr>"] arg_cong [OF cs, of mset]
    by (simp add: s' cached_def)
  then show "mset (cached s) = add_mset c (mset (cached s'))" .
  have d: "distinct (cached s')" using inv m by (metis cache_inv_def distinct.simps(2) mset.simps(2) mset_eq_imp_distinct_iff)
  have len: "length (cached s) = Suc (length (cached s'))" using arg_cong [OF m, of size] by simp
  have "sum_mset (image_mset (fiber_bytes w) (mset (cached s))) =
      fiber_bytes w c + sum_mset (image_mset (fiber_bytes w) (mset (cached s')))" by (simp add: m)
  then have sum: "sum_list (map (fiber_bytes w) (cached s)) = fiber_bytes w c + sum_list (map (fiber_bytes w) (cached s'))"
    by (metis mset_map sum_mset_sum_list)
  have sub: "callbackFiberCache (workerQueues s' ! j) = callbackFiberCache (workerQueues s ! j) \<or>
      callbackFiberCache (workerQueues s' ! j) = butlast (callbackFiberCache (workerQueues s ! j))" for j
    by (cases "j = i") (auto simp: s' nth_list_update i)
  have same: "length (workerQueues s') = length (workerQueues s)" "ownerId s' = ownerId s"
    "callbackFiberCachePerWorker s' = callbackFiberCachePerWorker s" by (simp_all add: s')
  have "reusable_in w (ownerId s') j p" if "j < length (workerQueues s')"
      "p \<in> set (callbackFiberCache (workerQueues s' ! j))" for j p
  proof -
    have "p \<in> set (callbackFiberCache (workerQueues s ! j))" using that(2) sub [of j] by (metis in_set_butlastD)
    then show ?thesis using that(1) cache_invD(2) [OF inv] by (simp add: same)
  qed
  moreover have "length (callbackFiberCache (workerQueues s' ! j)) \<le> unat (callbackFiberCachePerWorker s')"
    if "j < length (workerQueues s')" for j
    using that sub [of j] cache_invD(3) [OF inv, of j] by (auto simp: same)
  moreover have "callbackCachedCount s' = callbackCachedCount s - 1"
    "callbackCachedBytes s' = callbackCachedBytes s - fiber_bytes w c" by (simp_all add: s')
  then have "callbackCachedCount s' = of_nat (length (cached s'))"
    "callbackCachedBytes s' = sum_list (map (fiber_bytes w) (cached s'))"
    by (simp_all add: cache_invD(4,5) [OF inv] len sum)
  ultimately show "cache_inv s' w" using d by (simp add: cache_inv_def)
qed

lemma cache_push:
  assumes inv: "cache_inv s w" and i: "i < length (workerQueues s)" and new: "p \<notin> set (cached s)"
    and r: "reusable_in w (ownerId s) i p"
    and room: "length (callbackFiberCache (workerQueues s ! i)) < unat (callbackFiberCachePerWorker s)"
    and s': "s' = (upd_worker i (\<lambda>q. q\<lparr>callbackFiberCache := callbackFiberCache q @ [p]\<rparr>) s)\<lparr>
      callbackCachedCount := callbackCachedCount s + 1,
      callbackCachedBytes := callbackCachedBytes s + fiber_bytes w p\<rparr>"
  shows "cache_inv s' w" and "mset (cached s') = add_mset p (mset (cached s))"
proof -
  have m: "mset (cached s') = add_mset p (mset (cached s))"
    using cached_upd [OF i, of "\<lambda>q. q\<lparr>callbackFiberCache := callbackFiberCache q @ [p]\<rparr>"]
    by (simp add: s' cached_def)
  then show "mset (cached s') = add_mset p (mset (cached s))" .
  have d: "distinct (cached s')"
    using inv m new by (metis cache_inv_def distinct.simps(2) mset.simps(2) mset_eq_imp_distinct_iff)
  have len: "length (cached s') = Suc (length (cached s))" using arg_cong [OF m, of size] by simp
  have "sum_mset (image_mset (fiber_bytes w) (mset (cached s'))) =
      fiber_bytes w p + sum_mset (image_mset (fiber_bytes w) (mset (cached s)))" by (simp add: m)
  then have sum: "sum_list (map (fiber_bytes w) (cached s')) = fiber_bytes w p + sum_list (map (fiber_bytes w) (cached s))"
    by (metis mset_map sum_mset_sum_list)
  have nth: "callbackFiberCache (workerQueues s' ! j) =
      callbackFiberCache (workerQueues s ! j) @ (if j = i then [p] else [])" for j
    using i by (simp add: s' nth_list_update)
  have same: "length (workerQueues s') = length (workerQueues s)" "ownerId s' = ownerId s"
    "callbackFiberCachePerWorker s' = callbackFiberCachePerWorker s" by (simp_all add: s')
  have "reusable_in w (ownerId s') j q" if "j < length (workerQueues s')"
      "q \<in> set (callbackFiberCache (workerQueues s' ! j))" for j q
    using that cache_invD(2) [OF inv, of j q] r by (auto simp: nth same split: if_splits)
  moreover have "length (callbackFiberCache (workerQueues s' ! j)) \<le> unat (callbackFiberCachePerWorker s')"
    if "j < length (workerQueues s')" for j
    using that cache_invD(3) [OF inv, of j] room by (simp add: nth same)
  moreover have "callbackCachedCount s' = callbackCachedCount s + 1"
    "callbackCachedBytes s' = callbackCachedBytes s + fiber_bytes w p" by (simp_all add: s')
  then have "callbackCachedCount s' = of_nat (length (cached s'))"
    "callbackCachedBytes s' = sum_list (map (fiber_bytes w) (cached s'))"
    by (simp_all add: cache_invD(4,5) [OF inv] len sum)
  ultimately show "cache_inv s' w" using d by (simp add: cache_inv_def)
qed

subsection \<open>The operations on the cache\<close>

lemma tryCache_inv:
  assumes inv: "cache_inv s w" and i: "i < length (workerQueues s)"
    and own: "uses = 1 \<Longrightarrow> p \<notin> set (cached s)"
    and idle: "\<And>f. fibers w p = Some f \<Longrightarrow> \<not> resumeInProgress f"
  shows "cache_inv (fst (tryCacheCallbackFiber uses push i (Some p) w s)) w"
proof (cases "fibers w p")
  case None
  then show ?thesis using inv by (simp add: tryCacheCallbackFiber_def)
next
  case (Some f)
  have evict: "cache_inv (s\<lparr>callbackCacheEvictions := e\<rparr>) w" for e
    by (rule cache_inv_cong [OF inv]) simp_all
  show ?thesis
  proof (cases "uses = 1 \<and> IsReusableSchedulerCallback (ownerId s) (of_nat i) f \<and> push \<and>
      \<not> callbackFiberCachePerWorker s \<le> of_nat (length (callbackFiberCache (workerQueues s ! i)))")
    case False
    then show ?thesis using Some inv evict by (auto simp: tryCacheCallbackFiber_def)
  next
    case True
    let ?k = "length (callbackFiberCache (workerQueues s ! i))"
    have "?k \<le> unat (callbackFiberCachePerWorker s)" using cache_invD(3) [OF inv i] .
    moreover have "unat (callbackFiberCachePerWorker s) < 2 ^ 64"
      using unsigned_less [of "callbackFiberCachePerWorker s"] by simp
    ultimately have "unat (of_nat ?k :: u64) = ?k" by (intro of_nat_small) linarith
    with True have room: "?k < unat (callbackFiberCachePerWorker s)"
      by (simp add: word_le_nat_alt)
    have "reusable_in w (ownerId s) i p" using True Some idle by (auto simp: reusable_in_def)
    from cache_push(1) [OF inv i _ this room refl] own True Some show ?thesis
      by (simp add: tryCacheCallbackFiber_def Let_def fiber_bytes_def upd_worker_def)
  qed
qed

lemma acquire_hit:
  assumes inv: "cache_inv s w" and i: "i < length (workerQueues s)"
    and ne: "callbackFiberCache (workerQueues s ! i) \<noteq> []"
    and ok: "acquireCallbackFiber new before destroy i p cb s w = (s', w', r)"
  obtains c f where "c = last (callbackFiberCache (workerQueues s ! i))" and "fibers w c = Some f"
    and "cache_inv s' w" and "mset (cached s) = add_mset c (mset (cached s'))"
    and "reset before c cb w = Inr w' \<and> r = Inr c \<or>
      (\<exists>e. reset before c cb w = Inl e \<and> (destroy c w = Inr w' \<and> r = Inl e \<or> w' = w \<and> (\<exists>e'. destroy c w = Inl e' \<and> r = Inl e')))"
    and "workerQueues s' = (workerQueues s)[i := (workerQueues s ! i)\<lparr>callbackFiberCache :=
      butlast (callbackFiberCache (workerQueues s ! i))\<rparr>]"
    and "idleThreadCnt s' = idleThreadCnt s" and "isStopped s' = isStopped s"
proof -
  let ?c = "last (callbackFiberCache (workerQueues s ! i))"
  have "reusable_in w (ownerId s) i ?c" using cache_invD(2) [OF inv i] ne by simp
  then obtain f where f: "fibers w ?c = Some f" by (auto simp: reusable_in_def)
  let ?s = "(upd_worker i (\<lambda>q. q\<lparr>callbackFiberCache := butlast (callbackFiberCache q)\<rparr>) s)\<lparr>
      callbackCacheHits := callbackCacheHits s + 1, callbackCachedCount := callbackCachedCount s - 1,
      callbackCachedBytes := callbackCachedBytes s - fiber_bytes w ?c\<rparr>"
  have s': "s' = ?s"
    using ok ne f by (auto simp: acquireCallbackFiber_def Let_def fiber_bytes_def upd_worker_def split: sum.splits)
  show ?thesis
  proof (rule that [OF refl f])
    show "cache_inv s' w" "mset (cached s) = add_mset ?c (mset (cached s'))"
      using cache_pop [OF inv i ne refl s'] by simp_all
    show "reset before ?c cb w = Inr w' \<and> r = Inr ?c \<or>
      (\<exists>e. reset before ?c cb w = Inl e \<and> (destroy ?c w = Inr w' \<and> r = Inl e \<or> w' = w \<and> (\<exists>e'. destroy ?c w = Inl e' \<and> r = Inl e')))"
      using ok ne f by (auto simp: acquireCallbackFiber_def Let_def split: sum.splits)
  qed (simp_all add: s')
qed

lemma acquire_miss:
  assumes "callbackFiberCache (workerQueues s ! i) = []"
    and "acquireCallbackFiber new before destroy i p cb s w = (s', w', r)"
  obtains w1 q where "new p cb 0 True w = (w1, q)"
    and "s' = s\<lparr>callbackCacheMisses := callbackCacheMisses s + 1\<rparr>"
    and "w' = w1 \<or> (\<exists>f. w' = upd_fiber p f w1)"
  using assms by (auto simp: acquireCallbackFiber_def Let_def split: prod.splits sum.splits option.splits)

lemma acquire_inv:
  assumes inv: "cache_inv s w" and i: "i < length (workerQueues s)" and p: "fibers w p = None"
    and new: "\<And>w1 q. new p cb 0 True w = (w1, q) \<Longrightarrow> \<forall>c. c \<noteq> p \<longrightarrow> fibers w1 c = fibers w c"
    and del: "\<And>c w1. destroy c w = Inr w1 \<Longrightarrow> \<forall>d. d \<noteq> c \<longrightarrow> fibers w1 d = fibers w d"
    and ok: "acquireCallbackFiber new before destroy i p cb s w = (s', w', r)"
  shows "cache_inv s' w'"
proof (cases "callbackFiberCache (workerQueues s ! i) = []")
  case True
  then obtain w1 q where n: "new p cb 0 True w = (w1, q)"
    and s': "s' = s\<lparr>callbackCacheMisses := callbackCacheMisses s + 1\<rparr>"
    and w': "w' = w1 \<or> (\<exists>f. w' = upd_fiber p f w1)" by (rule acquire_miss [OF _ ok])
  have "p \<notin> set (cached s)" using p by (auto elim: cached_alive [OF inv])
  then show ?thesis
    using new [OF n] w' by (intro cache_inv_cong [OF inv]) (auto simp: s')
next
  case False
  then obtain c f where f: "fibers w c = Some f" and inv': "cache_inv s' w"
    and m: "mset (cached s) = add_mset c (mset (cached s'))"
    and r: "reset before c cb w = Inr w' \<or> destroy c w = Inr w' \<or> w' = w"
    by (rule acquire_hit [OF inv i _ ok]) blast
  have "distinct (c # cached s')" using cache_invD(1) [OF inv] m
    by (metis mset.simps(2) mset_eq_imp_distinct_iff)
  then have c: "c \<notin> set (cached s')" by simp
  have "fibers w' d = fibers w d" if "d \<noteq> c" for d
    using r del [of c w'] that by (auto elim!: reset_Inr)
  then have "fibers w' d = fibers w d" if "d \<in> set (cached s')" for d using that c by metis
  then show ?thesis by (intro cache_inv_cong [OF inv']) simp_all
qed

text \<open>Resetting a cached Fiber does not panic: only the allocator's hook can make it fail.\<close>

lemma cached_reset:
  assumes inv: "cache_inv s w" and "p \<in> set (cached s)" and "stack_ok P (the (fibers w p))"
  shows "\<exists>f. fibers w p = Some f \<and> (case before (stackBlock f) of Some e \<Rightarrow> reset before p cb w = Inl e
    | None \<Rightarrow> reset before p cb w = Inr (upd_fiber p (f\<lparr>fiber_cb := Some cb, fexception := None,
        fcontext := True, fstate := READY\<rparr>) w))"
proof -
  from assms(2) obtain i f where f: "fibers w p = Some f"
    and r: "IsReusableSchedulerCallback (ownerId s) (of_nat i) f" by (rule cached_alive [OF inv])
  then have "block_valid (stackBlock f)"
    using assms(3) by (auto simp: stack_ok_def IsReusableSchedulerCallback_def block_ok_def block_valid_def)
  with f r show ?thesis
    by (auto simp: reset_def CreateContext_def IsReusableSchedulerCallback_def split: option.splits)
qed

subsection \<open>Clearing the caches\<close>

lemma fold_gauge_off:
  "fold (gauge_off w) ps s = s\<lparr>callbackCachedCount := callbackCachedCount s - of_nat (length ps),
     callbackCachedBytes := callbackCachedBytes s - sum_list (map (fiber_bytes w) ps)\<rparr>"
  by (induction ps arbitrary: s) (simp_all add: gauge_off_def fiber_bytes_def algebra_simps split: option.split)

context fiber_stack_allocator
begin

lemma drop_all_ok:
  assumes "fiber_owns owns P w" and "distinct ps"
    and "\<forall>p \<in> set ps. \<exists>f. fibers w p = Some f \<and> \<not> isMainFiber f \<and> fstate f = TERM_STATE"
  shows "\<exists>w'. drop_all (Fiber_destroy release t) ps w = Inr w' \<and> fiber_owns owns P w' \<and>
    (\<forall>q. fibers w' q = (if q \<in> set ps then None else fibers w q)) \<and> locals w' = locals w"
  using assms
proof (induction ps arbitrary: w)
  case Nil
  then show ?case by simp
next
  case (Cons p ps)
  from Cons.prems(3) obtain f where f: "fibers w p = Some f" "\<not> isMainFiber f" "fstate f = TERM_STATE" by auto
  from Fiber_destroy_succeeds [OF Cons.prems(1) f] obtain w1 where d: "Fiber_destroy release t p w = Inr w1" by blast
  note e = Fiber_destroy_Inr [OF d f(1)]
  have "fiber_owns owns P w1" using Fiber_destroy_owns [OF Cons.prems(1) f(1) d] .
  moreover have "\<forall>q \<in> set ps. \<exists>f. fibers w1 q = Some f \<and> \<not> isMainFiber f \<and> fstate f = TERM_STATE"
    using Cons.prems(2,3) by (auto simp: e(1))
  ultimately obtain w' where "drop_all (Fiber_destroy release t) ps w1 = Inr w'" "fiber_owns owns P w'"
    "\<forall>q. fibers w' q = (if q \<in> set ps then None else fibers w1 q)" "locals w' = locals w1"
    using Cons.IH [of w1] Cons.prems(2) by auto
  then show ?case using d e(1,3) f(2) by auto
qed

lemma clear_worker_ok:
  assumes inv: "cache_inv s w" and own: "fiber_owns owns P w" and i: "i < length (workerQueues s)"
  shows "\<exists>s' w'. clear_worker (Fiber_destroy release t) i (s, w) = Inr (s', w') \<and> cache_inv s' w' \<and>
    fiber_owns owns P w' \<and> workerQueues s' = (workerQueues s)[i := (workerQueues s ! i)\<lparr>callbackFiberCache := []\<rparr>] \<and>
    isStopped s' = isStopped s"
proof -
  let ?c = "callbackFiberCache (workerQueues s ! i)"
  have sub: "p \<in> set (cached s)" if "p \<in> set ?c" for p using that i by (auto simp: cached_elem)
  have dc: "distinct ?c"
    using cache_invD(1) [OF inv] i by (auto simp: cached_def distinct_concat_iff)
  have "\<forall>p \<in> set ?c. \<exists>f. fibers w p = Some f \<and> \<not> isMainFiber f \<and> fstate f = TERM_STATE"
    using sub by (metis IsReusableSchedulerCallback_def cached_alive [OF inv])
  from drop_all_ok [OF own dc this, of t] obtain w' where
    w': "drop_all (Fiber_destroy release t) ?c w = Inr w'" "fiber_owns owns P w'"
      "\<And>q. fibers w' q = (if q \<in> set ?c then None else fibers w q)" by auto
  define s' where "s' = upd_worker i (\<lambda>q. q\<lparr>callbackFiberCache := []\<rparr>) (fold (gauge_off w) ?c s)"
  have fields: "workerQueues s' = (workerQueues s)[i := (workerQueues s ! i)\<lparr>callbackFiberCache := []\<rparr>]"
    "ownerId s' = ownerId s" "callbackFiberCachePerWorker s' = callbackFiberCachePerWorker s"
    "callbackCachedCount s' = callbackCachedCount s - of_nat (length ?c)" "isStopped s' = isStopped s"
    "callbackCachedBytes s' = callbackCachedBytes s - sum_list (map (fiber_bytes w) ?c)"
    by (simp_all add: s'_def fold_gauge_off)
  have m: "mset (cached s) = mset (cached s') + mset ?c"
    using cached_upd [OF i, of "\<lambda>q. q\<lparr>callbackFiberCache := []\<rparr>"] by (simp add: cached_def fields(1))
  have dis: "distinct (cached s' @ ?c)"
    using cache_invD(1) [OF inv] m by (metis mset_append mset_eq_imp_distinct_iff)
  then have rest: "fibers w' p = fibers w p" if "p \<in> set (cached s')" for p using that w'(3) by auto
  have nth: "callbackFiberCache (workerQueues s' ! j) = (if j = i then [] else callbackFiberCache (workerQueues s ! j))" for j
    using i by (simp add: fields(1) nth_list_update)
  have "cache_inv s' w'"
    unfolding cache_inv_def
  proof (intro conjI allI impI ballI)
    show "distinct (cached s')" using dis by simp
    fix j assume j: "j < length (workerQueues s')"
    then have j': "j < length (workerQueues s)" by (simp add: fields(1))
    show "length (callbackFiberCache (workerQueues s' ! j)) \<le> unat (callbackFiberCachePerWorker s')"
      using cache_invD(3) [OF inv j'] by (simp add: nth fields(3))
    fix p assume p: "p \<in> set (callbackFiberCache (workerQueues s' ! j))"
    then have "reusable_in w (ownerId s) j p" using cache_invD(2) [OF inv j'] by (simp add: nth split: if_splits)
    moreover have "p \<in> set (cached s')" using p j by (auto simp: cached_elem)
    ultimately show "reusable_in w' (ownerId s') j p" by (simp add: reusable_in_def rest fields(2))
  next
    have "length (cached s) = length (cached s') + length ?c" using arg_cong [OF m, of size] by simp
    then show "callbackCachedCount s' = of_nat (length (cached s'))"
      by (simp add: fields(4) cache_invD(4) [OF inv])
    have "sum_mset (image_mset (fiber_bytes w) (mset (cached s))) =
        sum_mset (image_mset (fiber_bytes w) (mset (cached s'))) + sum_mset (image_mset (fiber_bytes w) (mset ?c))"
      by (simp add: m)
    then have "sum_list (map (fiber_bytes w) (cached s)) =
        sum_list (map (fiber_bytes w) (cached s')) + sum_list (map (fiber_bytes w) ?c)"
      by (metis mset_map sum_mset_sum_list)
    moreover have "sum_list (map (fiber_bytes w') (cached s')) = sum_list (map (fiber_bytes w) (cached s'))"
      by (rule arg_cong [of _ _ sum_list]) (simp add: fiber_bytes_def rest)
    ultimately show "callbackCachedBytes s' = sum_list (map (fiber_bytes w') (cached s'))"
      unfolding fields(6) cache_invD(5) [OF inv] by simp
  qed
  moreover have "clear_worker (Fiber_destroy release t) i (s, w) = Inr (s', w')"
    using w'(1) by (simp add: clear_worker_def Let_def s'_def)
  ultimately show ?thesis using w'(2) fields(1,5) by auto
qed

lemma clear_workers_ok:
  assumes "cache_inv s w" and "fiber_owns owns P w" and "\<forall>i \<in> set is. i < length (workerQueues s)"
  shows "\<exists>s' w'. clear_workers (Fiber_destroy release t) is (s, w) = Inr (s', w') \<and> cache_inv s' w' \<and>
    fiber_owns owns P w' \<and> length (workerQueues s') = length (workerQueues s) \<and>
    (\<forall>j < length (workerQueues s). workerQueues s' ! j =
      (if j \<in> set is then (workerQueues s ! j)\<lparr>callbackFiberCache := []\<rparr> else workerQueues s ! j))"
  using assms
proof (induction "is" arbitrary: s w)
  case Nil
  then show ?case by simp
next
  case (Cons i "is")
  from clear_worker_ok [OF Cons.prems(1,2), of i t] Cons.prems(3) obtain s1 w1 where
    c: "clear_worker (Fiber_destroy release t) i (s, w) = Inr (s1, w1)" "cache_inv s1 w1" "fiber_owns owns P w1"
      "workerQueues s1 = (workerQueues s)[i := (workerQueues s ! i)\<lparr>callbackFiberCache := []\<rparr>]" by auto
  with Cons.prems(3) Cons.IH [OF c(2,3)] show ?case by (auto simp: nth_list_update)
qed

lemma clearCallbackFiberCaches_ok:
  assumes "cache_inv s w" and "fiber_owns owns P w"
  shows "\<exists>s' w'. clearCallbackFiberCaches (Fiber_destroy release t) (s, w) = Inr (s', w') \<and>
    cached s' = [] \<and> callbackCachedCount s' = 0 \<and> callbackCachedBytes s' = 0 \<and> fiber_owns owns P w' \<and>
    queued s' = queued s"
proof -
  from clear_workers_ok [OF assms, of "[0..<length (workerQueues s)]" t] obtain s' w' where
    c: "clear_workers (Fiber_destroy release t) [0..<length (workerQueues s)] (s, w) = Inr (s', w')"
      "cache_inv s' w'" "fiber_owns owns P w'" "length (workerQueues s') = length (workerQueues s)"
      "\<forall>j < length (workerQueues s). workerQueues s' ! j = (workerQueues s ! j)\<lparr>callbackFiberCache := []\<rparr>"
    by auto
  have q: "workerQueues s' = map (\<lambda>q. q\<lparr>callbackFiberCache := []\<rparr>) (workerQueues s)"
    using c(4,5) by (simp add: list_eq_iff_nth_eq)
  then have "cached s' = []" by (simp add: cached_def)
  moreover have "queued s' = queued s" by (simp add: queued_def q comp_def queue_tasks_def [abs_def])
  ultimately show ?thesis
    using c cache_invD(4,5) [OF c(2)] by (auto simp: clearCallbackFiberCaches_def)
qed

end

end
