(* ===== verification/Scheduler_Safety.thy ===== *)
theory Scheduler_Safety
  imports Scheduler_Cache
begin

text \<open>
  The scheduler with its workers as a step relation in which a step is at most one critical
  section, its three invariants (tasks, activity flags, caches), and the properties of
  \<^verbatim>\<open>scheduler.cpp\<close>.
\<close>


section \<open>Workers in any order\<close>

text \<open>
  The scheduler with its workers and the world of Fibers. \<open>submitted\<close> and \<open>executed\<close> record the
  tasks handed to \<^verbatim>\<open>enqueueTask\<close> and those taken out, with the thread of the worker that
  took them.
\<close>

record 'a sched_sys =
  sch :: Scheduler
  sworld :: "'a fiber_world"
  pcs :: "nat \<Rightarrow> worker_pc"
  submitted :: "SchedulerTask multiset"
  executed :: "(SchedulerTask \<times> int) multiset"

abbreviation worker :: "'a sched_sys \<Rightarrow> nat \<Rightarrow> WorkerQueue" where
  "worker S i \<equiv> workerQueues (sch S) ! i"

abbreviation workers :: "'a sched_sys \<Rightarrow> nat" where
  "workers S \<equiv> length (workerQueues (sch S))"

definition goto :: "nat \<Rightarrow> worker_pc \<Rightarrow> 'a sched_sys \<Rightarrow> 'a sched_sys" where
  "goto i c S = S\<lparr>pcs := (pcs S)(i := c)\<rparr>"

text \<open>A task was taken by worker \<open>i\<close>.\<close>

definition took :: "nat \<Rightarrow> SchedulerTask \<Rightarrow> Scheduler \<Rightarrow> 'a sched_sys \<Rightarrow> 'a sched_sys" where
  "took i x s S = goto i (run_dispatch x)
     (S\<lparr>sch := s, executed := add_mset (x, worker_threadId (worker S i)) (executed S)\<rparr>)"

text \<open>
  One step of one thread. Every step is at most one critical section. Threads other than
  workers submit tasks; the code of Fibers and the destruction of Fibers that are not cached
  change the world of Fibers, but not a cached Fiber, to which they hold no reference. A
  Fiber whose \<^verbatim>\<open>resume\<close> has returned is in no \<^verbatim>\<open>resume\<close>, and a reference count of one is the
  reference of the loop itself.
\<close>

inductive sched_step ::
  "(os_answers \<Rightarrow> u64 \<Rightarrow> 'a \<Rightarrow> 'a \<times> FiberStackBlock result) \<Rightarrow>
   (FiberStackBlock \<Rightarrow> 'a \<Rightarrow> 'a result) \<Rightarrow> 'a sched_sys \<Rightarrow> 'a sched_sys \<Rightarrow> bool"
  for acquire release where
  ss_submit:
    "real_task x \<Longrightarrow> enqueueTask l x (sch S) = (s', wasEmpty) \<Longrightarrow>
     sched_step acquire release S (S\<lparr>sch := s', submitted := add_mset x (submitted S)\<rparr>)"
| ss_register:
    "i < workers S \<Longrightarrow> pcs S i = Run_exit \<Longrightarrow>
     sched_step acquire release S (goto i Run_fetch
       (S\<lparr>sch := upd_worker i (\<lambda>q. q\<lparr>worker_threadId := GetThreadId t\<rparr>) (sch S)\<rparr>))"
| ss_active:
    "i < workers S \<Longrightarrow> pcs S i = Run_fetch \<Longrightarrow>
     sched_step acquire release S (goto i Run_take (S\<lparr>sch := upd_worker i (\<lambda>q. q\<lparr>active := True\<rparr>) (sch S)\<rparr>))"
| ss_local:
    "i < workers S \<Longrightarrow> pcs S i = Run_take \<Longrightarrow>
     tryTakeLocal i (worker_threadId (worker S i)) (sch S) = Some (x, s') \<Longrightarrow>
     sched_step acquire release S (took i x s' S)"
| ss_local_none:
    "i < workers S \<Longrightarrow> pcs S i = Run_take \<Longrightarrow>
     tryTakeLocal i (worker_threadId (worker S i)) (sch S) = None \<Longrightarrow>
     sched_step acquire release S (goto i (if workers S \<le> 1 then Run_idle
       else Run_steal (victims (workers S) i (next_seed i seed))) S)"
| ss_steal:
    "i < workers S \<Longrightarrow> pcs S i = Run_steal (v # vs) \<Longrightarrow>
     steal_from v (worker_threadId (worker S i)) (sch S) = Some (x, s') \<Longrightarrow>
     sched_step acquire release S (took i x s' S)"
| ss_steal_none:
    "i < workers S \<Longrightarrow> pcs S i = Run_steal (v # vs) \<Longrightarrow>
     steal_from v (worker_threadId (worker S i)) (sch S) = None \<Longrightarrow>
     sched_step acquire release S (goto i (Run_steal vs) S)"
| ss_steal_end:
    "i < workers S \<Longrightarrow> pcs S i = Run_steal [] \<Longrightarrow> sched_step acquire release S (goto i Run_idle S)"
| ss_fiber:
    "i < workers S \<Longrightarrow> pcs S i = Run_fiber p \<Longrightarrow> run_fiber_check p (sworld S) = Inr u \<Longrightarrow>
     sched_step acquire release S (goto i (Run_resumed p) S)"
| ss_callback:
    "i < workers S \<Longrightarrow> pcs S i = Run_callback cb \<Longrightarrow> fibers (sworld S) p = None \<Longrightarrow>
     acquireCallbackFiber (\<lambda>p cb n b. Fiber_new acquire release before os p cb n b) before
       (Fiber_destroy release t) i p cb (sch S) (sworld S) = (s', w', r) \<Longrightarrow>
     sched_step acquire release S (goto i (case r of Inr c \<Rightarrow> Run_resumed c | Inl e \<Rightarrow> Run_fetch)
       (S\<lparr>sch := s', sworld := w'\<rparr>))"
| ss_returned:
    "i < workers S \<Longrightarrow> pcs S i = Run_resumed p \<Longrightarrow>
     (\<And>f. fibers (sworld S) p = Some f \<Longrightarrow> \<not> resumeInProgress f) \<Longrightarrow>
     (uses = 1 \<Longrightarrow> p \<notin> set (cached (sch S))) \<Longrightarrow>
     tryCacheCallbackFiber uses push i (Some p) (sworld S) (sch S) = (s', moved) \<Longrightarrow>
     sched_step acquire release S (goto i Run_fetch (S\<lparr>sch := s'\<rparr>))"
| ss_idle:
    "i < workers S \<Longrightarrow> pcs S i = Run_idle \<Longrightarrow> run_idle i st (sch S) = (s', c, b) \<Longrightarrow>
     sched_step acquire release S (goto i c (S\<lparr>sch := s'\<rparr>))"
| ss_idle_active:
    "i < workers S \<Longrightarrow> pcs S i = Run_idling \<Longrightarrow>
     sched_step acquire release S (S\<lparr>sch := upd_worker i (\<lambda>q. q\<lparr>active := b\<rparr>) (sch S)\<rparr>)"
| ss_idle_return:
    "i < workers S \<Longrightarrow> pcs S i = Run_idling \<Longrightarrow>
     sched_step acquire release S (goto i Run_fetch (S\<lparr>sch := run_idle_return (sch S)\<rparr>))"
| ss_stop:
    "stop_begin l (sch S) = Inr (s', r) \<Longrightarrow> sched_step acquire release S (S\<lparr>sch := s'\<rparr>)"
| ss_world:
    "(\<And>p. p \<in> set (cached (sch S)) \<Longrightarrow> fibers w' p = fibers (sworld S) p) \<Longrightarrow>
     sched_step acquire release S (S\<lparr>sworld := w'\<rparr>)"

text \<open>The system after construction, with no worker in \<^verbatim>\<open>run\<close> yet.\<close>

definition fresh_scheduler :: "Scheduler \<Rightarrow> bool" where
  "fresh_scheduler s \<longleftrightarrow> sizes_ok s \<and>
     (\<forall>q \<in> set (workerQueues s). \<exists>t. q = new_WorkerQueue\<lparr>worker_threadId := t\<rparr>) \<and>
     callbackCachedCount s = 0 \<and> callbackCachedBytes s = 0 \<and> idleThreadCnt s = 0 \<and> \<not> isStopped s"

definition sched_init :: "'a sched_sys \<Rightarrow> bool" where
  "sched_init S \<longleftrightarrow> fresh_scheduler (sch S) \<and> (\<forall>i. pcs S i = Run_exit) \<and>
     submitted S = {#} \<and> executed S = {#}"

lemma Scheduler_new_fresh:
  assumes "Scheduler_new new owner t pm pr run_cb threads use_caller cache l w = Inr (s, l', w')"
    and "threads < 2 ^ 64"
  shows "fresh_scheduler s \<and> length (workerQueues s) = threads"
proof -
  have "\<exists>u. q = new_WorkerQueue\<lparr>worker_threadId := u\<rparr>"
    if "q \<in> set ((replicate threads new_WorkerQueue)[0 := (new_WorkerQueue\<lparr>worker_threadId := v\<rparr>)])" for q v
    using subsetD [OF set_update_subset_insert that] by (auto simp: new_WorkerQueue_def split: if_splits)
  with assms show ?thesis
    by (auto simp: Scheduler_new_def Let_def bind_res_Inr_iff fresh_scheduler_def sizes_ok_def
        empty_scheduler_def upd_worker_def new_WorkerQueue_def split: if_splits prod.splits sum.splits)
qed

lemma goto_fields [simp]:
  "sch (goto i c S) = sch S" "sworld (goto i c S) = sworld S" "submitted (goto i c S) = submitted S"
  "executed (goto i c S) = executed S" "pcs (goto i c S) = (pcs S)(i := c)"
  by (simp_all add: goto_def)

lemma took_fields [simp]:
  "sch (took i x s S) = s" "sworld (took i x s S) = sworld S" "submitted (took i x s S) = submitted S"
  "executed (took i x s S) = add_mset (x, worker_threadId (worker S i)) (executed S)"
  "pcs (took i x s S) = (pcs S)(i := run_dispatch x)"
  by (simp_all add: took_def)

subsection \<open>Tasks\<close>

definition tasks_inv :: "'a sched_sys \<Rightarrow> bool" where
  "tasks_inv S \<longleftrightarrow> sizes_ok (sch S) \<and> (\<forall>q \<in> set (workerQueues (sch S)). queue_ok q) \<and>
     submitted S = queued (sch S) + image_mset fst (executed S) \<and>
     (\<forall>(x, tid) \<in># executed S. runnable tid x \<and> real_task x) \<and>
     (\<forall>i vs. pcs S i = Run_steal vs \<longrightarrow> (\<forall>v \<in> set vs. v < workers S))"

text \<open>Steps that keep every queue's tasks.\<close>

lemma tasks_inv_keep:
  assumes inv: "tasks_inv S"
    and q: "map (\<lambda>q. (unpinnedTasks q, pinnedTasks q)) (workerQueues (sch S')) =
      map (\<lambda>q. (unpinnedTasks q, pinnedTasks q)) (workerQueues (sch S))"
    and same: "submitted S' = submitted S" "executed S' = executed S"
    and pc: "\<And>i vs. pcs S' i = Run_steal vs \<Longrightarrow> \<forall>v \<in> set vs. v < workers S"
  shows "tasks_inv S'"
proof -
  have n: "workers S' = workers S" using arg_cong [OF q, of length] by simp
  have "map queue_tasks (workerQueues (sch S')) = map queue_tasks (workerQueues (sch S))"
    using arg_cong [OF q, of "map (\<lambda>(u, p). mset u + mset p)"] by (simp add: comp_def queue_tasks_def [abs_def])
  then have "queued (sch S') = queued (sch S)" by (simp add: queued_def)
  moreover have "queue_ok b" if "b \<in> set (workerQueues (sch S'))" for b
  proof -
    have "(unpinnedTasks b, pinnedTasks b) \<in> (\<lambda>q. (unpinnedTasks q, pinnedTasks q)) ` set (workerQueues (sch S))"
      using arg_cong [OF q, of set] that by auto
    then obtain a where "a \<in> set (workerQueues (sch S))" "unpinnedTasks b = unpinnedTasks a" "pinnedTasks b = pinnedTasks a"
      by auto
    with inv show ?thesis by (simp add: tasks_inv_def queue_ok_def)
  qed
  moreover have "sizes_ok (sch S')" using inv n by (simp add: tasks_inv_def sizes_ok_def)
  ultimately show ?thesis using inv pc by (auto simp: tasks_inv_def n same)
qed

lemma map_update_same:
  assumes "f y = f (xs ! i)"
  shows "map f (xs[i := y]) = map f xs"
  using assms by (metis list_update_id map_update)

lemma upd_worker_tasks:
  assumes "\<And>q. (unpinnedTasks (g q), pinnedTasks (g q)) = (unpinnedTasks q, pinnedTasks q)"
  shows "map (\<lambda>q. (unpinnedTasks q, pinnedTasks q)) (workerQueues (upd_worker i g s)) =
    map (\<lambda>q. (unpinnedTasks q, pinnedTasks q)) (workerQueues s)"
  by (simp add: map_update_same [of "\<lambda>q. (unpinnedTasks q, pinnedTasks q)"] assms)

lemma tasks_inv_takes:
  assumes inv: "tasks_inv S" and i: "i < workers S" and v: "v < workers S"
    and t: "takes x (worker S v) q'" and s': "s' = (sch S)\<lparr>workerQueues := (workerQueues (sch S))[v := q']\<rparr>"
    and run: "x \<in> set (unpinnedTasks (worker S v)) \<or> runnable (worker_threadId (worker S i)) x"
  shows "tasks_inv (took i x s' S)"
proof -
  have ok: "queue_ok (worker S v)" using inv v by (simp add: tasks_inv_def)
  have "x \<in># queue_tasks (worker S v)" using takes_fields(5) [OF t] .
  then have "real_task x" using ok by (auto simp: queue_ok_def queue_tasks_def)
  moreover have "runnable (worker_threadId (worker S i)) x"
    using run queue_ok_unpinned [OF ok] by (auto simp: runnable_def)
  moreover have "queued (sch S) = add_mset x (queued s')" by (rule queued_takes [OF v t s'])
  moreover have "queue_ok q" if "q \<in> set (workerQueues s')" for q
    using that inv takes_fields(4) [OF t ok] by (auto simp: s' tasks_inv_def dest!: subsetD [OF set_update_subset_insert])
  ultimately show ?thesis using inv
    by (auto simp: tasks_inv_def sizes_ok_def s' run_dispatch_def split: option.splits)
qed

lemma tasks_inv_submit:
  assumes inv: "tasks_inv S" and x: "real_task x" and e: "enqueueTask l x (sch S) = (s', b)"
  shows "tasks_inv (S\<lparr>sch := s', submitted := add_mset x (submitted S)\<rparr>)"
proof -
  have ok: "sizes_ok (sch S)" using inv by (simp add: tasks_inv_def)
  have q: "queued s' = add_mset x (queued (sch S))" and n: "length (workerQueues s') = workers S"
    using enqueueTask_queued [OF ok x, of l] e by simp_all
  have "workerQueues s' = (workerQueues (sch S))[target l x (sch S) := push_task x (worker S (target l x (sch S)))]"
    using arg_cong [OF e, of "\<lambda>r. workerQueues (fst r)"]
    by (cases "pick_worker l x (sch S) = kInvalidWorker") (simp_all add: enqueueTask_alt [OF x] Let_def)
  moreover have "queue_ok (push_task x (worker S (target l x (sch S))))"
  proof -
    have "queue_ok (worker S (target l x (sch S)))"
      using inv target_range [OF ok, of l x] by (simp add: tasks_inv_def)
    then show ?thesis using x by (simp add: push_task_def queue_ok_def)
  qed
  ultimately have "queue_ok q" if "q \<in> set (workerQueues s')" for q
    using that inv by (auto simp: tasks_inv_def dest!: subsetD [OF set_update_subset_insert])
  then show ?thesis using inv q n by (auto simp: tasks_inv_def sizes_ok_def)
qed

lemma acquire_tasks:
  assumes "acquireCallbackFiber new before destroy i p cb s w = (s', w', r)"
  shows "map (\<lambda>q. (unpinnedTasks q, pinnedTasks q)) (workerQueues s') =
      map (\<lambda>q. (unpinnedTasks q, pinnedTasks q)) (workerQueues s)"
    and "map active (workerQueues s') = map active (workerQueues s)"
    and "idleThreadCnt s' = idleThreadCnt s"
  using assms
  by (auto simp: acquireCallbackFiber_def Let_def map_update_same [of "\<lambda>q. (unpinnedTasks q, pinnedTasks q)"]
      map_update_same [of active] split: if_splits sum.splits prod.splits option.splits)

lemma tryCache_tasks:
  assumes "tryCacheCallbackFiber uses push i fiber w s = (s', moved)"
  shows "map (\<lambda>q. (unpinnedTasks q, pinnedTasks q)) (workerQueues s') =
      map (\<lambda>q. (unpinnedTasks q, pinnedTasks q)) (workerQueues s)"
    and "map active (workerQueues s') = map active (workerQueues s)"
    and "idleThreadCnt s' = idleThreadCnt s"
  using assms
  by (auto simp: tryCacheCallbackFiber_def Let_def map_update_same [of "\<lambda>q. (unpinnedTasks q, pinnedTasks q)"]
      map_update_same [of active] split: if_splits option.splits)

lemma run_idle_tasks:
  assumes "run_idle i st s = (s', c, b)"
  shows "map (\<lambda>q. (unpinnedTasks q, pinnedTasks q)) (workerQueues s') =
      map (\<lambda>q. (unpinnedTasks q, pinnedTasks q)) (workerQueues s)"
    and "c = Run_exit \<or> c = Run_idling"
  using assms
  by (auto simp: run_idle_def Let_def upd_worker_tasks simp del: upd_worker_fields(2) split: if_splits)

lemma stop_begin_fields:
  assumes "stop_begin l s = Inr (s', r)"
  shows "workerQueues s' = workerQueues s \<and> callbackFiberCachePerWorker s' = callbackFiberCachePerWorker s \<and>
    ownerId s' = ownerId s \<and> callbackCachedCount s' = callbackCachedCount s \<and>
    callbackCachedBytes s' = callbackCachedBytes s \<and> idleThreadCnt s' = idleThreadCnt s"
  using assms by (auto simp: stop_begin_def Let_def bind_res_Inr_iff split: if_splits)

lemma tasks_step:
  assumes "sched_step acquire release S S'" and inv: "tasks_inv S"
  shows "tasks_inv S'"
proof -
  have st: "\<And>i vs. pcs S i = Run_steal vs \<Longrightarrow> \<forall>v \<in> set vs. v < workers S" using inv by (simp add: tasks_inv_def)
  then have st': "\<And>i vs v. pcs S i = Run_steal vs \<Longrightarrow> v \<in> set vs \<Longrightarrow> v < workers S" by blast
  note keep = tasks_inv_keep [OF inv]
  from assms(1) show ?thesis
  proof (cases rule: sched_step.cases)
    case (ss_submit x l s' wasEmpty)
    then show ?thesis using tasks_inv_submit [OF inv] by blast
  next
    case (ss_local i x s')
    from ss_local(4) show ?thesis
      by (rule tryTakeLocal_Some) (use ss_local tasks_inv_takes [OF inv] in \<open>auto simp: runnable_def\<close>)
  next
    case (ss_steal i v vs x s')
    then have v: "v < workers S" using st by simp
    from ss_steal(4) show ?thesis
      by (rule steal_from_Some) (use v ss_steal tasks_inv_takes [OF inv] in \<open>auto simp: runnable_def\<close>)
  next
    case (ss_local_none i seed)
    have "\<forall>v \<in> set (victims (workers S) i (next_seed i seed)). v < workers S" if "1 < workers S"
      using victims_props(2) [OF that ss_local_none(2)] by simp
    then show ?thesis
      unfolding ss_local_none(1) by (intro keep) (use st in \<open>auto split: if_splits\<close>)
  next
    case (ss_callback i cb p before os t s' w' r)
    then show ?thesis
      by (intro keep) (use st in \<open>auto simp: acquire_tasks [OF ss_callback(5)] split: if_splits sum.splits\<close>)
  next
    case (ss_returned i p uses push s' moved)
    then show ?thesis
      by (intro keep) (use st in \<open>auto simp: tryCache_tasks [OF ss_returned(6)] split: if_splits\<close>)
  next
    case (ss_idle i st' s' c b)
    then show ?thesis
      by (intro keep) (use st run_idle_tasks(2) [OF ss_idle(4)] in
          \<open>auto simp: run_idle_tasks(1) [OF ss_idle(4)] split: if_splits\<close>)
  next
    case (ss_stop l s' r)
    then show ?thesis
      by (intro keep) (use st in \<open>auto simp: stop_begin_fields [OF ss_stop(2)]\<close>)
  next
    case (ss_steal_none i v vs)
    show ?thesis unfolding ss_steal_none(1)
      by (intro keep) (use st ss_steal_none(3) in \<open>auto split: if_splits\<close>)
  qed (auto intro!: keep simp: map_update_same [of "\<lambda>q. (unpinnedTasks q, pinnedTasks q)"] run_idle_return_def
      dest: st' split: if_splits)
qed

lemma tasks_init: "sched_init S \<Longrightarrow> tasks_inv S"
proof -
  assume i: "sched_init S"
  then have e: "unpinnedTasks q = [] \<and> pinnedTasks q = []" if "q \<in> set (workerQueues (sch S))" for q
    using that by (auto simp: sched_init_def fresh_scheduler_def new_WorkerQueue_def)
  then have "\<not> hasPendingTasks (sch S)" by (auto simp: hasPendingTasks_def list_ex_iff)
  then have "queued (sch S) = {#}" by (simp add: queued_empty_iff)
  with i e show ?thesis by (simp add: tasks_inv_def sched_init_def fresh_scheduler_def queue_ok_def)
qed

interpretation tasks: invariant_of sched_init "sched_step acquire release" tasks_inv for acquire release
  by unfold_locales (blast intro: tasks_init tasks_step)+

subsection \<open>Activity flags\<close>

text \<open>Between the store to \<^verbatim>\<open>active\<close> at the head of the loop and the store in the idle branch.\<close>

fun busy :: "worker_pc \<Rightarrow> bool" where
  "busy Run_fetch = False"
| "busy Run_idling = False"
| "busy Run_exit = False"
| "busy _ = True"

definition idling :: "'a sched_sys \<Rightarrow> nat set" where
  "idling S = {i. i < workers S \<and> pcs S i = Run_idling}"

text \<open>Where a task is in hand or its code is running.\<close>

fun working :: "worker_pc \<Rightarrow> bool" where
  "working (Run_fiber p) = True"
| "working (Run_callback cb) = True"
| "working (Run_resumed p) = True"
| "working _ = False"

lemma working_busy: "working c \<Longrightarrow> busy c"
  by (cases c) auto

lemma busy_dispatch: "real_task x \<Longrightarrow> busy (run_dispatch x) \<and> run_dispatch x \<noteq> Run_idling"
  by (auto simp: run_dispatch_def real_task_def split: option.splits)

definition flags_inv :: "'a sched_sys \<Rightarrow> bool" where
  "flags_inv S \<longleftrightarrow> (\<forall>i < workers S. busy (pcs S i) \<longrightarrow> active (worker S i)) \<and>
     idleThreadCnt (sch S) = of_nat (card (idling S))"

lemma flags_inv_keep:
  assumes inv: "flags_inv S" and n: "workers S' = workers S" and i: "i < workers S"
    and pc: "\<And>j. j \<noteq> i \<Longrightarrow> pcs S' j = pcs S j"
    and act: "\<And>j. j < workers S \<Longrightarrow> j \<noteq> i \<Longrightarrow> active (worker S' j) = active (worker S j)"
    and self: "busy (pcs S' i) \<Longrightarrow> active (worker S' i)"
    and idle: "pcs S i \<noteq> Run_idling" "pcs S' i \<noteq> Run_idling" "idleThreadCnt (sch S') = idleThreadCnt (sch S)"
  shows "flags_inv S'"
proof -
  have "idling S' = idling S" using pc idle n by (auto simp: idling_def) metis+
  moreover have "active (worker S' j)" if "j < workers S'" "busy (pcs S' j)" for j
    using that inv pc [of j] act [of j] self n by (cases "j = i") (auto simp: flags_inv_def)
  ultimately show ?thesis using inv idle(3) by (simp add: flags_inv_def)
qed

text \<open>The same when all flags are kept; the worker of the step stays where flags do not matter.\<close>

lemma flags_inv_map:
  assumes inv: "flags_inv S" and act: "map active (workerQueues (sch S')) = map active (workerQueues (sch S))"
    and pc: "\<And>j. j < workers S \<Longrightarrow> pcs S' j \<noteq> pcs S j \<Longrightarrow>
      (busy (pcs S' j) \<longrightarrow> busy (pcs S j)) \<and> pcs S j \<noteq> Run_idling \<and> pcs S' j \<noteq> Run_idling"
    and idle: "idleThreadCnt (sch S') = idleThreadCnt (sch S)"
  shows "flags_inv S'"
proof -
  have n: "workers S' = workers S" using arg_cong [OF act, of length] by simp
  have nth: "active (worker S' j) = active (worker S j)" if "j < workers S" for j
    using arg_cong [OF act, of "\<lambda>xs. xs ! j"] that n by simp
  have "pcs S' j = Run_idling \<longleftrightarrow> pcs S j = Run_idling" if "j < workers S" for j
    using pc [OF that] by metis
  then have "idling S' = idling S" using n by (auto simp: idling_def)
  moreover have "active (worker S' j)" if "j < workers S'" "busy (pcs S' j)" for j
  proof -
    have "busy (pcs S j)" using that pc [of j] n by (cases "pcs S' j = pcs S j") auto
    then show ?thesis using that inv nth [of j] n by (simp add: flags_inv_def)
  qed
  ultimately show ?thesis using inv idle by (simp add: flags_inv_def)
qed

lemma takes_active:
  assumes "takes x (qs ! v) q'"
  shows "map active (qs[v := q']) = map active qs"
  using takes_fields(2) [OF assms] by (rule map_update_same)

lemma enqueueTask_active:
  assumes "real_task x" and "enqueueTask l x s = (s', b)"
  shows "map active (workerQueues s') = map active (workerQueues s)" and "idleThreadCnt s' = idleThreadCnt s"
    and "map callbackFiberCache (workerQueues s') = map callbackFiberCache (workerQueues s)"
    and "callbackFiberCachePerWorker s' = callbackFiberCachePerWorker s" and "ownerId s' = ownerId s"
    and "callbackCachedCount s' = callbackCachedCount s" and "callbackCachedBytes s' = callbackCachedBytes s"
proof -
  have s': "s' = fst (enqueueTask l x s)" using assms(2) by simp
  show "map active (workerQueues s') = map active (workerQueues s)" "idleThreadCnt s' = idleThreadCnt s"
    "map callbackFiberCache (workerQueues s') = map callbackFiberCache (workerQueues s)"
    "callbackFiberCachePerWorker s' = callbackFiberCachePerWorker s" "ownerId s' = ownerId s"
    "callbackCachedCount s' = callbackCachedCount s" "callbackCachedBytes s' = callbackCachedBytes s"
    by (simp_all add: s' enqueueTask_alt [OF assms(1)] Let_def push_task_def map_update_same [of active]
        map_update_same [of callbackFiberCache])
qed

lemma flags_step:
  assumes "sched_step acquire release S S'" and tinv: "tasks_inv S" and inv: "flags_inv S"
  shows "flags_inv S'"
  using assms(1)
proof (cases rule: sched_step.cases)
  case (ss_submit x l s' wasEmpty)
  then show ?thesis
    by (intro flags_inv_map [OF inv]) (simp_all add: enqueueTask_active [OF ss_submit(2,3)])
next
  case (ss_local i x s')
  from ss_local(4) obtain q' where t: "takes x (worker S i) q'"
    and s': "s' = (sch S)\<lparr>workerQueues := (workerQueues (sch S))[i := q']\<rparr>" by (rule tryTakeLocal_Some)
  have "real_task x" using tasks_step [OF assms(1) tinv] by (simp add: ss_local tasks_inv_def)
  then show ?thesis
    using busy_dispatch ss_local by (intro flags_inv_map [OF inv]) (auto simp: s' takes_active [OF t] split: if_splits)
next
  case (ss_steal i v vs x s')
  from ss_steal(4) obtain q' where t: "takes x (worker S v) q'"
    and s': "s' = (sch S)\<lparr>workerQueues := (workerQueues (sch S))[v := q']\<rparr>" by (rule steal_from_Some)
  have "real_task x" using tasks_step [OF assms(1) tinv] by (simp add: ss_steal tasks_inv_def)
  then show ?thesis
    using busy_dispatch ss_steal by (intro flags_inv_map [OF inv]) (auto simp: s' takes_active [OF t] split: if_splits)
next
  case (ss_local_none i seed)
  show ?thesis
  proof (rule flags_inv_map [OF inv])
    fix j assume "pcs S' j \<noteq> pcs S j"
    then have "j = i" by (auto simp: ss_local_none(1) split: if_splits)
    then show "(busy (pcs S' j) \<longrightarrow> busy (pcs S j)) \<and> pcs S j \<noteq> Run_idling \<and> pcs S' j \<noteq> Run_idling"
      using ss_local_none by simp
  qed (simp_all add: ss_local_none(1))
next
  case (ss_active i)
  then show ?thesis by (intro flags_inv_keep [OF inv, of S' i]) (auto simp: nth_list_update)
next
  case (ss_callback i cb p before os t s' w' r)
  then show ?thesis
    by (intro flags_inv_map [OF inv]) (auto simp: acquire_tasks [OF ss_callback(5)] split: if_splits sum.splits)
next
  case (ss_returned i p uses push s' moved)
  then show ?thesis
    by (intro flags_inv_map [OF inv]) (auto simp: tryCache_tasks [OF ss_returned(6)] split: if_splits)
next
  case (ss_idle i st s' c b)
  show ?thesis
  proof (cases "st = TERM_STATE")
    case True
    with ss_idle show ?thesis
      by (intro flags_inv_keep [OF inv, of S' i]) (auto simp: run_idle_def Let_def nth_list_update)
  next
    case False
    with ss_idle have s': "s' = (upd_worker i (\<lambda>q. q\<lparr>active := False\<rparr>) (sch S))\<lparr>idleThreadCnt := idleThreadCnt (sch S) + 1\<rparr>"
      and c: "c = Run_idling" by (auto simp: run_idle_def Let_def)
    have "idling S' = insert i (idling S)" "i \<notin> idling S" "finite (idling S)"
      using ss_idle by (auto simp: idling_def s' c split: if_splits)
    then have "idleThreadCnt (sch S') = of_nat (card (idling S'))"
      using inv by (simp add: ss_idle(1) s' flags_inv_def)
    then show ?thesis using inv by (auto simp: flags_inv_def ss_idle(1) s' c nth_list_update split: if_splits)
  qed
next
  case (ss_idle_active i b)
  have "idling S' = idling S" by (auto simp: idling_def ss_idle_active(1))
  then show ?thesis using inv ss_idle_active by (auto simp: flags_inv_def nth_list_update)
next
  case (ss_idle_return i)
  have "idling S = insert i (idling S')" "i \<notin> idling S'" "finite (idling S')"
    using ss_idle_return by (auto simp: idling_def run_idle_return_def split: if_splits)
  then have "idleThreadCnt (sch S) = 1 + of_nat (card (idling S'))" using inv by (simp add: flags_inv_def)
  moreover have "idleThreadCnt (sch S') = idleThreadCnt (sch S) - 1"
    by (simp add: ss_idle_return(1) run_idle_return_def)
  ultimately have "idleThreadCnt (sch S') = of_nat (card (idling S'))" by simp
  then show ?thesis using inv by (auto simp: flags_inv_def ss_idle_return(1) run_idle_return_def split: if_splits)
next
  case (ss_stop l s' r)
  then show ?thesis by (intro flags_inv_map [OF inv]) (simp_all add: stop_begin_fields [OF ss_stop(2)])
qed (auto intro!: flags_inv_map [OF inv] simp: map_update_same [of active] split: if_splits)

lemma flags_init: "sched_init S \<Longrightarrow> flags_inv S"
  by (simp add: sched_init_def flags_inv_def idling_def fresh_scheduler_def)

interpretation flags: invariant_of sched_init "sched_step acquire release" "\<lambda>S. tasks_inv S \<and> flags_inv S"
  for acquire release
  by unfold_locales (blast intro: tasks_init tasks_step flags_init flags_step)+

subsection \<open>Caches\<close>

lemma Fiber_new_others:
  assumes "Fiber_new acquire release before os p cb n b w = (w', r)"
  shows "\<forall>c. c \<noteq> p \<longrightarrow> fibers w' c = fibers w c"
proof (cases r)
  case (Inl e)
  with assms show ?thesis by (auto dest: Fiber_new_Inl)
next
  case (Inr u)
  with assms have "Fiber_new acquire release before os p cb n b w = (w', Inr ())" by simp
  then show ?thesis by (rule Fiber_new_Inr) simp
qed

lemma Fiber_destroy_others:
  assumes "Fiber_destroy release t c w = Inr w'"
  shows "\<forall>d. d \<noteq> c \<longrightarrow> fibers w' d = fibers w d"
proof (cases "fibers w c")
  case None
  with assms show ?thesis by (simp add: Fiber_destroy_def)
next
  case (Some f)
  then show ?thesis using Fiber_destroy_Inr(1) [OF assms] by simp
qed

lemma cache_step:
  assumes "sched_step acquire release S S'" and inv: "cache_inv (sch S) (sworld S)"
  shows "cache_inv (sch S') (sworld S')"
  using assms(1)
proof (cases rule: sched_step.cases)
  case (ss_submit x l s' wasEmpty)
  then show ?thesis by (intro cache_inv_cong [OF inv]) (simp_all add: enqueueTask_active [OF ss_submit(2,3)])
next
  case (ss_local i x s')
  from ss_local(4) obtain q' where t: "takes x (worker S i) q'"
    and s': "s' = (sch S)\<lparr>workerQueues := (workerQueues (sch S))[i := q']\<rparr>" by (rule tryTakeLocal_Some)
  show ?thesis
    by (rule cache_inv_cong [OF inv])
      (simp_all add: ss_local(1) s' map_update_same [of callbackFiberCache, OF takes_fields(1) [OF t]])
next
  case (ss_steal i v vs x s')
  from ss_steal(4) obtain q' where t: "takes x (worker S v) q'"
    and s': "s' = (sch S)\<lparr>workerQueues := (workerQueues (sch S))[v := q']\<rparr>" by (rule steal_from_Some)
  show ?thesis
    by (rule cache_inv_cong [OF inv])
      (simp_all add: ss_steal(1) s' map_update_same [of callbackFiberCache, OF takes_fields(1) [OF t]])
next
  case (ss_callback i cb p before os t s' w' r)
  have "cache_inv s' w'"
    using ss_callback Fiber_new_others Fiber_destroy_others by (intro acquire_inv [OF inv, of i p]) blast+
  then show ?thesis by (simp add: ss_callback(1))
next
  case (ss_returned i p uses push s' moved)
  have "cache_inv (fst (tryCacheCallbackFiber uses push i (Some p) (sworld S) (sch S))) (sworld S)"
    by (rule tryCache_inv [OF inv ss_returned(2,5,4)])
  then show ?thesis by (simp add: ss_returned(1,6))
next
  case (ss_idle i st s' c b)
  then show ?thesis
    by (intro cache_inv_cong [OF inv])
      (auto simp: run_idle_def Let_def upd_worker_caches simp del: upd_worker_fields(2) split: if_splits)
next
  case (ss_stop l s' r)
  then show ?thesis by (intro cache_inv_cong [OF inv]) (simp_all add: stop_begin_fields [OF ss_stop(2)])
next
  case (ss_world w')
  then show ?thesis by (intro cache_inv_cong [OF inv]) simp_all
qed (auto intro!: cache_inv_cong [OF inv] simp: map_update_same [of callbackFiberCache] run_idle_return_def)

lemma cache_init: "sched_init S \<Longrightarrow> cache_inv (sch S) (sworld S)"
proof -
  assume i: "sched_init S"
  then have e: "callbackFiberCache q = []" if "q \<in> set (workerQueues (sch S))" for q
    using that by (auto simp: sched_init_def fresh_scheduler_def new_WorkerQueue_def)
  then have "cached (sch S) = []" by (simp add: cached_def)
  with i e show ?thesis by (simp add: cache_inv_def sched_init_def fresh_scheduler_def)
qed

interpretation caches: invariant_of sched_init "sched_step acquire release" "\<lambda>S. cache_inv (sch S) (sworld S)"
  for acquire release
  by unfold_locales (blast intro: cache_init cache_step)+

section \<open>Properties\<close>

definition example_task :: SchedulerTask where
  "example_task = fiber_task 2 7"

definition outside :: sched_locals where
  "outside = \<lparr>cur_scheduler = False, cur_worker_index = kInvalidWorker, victim_seed = None\<rparr>"

text \<open>A callback Fiber of worker 0 that has yielded, and the same after it ended.\<close>

definition example_cb_fiber :: Fiber where
  "example_cb_fiber = MarkSchedulerCallback 1 0 (example_fiber\<lparr>isRunInScheduler := True\<rparr>)"

definition example_cb_done :: Fiber where
  "example_cb_done = example_cb_fiber\<lparr>fiber_cb := None, fcontext := False, fstate := TERM_STATE\<rparr>"

definition example_sys :: "(PooledImpl \<times> memory) sched_sys" where
  "example_sys = \<lparr>sch = (empty_scheduler 1 2 False 1)\<lparr>rootThread := -1, threadCnt := 2\<rparr>,
     sworld = upd_fiber 2 example_cb_fiber example_created, pcs = (\<lambda>i. Run_exit), submitted = {#}, executed = {#}\<rparr>"

definition example_sys1 :: "(PooledImpl \<times> memory) sched_sys" where
  "example_sys1 = example_sys\<lparr>sch := fst (enqueueTask outside example_task (sch example_sys)),
     submitted := add_mset example_task (submitted example_sys)\<rparr>"

definition example_sys2 :: "(PooledImpl \<times> memory) sched_sys" where
  "example_sys2 = goto 0 Run_fetch
     (example_sys1\<lparr>sch := upd_worker 0 (\<lambda>q. q\<lparr>worker_threadId := GetThreadId 7\<rparr>) (sch example_sys1)\<rparr>)"

definition example_sys3 :: "(PooledImpl \<times> memory) sched_sys" where
  "example_sys3 = goto 0 Run_take
     (example_sys2\<lparr>sch := upd_worker 0 (\<lambda>q. q\<lparr>active := True\<rparr>) (sch example_sys2)\<rparr>)"

definition example_sys4 :: "(PooledImpl \<times> memory) sched_sys" where
  "example_sys4 = took 0 example_task
     (upd_worker 0 (\<lambda>q. q\<lparr>pinnedTasks := []\<rparr>) (sch example_sys3)) example_sys3"

abbreviation example_sched_step ::
  "(PooledImpl \<times> memory) sched_sys \<Rightarrow> (PooledImpl \<times> memory) sched_sys \<Rightarrow> bool" where
  "example_sched_step \<equiv> sched_step (Pooled_acquire example_platform) (Pooled_release example_platform Insert_ok)"

lemma example_queues:
  "workerQueues (sch example_sys) = [new_WorkerQueue, new_WorkerQueue]"
  "workerQueues (sch example_sys1) = [new_WorkerQueue\<lparr>pinnedTasks := [example_task]\<rparr>, new_WorkerQueue]"
  "workerQueues (sch example_sys3) = [new_WorkerQueue\<lparr>pinnedTasks := [example_task], worker_threadId := 7,
     active := True\<rparr>, new_WorkerQueue]"
  "pcs example_sys1 0 = Run_exit" "pcs example_sys2 0 = Run_fetch" "pcs example_sys3 0 = Run_take"
proof -
  show 0: "workerQueues (sch example_sys) = [new_WorkerQueue, new_WorkerQueue]"
    by (simp add: example_sys_def empty_scheduler_def eval_nat_numeral)
  have n: "nextQueue (sch example_sys) = 0" by (simp add: example_sys_def empty_scheduler_def)
  show 1: "workerQueues (sch example_sys1) = [new_WorkerQueue\<lparr>pinnedTasks := [example_task]\<rparr>, new_WorkerQueue]"
    by (simp add: example_sys1_def enqueueTask_def pick_worker_def findWorkerByThread_def example_task_def
        fiber_task_def 0 new_WorkerQueue_def upd_worker_def push_task_def n)
  show "workerQueues (sch example_sys3) = [new_WorkerQueue\<lparr>pinnedTasks := [example_task], worker_threadId := 7,
     active := True\<rparr>, new_WorkerQueue]"
    by (simp add: example_sys3_def example_sys2_def 1 GetThreadId_def new_WorkerQueue_def)
  show "pcs example_sys1 0 = Run_exit" "pcs example_sys2 0 = Run_fetch" "pcs example_sys3 0 = Run_take"
    by (simp_all add: example_sys_def example_sys1_def example_sys2_def example_sys3_def)
qed

lemma example_sys_init: "sched_init example_sys"
proof -
  have "fresh_scheduler (sch example_sys)"
    unfolding fresh_scheduler_def example_queues sizes_ok_def
    by (simp add: example_sys_def empty_scheduler_def new_WorkerQueue_def)
  then show ?thesis by (simp add: sched_init_def example_sys_def)
qed

lemma example_sys_steps3: "example_sched_step\<^sup>*\<^sup>* example_sys example_sys3"
proof -
  have 1: "example_sched_step example_sys example_sys1"
    unfolding example_sys1_def
    by (rule sched_step.ss_submit) (auto simp: real_task_def example_task_def fiber_task_def prod_eq_iff)
  have 2: "example_sched_step example_sys1 example_sys2"
    unfolding example_sys2_def by (rule sched_step.ss_register) (simp_all add: example_queues)
  have w2: "workers example_sys2 = 2" by (simp add: example_sys2_def example_queues)
  have 3: "example_sched_step example_sys2 example_sys3"
    unfolding example_sys3_def by (rule sched_step.ss_active) (simp_all add: example_queues w2)
  from 1 2 3 show ?thesis by (meson converse_rtranclp_into_rtranclp r_into_rtranclp)
qed

lemma example_sys_steps: "example_sched_step\<^sup>*\<^sup>* example_sys example_sys4"
proof -
  have "example_sched_step example_sys3 example_sys4"
    unfolding example_sys4_def
    by (rule sched_step.ss_local)
      (simp_all add: example_queues tryTakeLocal_def example_task_def fiber_task_def new_WorkerQueue_def)
  with example_sys_steps3 show ?thesis by (rule rtranclp.rtrancl_into_rtrancl)
qed

text \<open>
  C2: under every interleaving of submissions, local takes and steals no task is lost or run
  twice: the tasks submitted are those still queued together with those handed to a worker,
  and a task pinned to a thread is only handed to the worker registered with that thread.
\<close>

theorem tasks_conserved:
  assumes "sched_init S0" and "(sched_step acquire release)\<^sup>*\<^sup>* S0 S"
  shows "submitted S = queued (sch S) + image_mset fst (executed S) \<and>
    (\<forall>x tid. (x, tid) \<in># executed S \<longrightarrow> task_thread x = -1 \<or> task_thread x = tid)"
  using tasks.inv_reachable [OF assms] by (auto simp: tasks_inv_def runnable_def)

theorem tasks_conserved_witness:
  "sched_init example_sys \<and> example_sched_step\<^sup>*\<^sup>* example_sys example_sys4 \<and>
   executed example_sys4 = {#(example_task, 7)#} \<and> submitted example_sys4 = {#example_task#} \<and>
   queued (sch example_sys4) = {#}"
proof -
  have e: "executed example_sys4 = {#(example_task, 7)#}" "submitted example_sys4 = {#example_task#}"
    by (simp_all add: example_sys4_def example_queues) (simp_all add: example_sys3_def example_sys2_def
        example_sys1_def example_sys_def)
  with tasks_conserved [OF example_sys_init example_sys_steps] show ?thesis
    using example_sys_init example_sys_steps by simp
qed

text \<open>
  C14: \<^verbatim>\<open>tryTakeTask\<close> overlooks nothing. If it returns no task, no queue holds a task this
  worker may run; if it returns one, that task leaves the queues exactly once and is
  unpinned or pinned to the worker's thread.
\<close>

theorem tryTakeTask_complete:
  assumes "sched_init S0" and "(sched_step acquire release)\<^sup>*\<^sup>* S0 S" and "i < workers S"
  shows "case snd (tryTakeTask i seed (sch S)) of
      None \<Rightarrow> \<forall>x \<in># queued (sch S). task_thread x \<noteq> -1 \<and> task_thread x \<noteq> worker_threadId (worker S i)
    | Some (x, s') \<Rightarrow> queued (sch S) = add_mset x (queued s') \<and>
        (task_thread x = -1 \<or> task_thread x = worker_threadId (worker S i))"
proof -
  have ok: "\<forall>q \<in> set (workerQueues (sch S)). queue_ok q"
    using tasks.inv_reachable [OF assms(1,2)] by (simp add: tasks_inv_def)
  obtain seed' r where t: "tryTakeTask i seed (sch S) = (seed', r)" by fastforce
  show ?thesis
  proof (cases r)
    case None
    with tryTakeTask_None [OF assms(3) ok] t show ?thesis by (auto simp: runnable_def)
  next
    case (Some a)
    with tryTakeTask_Some [OF assms(3) ok] t show ?thesis by (cases a) (auto simp: runnable_def)
  qed
qed

theorem tryTakeTask_complete_witness:
  "\<exists>x s'. snd (tryTakeTask 0 None (sch example_sys3)) = Some (x, s') \<and> task_thread x = 7 \<and>
     queued (sch example_sys3) = add_mset x (queued s')"
  using tryTakeTask_complete [OF example_sys_init example_sys_steps3, of 0 None]
  by (auto simp: tryTakeTask_def tryTakeLocal_def example_queues new_WorkerQueue_def example_task_def
      fiber_task_def split: prod.splits)

text \<open>
  whatever the random seed, the stealing loop visits every other worker exactly once and
  never the worker itself.
\<close>

theorem victims_permutation:
  assumes "1 < n" and "i < n"
  shows "distinct (victims n i seed) \<and> set (victims n i seed) = {0..<n} - {i} \<and>
    length (victims n i seed) = n - 1"
  using victims_props [OF assms] by (simp add: victims_def)

theorem victims_permutation_witness:
  "victims 4 2 5 = [1, 3, 0] \<and> set (victims 4 2 5) = {0, 1, 3}"
proof -
  have "set (victims 4 2 5) = {0..<4} - {2}" using victims_permutation [of 4 2 5] by simp
  moreover have "victims 4 2 5 = [1, 3, 0]" by (simp add: victims_def upt_rec)
  ultimately show ?thesis by auto
qed

text \<open>
  a task goes to exactly one queue, at its end. A pinned task goes to the worker
  registered with its thread if there is one; a task submitted by a worker stays in that
  worker's queue; the result says whether the queue was empty, which is when \<^verbatim>\<open>tickle\<close> is
  called.
\<close>

theorem enqueueTask_placement:
  assumes "sizes_ok s" and "real_task x"
  shows "\<exists>i < length (workerQueues s).
    workerQueues (fst (enqueueTask l x s)) = (workerQueues s)[i := push_task x (workerQueues s ! i)] \<and>
    snd (enqueueTask l x s) = (queue_tasks (workerQueues s ! i) = {#}) \<and>
    (task_thread x \<noteq> -1 \<and> (\<exists>q \<in> set (workerQueues s). worker_threadId q = task_thread x) \<longrightarrow>
      worker_threadId (workerQueues s ! i) = task_thread x) \<and>
    (task_thread x = -1 \<and> cur_scheduler l \<and> unat (cur_worker_index l) < length (workerQueues s) \<longrightarrow>
      i = unat (cur_worker_index l))"
proof -
  let ?i = "target l x s"
  have n: "length (workerQueues s) < 2 ^ 64" using assms(1) by (simp add: sizes_ok_def)
  have "workerQueues (fst (enqueueTask l x s)) = (workerQueues s)[?i := push_task x (workerQueues s ! ?i)]"
    by (simp add: enqueueTask_alt [OF assms(2)] Let_def)
  moreover have "snd (enqueueTask l x s) = (queue_tasks (workerQueues s ! ?i) = {#})"
    by (auto simp: enqueueTask_alt [OF assms(2)] Let_def queue_tasks_def)
  moreover have "worker_threadId (workerQueues s ! ?i) = task_thread x"
    if "task_thread x \<noteq> -1" "q \<in> set (workerQueues s)" "worker_threadId q = task_thread x" for q
  proof (rule find_worker_from_cases [of 0 "task_thread x" "workerQueues s"])
    fix k assume k: "k < length (workerQueues s)" "worker_threadId (workerQueues s ! k) = task_thread x"
      "find_worker_from 0 (task_thread x) (workerQueues s) = of_nat (0 + k)"
    then have "pick_worker l x s = of_nat k"
      using that by (simp add: pick_worker_def findWorkerByThread_def)
    with k n of_nat_valid [of k "length (workerQueues s)"] show ?thesis
      by (simp add: target_def of_nat_small)
  qed (use that in auto)
  moreover have "?i = unat (cur_worker_index l)"
    if "task_thread x = -1" "cur_scheduler l" "unat (cur_worker_index l) < length (workerQueues s)"
  proof -
    have "cur_worker_index l \<noteq> kInvalidWorker"
      using that(3) n of_nat_valid [of "unat (cur_worker_index l)" "length (workerQueues s)"] by simp
    then show ?thesis using that by (simp add: target_def pick_worker_def)
  qed
  ultimately show ?thesis using target_range [OF assms(1)] by blast
qed

theorem enqueueTask_placement_witness:
  "\<exists>i < 2. workerQueues (fst (enqueueTask outside example_task (sch example_sys3))) =
     (workerQueues (sch example_sys3))[i := push_task example_task (workerQueues (sch example_sys3) ! i)] \<and>
     worker_threadId (workerQueues (sch example_sys3) ! i) = 7"
proof -
  have "sizes_ok (sch example_sys3)" by (simp add: sizes_ok_def example_queues)
  moreover have "real_task example_task" by (simp add: real_task_def example_task_def fiber_task_def)
  moreover have "length (workerQueues (sch example_sys3)) = 2" by (simp add: example_queues)
  moreover have "task_thread example_task = 7" by (simp add: example_task_def fiber_task_def)
  moreover have "\<exists>q \<in> set (workerQueues (sch example_sys3)). worker_threadId q = 7" by (simp add: example_queues)
  ultimately show ?thesis
    using enqueueTask_placement [of "sch example_sys3" example_task outside] by auto
qed

text \<open>Submissions one after the other.\<close>

fun submit_all :: "sched_locals \<Rightarrow> SchedulerTask list \<Rightarrow> Scheduler \<Rightarrow> Scheduler" where
  "submit_all l [] s = s"
| "submit_all l (x # xs) s = submit_all l xs (fst (enqueueTask l x s))"

lemma submit_all_round_robin:
  assumes "sizes_ok s" and "\<not> cur_scheduler l" and "\<forall>x \<in> set xs. real_task x \<and> task_thread x = -1"
    and "length xs \<le> length (workerQueues s)" and "unat (nextQueue s) + length xs < 2 ^ 64"
  shows "(\<forall>j < length xs. let i = (unat (nextQueue s) + j) mod length (workerQueues s) in
      workerQueues (submit_all l xs s) ! i =
        (workerQueues s ! i)\<lparr>unpinnedTasks := unpinnedTasks (workerQueues s ! i) @ [xs ! j]\<rparr>) \<and>
    (\<forall>i < length (workerQueues s). (\<forall>j < length xs. i \<noteq> (unat (nextQueue s) + j) mod length (workerQueues s)) \<longrightarrow>
      workerQueues (submit_all l xs s) ! i = workerQueues s ! i)"
  using assms
proof (induction xs arbitrary: s)
  case Nil
  then show ?case by simp
next
  case (Cons x xs)
  let ?n = "length (workerQueues s)" and ?k = "unat (nextQueue s)" and ?s = "fst (enqueueTask l x s)"
  let ?q = "?k mod ?n"
  have n: "0 < ?n" "?n < 2 ^ 64" using Cons.prems(1) by (simp_all add: sizes_ok_def)
  have pick: "pick_worker l x s = kInvalidWorker" using Cons.prems by (simp add: pick_worker_def)
  have tgt: "target l x s = ?q" using pick n by (simp add: target_def unat_mod of_nat_small)
  have s: "workerQueues ?s = (workerQueues s)[?q := (workerQueues s ! ?q)\<lparr>unpinnedTasks :=
      unpinnedTasks (workerQueues s ! ?q) @ [x]\<rparr>]" "nextQueue ?s = nextQueue s + 1"
    using Cons.prems(3) pick by (simp_all add: enqueueTask_alt Let_def tgt push_task_def)
  have k: "unat (nextQueue ?s) = Suc ?k"
    using Cons.prems(5) unat_add_lem [of "nextQueue s" 1] by (simp add: s(2))
  have other: "(Suc ?k + j) mod ?n \<noteq> ?q" if "j < length xs" for j
    using mod_add_cancel_nat [of "Suc j" ?n 0 ?k] that Cons.prems(4) n by auto
  have ok: "sizes_ok ?s" using n by (simp add: sizes_ok_def s(1))
  have IH: "\<forall>j < length xs. let i = (Suc ?k + j) mod ?n in workerQueues (submit_all l xs ?s) ! i =
        (workerQueues ?s ! i)\<lparr>unpinnedTasks := unpinnedTasks (workerQueues ?s ! i) @ [xs ! j]\<rparr>"
    "\<forall>i < ?n. (\<forall>j < length xs. i \<noteq> (Suc ?k + j) mod ?n) \<longrightarrow> workerQueues (submit_all l xs ?s) ! i = workerQueues ?s ! i"
    using Cons.IH [OF ok Cons.prems(2)] Cons.prems(3-5) by (auto simp: s(1) k)
  show ?case
  proof (intro conjI allI impI)
    fix j assume j: "j < length (x # xs)"
    show "let i = (?k + j) mod ?n in workerQueues (submit_all l (x # xs) s) ! i =
        (workerQueues s ! i)\<lparr>unpinnedTasks := unpinnedTasks (workerQueues s ! i) @ [(x # xs) ! j]\<rparr>"
    proof (cases j)
      case 0
      have "?q < ?n" using n by simp
      then have "workerQueues (submit_all l xs ?s) ! ?q = workerQueues ?s ! ?q"
        using IH(2) other by metis
      then show ?thesis using 0 n by (simp add: s(1))
    next
      case (Suc m)
      with j have m: "m < length xs" by simp
      then show ?thesis using IH(1) other [OF m] Suc by (simp add: Let_def s(1))
    qed
  next
    fix i assume i: "i < ?n" and ne: "\<forall>j < length (x # xs). i \<noteq> (?k + j) mod ?n"
    have "i \<noteq> ?q" using ne by (metis add.right_neutral length_greater_0_conv list.distinct(1))
    moreover have "i \<noteq> (Suc ?k + j) mod ?n" if "j < length xs" for j
      using ne that by (metis add_Suc add_Suc_right length_Cons not_less_eq)
    ultimately show "workerQueues (submit_all l (x # xs) s) ! i = workerQueues s ! i"
      using IH(2) i by (simp add: s(1))
  qed
qed

text \<open>
  external submissions are spread evenly: as many consecutive unpinned submissions from
  outside the scheduler as there are workers put exactly one task at the end of every
  worker's queue (as long as the 64-bit counter does not wrap among them).
\<close>

theorem external_round_robin:
  assumes "sizes_ok s" and "\<not> cur_scheduler l" and "\<forall>x \<in> set xs. real_task x \<and> task_thread x = -1"
    and "length xs = length (workerQueues s)" and "unat (nextQueue s) + length xs < 2 ^ 64"
  shows "\<forall>i < length (workerQueues s). \<exists>x \<in> set xs. workerQueues (submit_all l xs s) ! i =
    (workerQueues s ! i)\<lparr>unpinnedTasks := unpinnedTasks (workerQueues s ! i) @ [x]\<rparr>"
proof (intro allI impI)
  fix i assume i: "i < length (workerQueues s)"
  then have "i \<in> (\<lambda>k. (unat (nextQueue s) + k) mod length (workerQueues s)) ` {0..<length (workerQueues s)}"
    by (subst shifted_mod_image(2)) auto
  then obtain j where "j < length xs" "i = (unat (nextQueue s) + j) mod length (workerQueues s)"
    using assms(4) by auto
  then show "\<exists>x \<in> set xs. workerQueues (submit_all l xs s) ! i =
      (workerQueues s ! i)\<lparr>unpinnedTasks := unpinnedTasks (workerQueues s ! i) @ [x]\<rparr>"
    using submit_all_round_robin [OF assms(1-3) _ assms(5)] assms(4) by (metis nth_mem order_refl)
qed

theorem external_round_robin_witness:
  "\<exists>x \<in> set [callback_task 1 (-1), callback_task 2 (-1)].
     workerQueues (submit_all outside [callback_task 1 (-1), callback_task 2 (-1)] (sch example_sys)) ! 1 =
       new_WorkerQueue\<lparr>unpinnedTasks := [x]\<rparr>"
proof -
  have "sizes_ok (sch example_sys)" by (simp add: sizes_ok_def example_queues)
  moreover have "nextQueue (sch example_sys) = 0" by (simp add: example_sys_def empty_scheduler_def)
  ultimately show ?thesis
    using external_round_robin [of "sch example_sys" outside "[callback_task 1 (-1), callback_task 2 (-1)]"]
    by (auto simp: example_queues outside_def real_task_def callback_task_def new_WorkerQueue_def)
qed

text \<open>
  C16: in every reachable state the cached callback Fibers are distinct finished Fibers of
  their worker, no cache exceeds its limit, and the gauges reported by \<^verbatim>\<open>getReuseStats\<close> are
  exact. Resetting a cached Fiber for the next callback never panics: it succeeds unless the
  allocator's hook throws.
\<close>

theorem callback_cache_exact:
  assumes "sched_init S0" and "(sched_step acquire release)\<^sup>*\<^sup>* S0 S"
  shows "distinct (cached (sch S)) \<and>
    (\<forall>i < workers S. length (callbackFiberCache (worker S i)) \<le> unat (callbackFiberCachePerWorker (sch S))) \<and>
    callbackCachedCount (sch S) = of_nat (length (cached (sch S))) \<and>
    callbackCachedBytes (sch S) = sum_list (map (fiber_bytes (sworld S)) (cached (sch S))) \<and>
    (\<forall>p \<in> set (cached (sch S)). \<exists>f. fibers (sworld S) p = Some f \<and> fstate f = TERM_STATE \<and>
      (stack_ok P f \<longrightarrow> (case before (stackBlock f) of Some e \<Rightarrow> reset before p cb (sworld S) = Inl e
        | None \<Rightarrow> \<exists>w'. reset before p cb (sworld S) = Inr w')))"
proof -
  have inv: "cache_inv (sch S) (sworld S)" by (rule caches.inv_reachable [OF assms])
  have "\<exists>f. fibers (sworld S) p = Some f \<and> fstate f = TERM_STATE \<and>
      (stack_ok P f \<longrightarrow> (case before (stackBlock f) of Some e \<Rightarrow> reset before p cb (sworld S) = Inl e
        | None \<Rightarrow> \<exists>w'. reset before p cb (sworld S) = Inr w'))" if "p \<in> set (cached (sch S))" for p
  proof -
    from that obtain i f where f: "fibers (sworld S) p = Some f"
      and r: "IsReusableSchedulerCallback (ownerId (sch S)) (of_nat i) f" by (rule cached_alive [OF inv])
    moreover have "case before (stackBlock f) of Some e \<Rightarrow> reset before p cb (sworld S) = Inl e
        | None \<Rightarrow> \<exists>w'. reset before p cb (sworld S) = Inr w'" if "stack_ok P f"
      using cached_reset [OF inv \<open>p \<in> set (cached (sch S))\<close>, of P before cb] f that by (auto split: option.splits)
    ultimately show ?thesis by (auto simp: IsReusableSchedulerCallback_def)
  qed
  then show ?thesis using inv by (auto simp: cache_inv_def)
qed

text \<open>The worker runs the task to its end and caches the Fiber.\<close>

definition example_sys5 :: "(PooledImpl \<times> memory) sched_sys" where
  "example_sys5 = (goto 0 (Run_resumed 2) example_sys4)\<lparr>sworld :=
     upd_fiber 2 example_cb_done (sworld example_sys4)\<rparr>"

definition example_sys6 :: "(PooledImpl \<times> memory) sched_sys" where
  "example_sys6 = goto 0 Run_fetch (example_sys5\<lparr>sch :=
     fst (tryCacheCallbackFiber 1 True 0 (Some 2) (sworld example_sys5) (sch example_sys5))\<rparr>)"

lemma example_sys4_fields:
  "workerQueues (sch example_sys4) = [new_WorkerQueue\<lparr>worker_threadId := 7, active := True\<rparr>, new_WorkerQueue]"
  "pcs example_sys4 0 = Run_fiber 2" "ownerId (sch example_sys4) = 1" "callbackFiberCachePerWorker (sch example_sys4) = 1"
  "callbackCachedCount (sch example_sys4) = 0"
  "fibers (sworld example_sys4) 2 = Some example_cb_fiber" "sch example_sys5 = sch example_sys4"
  "fibers (sworld example_sys5) 2 = Some example_cb_done"
proof -
  show "workerQueues (sch example_sys4) = [new_WorkerQueue\<lparr>worker_threadId := 7, active := True\<rparr>, new_WorkerQueue]"
    by (simp add: example_sys4_def example_queues new_WorkerQueue_def)
  show "pcs example_sys4 0 = Run_fiber 2" by (simp add: example_sys4_def run_dispatch_def example_task_def fiber_task_def)
  have "real_task example_task" by (simp add: real_task_def example_task_def fiber_task_def)
  then have "ownerId (sch example_sys1) = 1 \<and> callbackFiberCachePerWorker (sch example_sys1) = 1 \<and>
      callbackCachedCount (sch example_sys1) = 0"
    by (simp add: example_sys1_def enqueueTask_alt Let_def example_sys_def empty_scheduler_def)
  then show "ownerId (sch example_sys4) = 1" "callbackFiberCachePerWorker (sch example_sys4) = 1"
    "callbackCachedCount (sch example_sys4) = 0"
    by (simp_all add: example_sys4_def example_sys3_def example_sys2_def)
  show "fibers (sworld example_sys4) 2 = Some example_cb_fiber" "sch example_sys5 = sch example_sys4"
    "fibers (sworld example_sys5) 2 = Some example_cb_done"
    by (simp_all add: example_sys5_def example_sys4_def example_sys3_def example_sys2_def example_sys1_def example_sys_def)
qed

lemma example_sys6_steps: "example_sched_step\<^sup>*\<^sup>* example_sys example_sys6"
proof -
  have c: "cached (sch example_sys4) = []" by (simp add: cached_def example_sys4_fields new_WorkerQueue_def)
  have 1: "example_sched_step example_sys4 (goto 0 (Run_resumed 2) example_sys4)"
    by (rule sched_step.ss_fiber)
      (auto simp: example_sys4_fields run_fiber_check_def example_cb_fiber_def MarkSchedulerCallback_def
        example_fiber_def new_fiber_def)
  have 2: "example_sched_step (goto 0 (Run_resumed 2) example_sys4) example_sys5"
    unfolding example_sys5_def by (rule sched_step.ss_world) (simp add: c)
  have 3: "example_sched_step example_sys5 example_sys6"
    unfolding example_sys6_def
    by (rule sched_step.ss_returned [where uses = 1 and push = True])
      (auto simp: example_sys4_fields c example_cb_done_def example_cb_fiber_def MarkSchedulerCallback_def
        example_fiber_def new_fiber_def prod_eq_iff example_sys5_def)
  from example_sys_steps 1 2 3 show ?thesis by (meson rtranclp.rtrancl_into_rtrancl)
qed

lemma example_sys6_cached: "cached (sch example_sys6) = [2]"
  by (simp add: example_sys6_def tryCacheCallbackFiber_def example_sys4_fields IsReusableSchedulerCallback_def
      example_cb_done_def example_cb_fiber_def MarkSchedulerCallback_def example_fiber_def new_fiber_def
      new_WorkerQueue_def cached_def Let_def)

theorem callback_cache_exact_witness:
  "cached (sch example_sys6) = [2] \<and> callbackCachedCount (sch example_sys6) = 1"
  using callback_cache_exact [OF example_sys_init example_sys6_steps] by (simp add: example_sys6_cached)



lemma clear_workers_pool:
  "clear_workers destroy is (s, w) = Inr (s', w') \<Longrightarrow> threadPool s' = threadPool s"
proof (induction "is" arbitrary: s w)
  case (Cons i "is")
  then show ?case
    by (auto simp: bind_res_Inr_iff clear_worker_def Let_def fold_gauge_off upd_worker_def)
qed simp

text \<open>
  the end of \<^verbatim>\<open>stop\<close> cannot fail in a reachable state: every cached Fiber is destroyed,
  its stack goes back to the pool, and both gauges end at zero.
\<close>

theorem stop_releases_caches:
  assumes "sched_init S0" and "(sched_step (Pooled_acquire P) (Pooled_release P ins))\<^sup>*\<^sup>* S0 S"
    and "fiber_owns (pool_owns P) P (sworld S)"
  shows "\<exists>s' w'. stop_end (Fiber_destroy (Pooled_release P ins) t) (sch S, sworld S) = Inr (s', w') \<and>
    cached s' = [] \<and> callbackCachedCount s' = 0 \<and> callbackCachedBytes s' = 0 \<and> threadPool s' = [] \<and>
    fiber_owns (pool_owns P) P w'"
proof -
  have inv: "cache_inv (sch S) (sworld S)" by (rule caches.inv_reachable [OF assms(1,2)])
  then have "cache_inv ((sch S)\<lparr>threadPool := []\<rparr>) (sworld S)" by (rule cache_inv_cong) simp_all
  from pooled.clearCallbackFiberCaches_ok [OF this assms(3), of ins t] obtain s' w' where
    c: "clearCallbackFiberCaches (Fiber_destroy (Pooled_release P ins) t) ((sch S)\<lparr>threadPool := []\<rparr>, sworld S) = Inr (s', w')"
      "cached s' = []" "callbackCachedCount s' = 0" "callbackCachedBytes s' = 0" "fiber_owns (pool_owns P) P w'"
    by blast
  moreover have "threadPool s' = []" using clear_workers_pool [OF c(1) [unfolded clearCallbackFiberCaches_def]] by simp
  ultimately show ?thesis by (auto simp: stop_end_def)
qed

theorem stop_releases_caches_witness:
  "\<exists>s' w'. stop_end (Fiber_destroy (Pooled_release example_platform Insert_ok) 0)
     (sch example_sys6, sworld example_sys6) = Inr (s', w') \<and> cached s' = [] \<and> callbackCachedBytes s' = 0"
proof -
  have "fiber_owns (pool_owns example_platform) example_platform example_running"
    using pooled.fibers.inv_reachable [OF example_start example_steps] by simp
  then have "fiber_owns (pool_owns example_platform) example_platform (sworld example_sys6)"
  proof (rule fiber_owns_cong)
    have w: "sworld example_sys6 = upd_fiber 2 example_cb_done (upd_fiber 2 example_cb_fiber example_created)"
      by (simp add: example_sys6_def example_sys5_def example_sys4_def example_sys3_def example_sys2_def
          example_sys1_def example_sys_def)
    show "allocator (sworld example_sys6) = allocator example_running"
      "fiber_count (sworld example_sys6) = fiber_count example_running" by (simp_all add: w example_running_def)
    show "map_option stack_part (fibers (sworld example_sys6) q) = map_option stack_part (fibers example_running q)" for q
      by (simp add: w example_running_def example_new stack_part_def example_cb_done_def example_cb_fiber_def
          MarkSchedulerCallback_def)
  qed
  then show ?thesis using stop_releases_caches [OF example_sys_init example_sys6_steps, of 0] by blast
qed

end
