(* ===== verification/Timer.thy ===== *)
theory Timer
  imports Pulsar_Prelude
begin

text \<open>
  Model of \<^verbatim>\<open>timer.hpp\<close> and \<^verbatim>\<open>timer.cpp\<close>: timer objects, the four timing wheels and the
  ordered set behind them, insertion, the expiry pass with its cascade, the hint
  \<^verbatim>\<open>earliestNext_\<close> and \<^verbatim>\<open>getNextTimer\<close>, cancellation. Times are 64-bit words and wrap as
  \<^verbatim>\<open>uint64_t\<close> does. \<^verbatim>\<open>GetElapsedMS()\<close> is a parameter: \<open>clk k\<close> is the value of the \<open>k\<close>-th
  reading, and \<open>reads\<close> counts the readings. Each definition is the body of one critical
  section of the manager's lock, or code outside of it.
\<close>

section \<open>State\<close>

type_synonym clock = "nat \<Rightarrow> u64"
type_synonym timer_id = nat
type_synonym tcallback = nat

record Timer =
  timer_recurring :: bool
  timer_ms :: u64
  timer_next :: u64
  timer_cb :: "tcallback option"
  timer_cancelled :: bool

text \<open>
  The timer objects by address, and the manager. \<open>wheel0\<close> has 256 slots of one millisecond;
  slots of the upper wheels cover \<open>2^8\<close>, \<open>2^14\<close> and \<open>2^20\<close> milliseconds; \<open>timers\<close> is the ordered
  set in iteration order.
\<close>

record TimerManager =
  tobj :: "timer_id \<Rightarrow> Timer"
  wheel0 :: "timer_id list list"
  wheel1 :: "timer_id list list"
  wheel2 :: "timer_id list list"
  wheel3 :: "timer_id list list"
  timers :: "timer_id list"
  earliestNext :: u64
  tickled :: bool
  previouseTime :: u64
  reads :: nat

text \<open>\<^verbatim>\<open>~0ull\<close>\<close>

definition no_deadline :: u64 where
  "no_deadline = - 1"

definition GetElapsedMS :: "clock \<Rightarrow> TimerManager \<Rightarrow> u64 \<times> TimerManager" where
  "GetElapsedMS clk m = (clk (reads m), m\<lparr>reads := Suc (reads m)\<rparr>)"

definition upd_timer :: "timer_id \<Rightarrow> (Timer \<Rightarrow> Timer) \<Rightarrow> TimerManager \<Rightarrow> TimerManager" where
  "upd_timer p g m = m\<lparr>tobj := (tobj m)(p := g (tobj m p))\<rparr>"

text \<open>The ordering of the set; \<open>None\<close> is a null pointer.\<close>

definition Comparator :: "(timer_id \<Rightarrow> Timer) \<Rightarrow> timer_id option \<Rightarrow> timer_id option \<Rightarrow> bool" where
  "Comparator obj lhs rhs =
     (case (lhs, rhs) of
        (None, None) \<Rightarrow> False
      | (None, Some _) \<Rightarrow> True
      | (Some _, None) \<Rightarrow> False
      | (Some p, Some q) \<Rightarrow>
          if timer_next (obj p) < timer_next (obj q) then True
          else if timer_next (obj q) < timer_next (obj p) then False
          else p < q)"

fun set_insert :: "(timer_id \<Rightarrow> Timer) \<Rightarrow> timer_id \<Rightarrow> timer_id list \<Rightarrow> timer_id list" where
  "set_insert obj p [] = [p]"
| "set_insert obj p (q # qs) =
     (if Comparator obj (Some p) (Some q) then p # q # qs
      else if Comparator obj (Some q) (Some p) then q # set_insert obj p qs
      else q # qs)"

section \<open>Creation and cancellation\<close>

definition TimerManager_new :: "clock \<Rightarrow> TimerManager" where
  "TimerManager_new clk = \<lparr>tobj = (\<lambda>p. \<lparr>timer_recurring = False, timer_ms = 0, timer_next = 0, timer_cb = None, timer_cancelled = False\<rparr>),
     wheel0 = replicate 256 [], wheel1 = replicate 64 [], wheel2 = replicate 64 [],
     wheel3 = replicate 64 [], timers = [], earliestNext = no_deadline, tickled = False,
     previouseTime = clk 0, reads = 1\<rparr>"

definition Timer_new ::
  "clock \<Rightarrow> timer_id \<Rightarrow> u64 \<Rightarrow> tcallback \<Rightarrow> bool \<Rightarrow> TimerManager \<Rightarrow> TimerManager" where
  "Timer_new clk p n c r m =
     (let (now, m) = GetElapsedMS clk m in
      upd_timer p (\<lambda>_. \<lparr>timer_recurring = r, timer_ms = n, timer_next = now + n, timer_cb = Some c, timer_cancelled = False\<rparr>) m)"

text \<open>\<^verbatim>\<open>Timer::cancel\<close> is the exchange of the flag and, for the winner, a write under the lock.\<close>

definition cancel_flag :: "timer_id \<Rightarrow> TimerManager \<Rightarrow> TimerManager \<times> bool" where
  "cancel_flag p m = (upd_timer p (\<lambda>t. t\<lparr>timer_cancelled := True\<rparr>) m, \<not> timer_cancelled (tobj m p))"

definition cancel_clear :: "timer_id \<Rightarrow> TimerManager \<Rightarrow> TimerManager" where
  "cancel_clear p m = upd_timer p (\<lambda>t. t\<lparr>timer_cb := None\<rparr>) m"

definition cancel :: "timer_id \<Rightarrow> TimerManager \<Rightarrow> TimerManager \<times> bool" where
  "cancel p m =
     (case cancel_flag p m of
        (m, False) \<Rightarrow> (m, False)
      | (m, True) \<Rightarrow> (cancel_clear p m, True))"

section \<open>Insertion\<close>

definition updateEarliestNext :: "u64 \<Rightarrow> TimerManager \<Rightarrow> TimerManager" where
  "updateEarliestNext n m = (if n < earliestNext m then m\<lparr>earliestNext := n\<rparr> else m)"

definition push_slot :: "nat \<Rightarrow> timer_id \<Rightarrow> timer_id list list \<Rightarrow> timer_id list list" where
  "push_slot i p ws = ws[i := ws ! i @ [p]]"

definition slot0 :: "u64 \<Rightarrow> nat" where "slot0 n = unat (n AND 0xFF)"
definition slot1 :: "u64 \<Rightarrow> nat" where "slot1 n = unat (drop_bit 8 n AND 0x3F)"
definition slot2 :: "u64 \<Rightarrow> nat" where "slot2 n = unat (drop_bit 14 n AND 0x3F)"
definition slot3 :: "u64 \<Rightarrow> nat" where "slot3 n = unat (drop_bit 20 n AND 0x3F)"

definition place :: "u64 \<Rightarrow> timer_id \<Rightarrow> TimerManager \<Rightarrow> TimerManager" where
  "place diff p m =
     (let n = timer_next (tobj m p) in
      if diff < 256 then m\<lparr>wheel0 := push_slot (slot0 n) p (wheel0 m)\<rparr>
      else if diff < 2 ^ 14 then m\<lparr>wheel1 := push_slot (slot1 n) p (wheel1 m)\<rparr>
      else if diff < 2 ^ 20 then m\<lparr>wheel2 := push_slot (slot2 n) p (wheel2 m)\<rparr>
      else if diff < 2 ^ 26 then m\<lparr>wheel3 := push_slot (slot3 n) p (wheel3 m)\<rparr>
      else m\<lparr>timers := set_insert (tobj m) p (timers m)\<rparr>)"

definition insertToWheel :: "clock \<Rightarrow> timer_id \<Rightarrow> TimerManager \<Rightarrow> TimerManager" where
  "insertToWheel clk p m =
     (let (now_ms, m) = GetElapsedMS clk m;
          n = timer_next (tobj m p);
          diff = (if n > now_ms then n - now_ms else 0);
          m = updateEarliestNext n m in
      place diff p m)"

text \<open>
  The locked \<^verbatim>\<open>addTimer\<close>; the result says whether \<^verbatim>\<open>OnTimerInsertedAtFront()\<close> is called.
\<close>

definition addTimer_locked :: "clock \<Rightarrow> timer_id \<Rightarrow> TimerManager \<Rightarrow> TimerManager \<times> bool" where
  "addTimer_locked clk p m =
     (let at_front = timer_next (tobj m p) < earliestNext m;
          m = insertToWheel clk p m in
      if at_front \<and> \<not> tickled m then (m\<lparr>tickled := True\<rparr>, True) else (m, False))"

definition addTimer ::
  "clock \<Rightarrow> timer_id \<Rightarrow> u64 \<Rightarrow> tcallback \<Rightarrow> bool \<Rightarrow> TimerManager \<Rightarrow> TimerManager \<times> bool" where
  "addTimer clk p n c r m = addTimer_locked clk p (Timer_new clk p n c r m)"

text \<open>A condition timer runs its callback only while the condition object is alive.\<close>

definition OnTimer :: "bool \<Rightarrow> tcallback \<Rightarrow> tcallback list" where
  "OnTimer alive c = (if alive then [c] else [])"

definition addConditionTimer ::
  "('cond \<Rightarrow> tcallback \<Rightarrow> tcallback) \<Rightarrow> clock \<Rightarrow> timer_id \<Rightarrow> u64 \<Rightarrow> tcallback \<Rightarrow> 'cond \<Rightarrow> bool \<Rightarrow>
     TimerManager \<Rightarrow> TimerManager \<times> bool" where
  "addConditionTimer bind clk p n c weak_cond r m = addTimer clk p n (bind weak_cond c) r m"

definition getNextTimer :: "clock \<Rightarrow> TimerManager \<Rightarrow> u64 \<times> TimerManager" where
  "getNextTimer clk m =
     (let m = m\<lparr>tickled := False\<rparr>;
          earliest = earliestNext m;
          (now_ms, m) = GetElapsedMS clk m;
          earliest = (if earliest = no_deadline then
                        (case timers m of [] \<Rightarrow> earliest | p # _ \<Rightarrow> timer_next (tobj m p))
                      else earliest) in
      (if earliest = no_deadline then no_deadline
       else if now_ms \<ge> earliest then 0
       else earliest - now_ms, m))"

section \<open>Expiry\<close>

text \<open>What happens to a timer that has expired, besides its callback being collected.\<close>

definition expire :: "clock \<Rightarrow> u64 \<Rightarrow> timer_id \<Rightarrow> TimerManager \<Rightarrow> TimerManager" where
  "expire clk now_ms p m =
     (if timer_recurring (tobj m p)
      then insertToWheel clk p (upd_timer p (\<lambda>t. t\<lparr>timer_next := now_ms + timer_ms t, timer_cancelled := False\<rparr>) m)
      else upd_timer p (\<lambda>t. t\<lparr>timer_cb := None, timer_cancelled := True\<rparr>) m)"

definition collect :: "timer_id \<Rightarrow> TimerManager \<Rightarrow> tcallback list \<Rightarrow> tcallback list" where
  "collect p m cbs = (case timer_cb (tobj m p) of Some c \<Rightarrow> cbs @ [c] | None \<Rightarrow> cbs)"

text \<open>
  The loop over slot \<open>i\<close> of \<open>wheel0\<close>. An insertion into that very slot grows the vector the
  range-for is walking over, which invalidates its iterators.
\<close>

fun slot_loop ::
  "clock \<Rightarrow> u64 \<Rightarrow> nat \<Rightarrow> timer_id list \<Rightarrow> timer_id list \<Rightarrow> u64 \<Rightarrow> tcallback list \<Rightarrow> TimerManager \<Rightarrow>
     (timer_id list \<times> u64 \<times> tcallback list \<times> TimerManager) result" where
  "slot_loop clk now_ms i [] remaining nextEarliest cbs m = Inr (remaining, nextEarliest, cbs, m)"
| "slot_loop clk now_ms i (p # ps) remaining nextEarliest cbs m =
     (if timer_cancelled (tobj m p) then slot_loop clk now_ms i ps remaining nextEarliest cbs m
      else if timer_next (tobj m p) \<le> now_ms then
        (let m' = expire clk now_ms p m in
         if wheel0 m' ! i \<noteq> wheel0 m ! i
         then Inl (Undefined ''push_back into the slot being iterated'')
         else slot_loop clk now_ms i ps remaining nextEarliest (collect p m cbs) m')
      else
        slot_loop clk now_ms i ps (remaining @ [p])
          (if timer_next (tobj m p) < nextEarliest then timer_next (tobj m p) else nextEarliest) cbs m)"

fun wheel0_loop ::
  "clock \<Rightarrow> u64 \<Rightarrow> nat list \<Rightarrow> u64 \<Rightarrow> tcallback list \<Rightarrow> TimerManager \<Rightarrow>
     (u64 \<times> tcallback list \<times> TimerManager) result" where
  "wheel0_loop clk now_ms [] nextEarliest cbs m = Inr (nextEarliest, cbs, m)"
| "wheel0_loop clk now_ms (i # is) nextEarliest cbs m =
     (if wheel0 m ! i = [] then wheel0_loop clk now_ms is nextEarliest cbs m
      else bind_res (slot_loop clk now_ms i (wheel0 m ! i) [] nextEarliest cbs m)
        (\<lambda>(remaining, nextEarliest, cbs, m).
           wheel0_loop clk now_ms is nextEarliest cbs (m\<lparr>wheel0 := (wheel0 m)[i := remaining]\<rparr>)))"

datatype upper_wheel = W1 | W2 | W3

definition get_wheel :: "upper_wheel \<Rightarrow> TimerManager \<Rightarrow> timer_id list list" where
  "get_wheel k m = (case k of W1 \<Rightarrow> wheel1 m | W2 \<Rightarrow> wheel2 m | W3 \<Rightarrow> wheel3 m)"

definition set_wheel :: "upper_wheel \<Rightarrow> timer_id list list \<Rightarrow> TimerManager \<Rightarrow> TimerManager" where
  "set_wheel k ws m = (case k of W1 \<Rightarrow> m\<lparr>wheel1 := ws\<rparr> | W2 \<Rightarrow> m\<lparr>wheel2 := ws\<rparr> | W3 \<Rightarrow> m\<lparr>wheel3 := ws\<rparr>)"

fun reinsert :: "clock \<Rightarrow> timer_id list \<Rightarrow> TimerManager \<Rightarrow> TimerManager" where
  "reinsert clk [] m = m"
| "reinsert clk (p # ps) m =
     reinsert clk ps (if timer_cancelled (tobj m p) then m else insertToWheel clk p m)"

fun cascade_loop :: "clock \<Rightarrow> upper_wheel \<Rightarrow> nat list \<Rightarrow> TimerManager \<Rightarrow> TimerManager" where
  "cascade_loop clk k [] m = m"
| "cascade_loop clk k (i # is) m =
     (if get_wheel k m ! i = [] then cascade_loop clk k is m
      else
        (let toInsert = get_wheel k m ! i;
             m = set_wheel k ((get_wheel k m)[i := []]) m in
         cascade_loop clk k is (reinsert clk toInsert m)))"

definition cascade :: "clock \<Rightarrow> upper_wheel \<Rightarrow> TimerManager \<Rightarrow> TimerManager" where
  "cascade clk k m = cascade_loop clk k [0..<length (get_wheel k m)] m"

text \<open>The loop over the ordered set; \<open>None\<close> is running out of fuel.\<close>

fun tree_loop ::
  "nat \<Rightarrow> clock \<Rightarrow> u64 \<Rightarrow> tcallback list \<Rightarrow> TimerManager \<Rightarrow> (tcallback list \<times> TimerManager) option" where
  "tree_loop 0 clk now_ms cbs m = None"
| "tree_loop (Suc fuel) clk now_ms cbs m =
     (case timers m of
        [] \<Rightarrow> Some (cbs, m)
      | p # rest \<Rightarrow>
          if timer_next (tobj m p) \<le> now_ms then
            (let m = m\<lparr>timers := rest\<rparr> in
             if timer_cancelled (tobj m p) then tree_loop fuel clk now_ms cbs m
             else tree_loop fuel clk now_ms (collect p m cbs) (expire clk now_ms p m))
          else Some (cbs, m))"

text \<open>
  One pass. The ordered set shrinks by one timer per iteration and, the clock being
  monotonic, gets none back that has expired, so its length plus one is enough fuel.
\<close>

definition advanceWheel ::
  "clock \<Rightarrow> u64 \<Rightarrow> tcallback list \<Rightarrow> TimerManager \<Rightarrow> (tcallback list \<times> TimerManager) result option" where
  "advanceWheel clk now_ms cbs m =
     (case wheel0_loop clk now_ms [0..<length (wheel0 m)] no_deadline cbs m of
        Inl e \<Rightarrow> Some (Inl e)
      | Inr (nextEarliest, cbs, m) \<Rightarrow>
          (let m = cascade clk W1 m; m = cascade clk W2 m; m = cascade clk W3 m in
           case tree_loop (Suc (length (timers m))) clk now_ms cbs m of
             None \<Rightarrow> None
           | Some (cbs, m) \<Rightarrow>
               (let nextEarliest =
                  (case timers m of
                     [] \<Rightarrow> nextEarliest
                   | p # _ \<Rightarrow> if timer_next (tobj m p) < nextEarliest then timer_next (tobj m p) else nextEarliest) in
                Some (Inr (cbs, m\<lparr>earliestNext := nextEarliest\<rparr>)))))"

definition detectClockRolllover :: "u64 \<Rightarrow> TimerManager \<Rightarrow> bool \<times> TimerManager" where
  "detectClockRolllover now_ms m =
     (now_ms < previouseTime m \<and> now_ms < previouseTime m - 60 * 60 * 1000, m\<lparr>previouseTime := now_ms\<rparr>)"

definition listExpiredCb ::
  "clock \<Rightarrow> tcallback list \<Rightarrow> TimerManager \<Rightarrow> (tcallback list \<times> TimerManager) result option" where
  "listExpiredCb clk cbs m =
     (let (now_ms, m) = GetElapsedMS clk m;
          (rollover, m) = detectClockRolllover now_ms m in
      advanceWheel clk now_ms cbs m)"

end
