(* ===== verification/Timer_Wheels.thy ===== *)
theory Timer_Wheels
  imports Timer
begin

text \<open>
  The invariant of the timing wheels and what the loops of the expiry pass do: which timers
  they fire, which they keep and where, and that none is lost.
\<close>


section \<open>What the manager stores\<close>

definition stored :: "TimerManager \<Rightarrow> timer_id multiset" where
  "stored m = mset (concat (wheel0 m)) + mset (concat (wheel1 m)) + mset (concat (wheel2 m)) +
     mset (concat (wheel3 m)) + mset (timers m)"

definition shape :: "TimerManager \<Rightarrow> bool" where
  "shape m \<longleftrightarrow> length (wheel0 m) = 256 \<and> length (wheel1 m) = 64 \<and> length (wheel2 m) = 64 \<and> length (wheel3 m) = 64"

text \<open>No timer is stored twice, and the set is in the order of its comparator.\<close>

definition ordered :: "(timer_id \<Rightarrow> Timer) \<Rightarrow> timer_id list \<Rightarrow> bool" where
  "ordered obj ps \<longleftrightarrow> sorted_wrt (\<lambda>p q. Comparator obj (Some p) (Some q)) ps"

definition wheels_inv :: "TimerManager \<Rightarrow> bool" where
  "wheels_inv m \<longleftrightarrow> shape m \<and> (\<forall>p. count (stored m) p \<le> 1) \<and> ordered (tobj m) (timers m)"

lemma slot_bounds: "slot0 n < 256" "slot1 n < 64" "slot2 n < 64" "slot3 n < 64"
proof -
  have "unat (x AND 0xFF) < 256" for x :: u64
    using word_and_le1 [of x "0xFF"] by (simp add: word_le_nat_alt)
  then show "slot0 n < 256" by (simp add: slot0_def)
  have "unat (x AND 0x3F) < 64" for x :: u64
    using word_and_le1 [of x "0x3F"] by (simp add: word_le_nat_alt)
  then show "slot1 n < 64" "slot2 n < 64" "slot3 n < 64" by (simp_all add: slot1_def slot2_def slot3_def)
qed

subsection \<open>The ordered set\<close>

lemma Comparator_Some:
  "Comparator obj (Some p) (Some q) \<longleftrightarrow>
     timer_next (obj p) < timer_next (obj q) \<or> timer_next (obj p) = timer_next (obj q) \<and> p < q"
  by (auto simp: Comparator_def)

lemma Comparator_cong:
  "timer_next (obj p) = timer_next (obj' p) \<Longrightarrow> timer_next (obj q) = timer_next (obj' q) \<Longrightarrow>
     Comparator obj (Some p) (Some q) = Comparator obj' (Some p) (Some q)"
  by (simp add: Comparator_Some)

lemma mset_set_insert: "p \<notin> set qs \<Longrightarrow> mset (set_insert obj p qs) = add_mset p (mset qs)"
proof (induction qs)
  case (Cons q qs)
  then have "Comparator obj (Some p) (Some q) \<or> Comparator obj (Some q) (Some p)"
    by (auto simp: Comparator_Some)
  with Cons show ?case by auto
qed simp

lemma set_set_insert: "p \<notin> set qs \<Longrightarrow> set (set_insert obj p qs) = insert p (set qs)"
  by (metis mset_set_insert set_mset_add_mset_insert set_mset_mset)

lemma ordered_set_insert: "ordered obj qs \<Longrightarrow> ordered obj (set_insert obj p qs)"
proof (induction qs)
  case (Cons q qs)
  have *: "x = p \<or> x \<in> set qs" if "x \<in> set (set_insert obj p qs)" for x qs
    using that by (induction qs) (auto split: if_splits)
  show ?case
  proof (cases "Comparator obj (Some p) (Some q)")
    case True
    with Cons.prems show ?thesis by (auto simp: ordered_def Comparator_Some)
  next
    case False
    with Cons show ?thesis by (auto simp: ordered_def dest!: *)
  qed
qed (simp add: ordered_def)

lemma ordered_cong:
  assumes "\<And>p. p \<in> set ps \<Longrightarrow> timer_next (obj p) = timer_next (obj' p)"
  shows "ordered obj ps = ordered obj' ps"
  unfolding ordered_def
  using assms by (auto elim!: sorted_wrt_mono_rel [rotated] simp: Comparator_Some)

lemma ordered_Cons:
  "ordered obj (p # ps) \<Longrightarrow> ordered obj ps \<and> (\<forall>q \<in> set ps. timer_next (obj p) \<le> timer_next (obj q))"
  by (auto simp: ordered_def Comparator_Some)

subsection \<open>Insertion\<close>

lemma mset_push_slot:
  assumes "i < length ws"
  shows "mset (concat (push_slot i p ws)) = add_mset p (mset (concat ws))"
proof -
  have "mset (concat (push_slot i p ws)) + mset (ws ! i) = mset (concat ws) + mset (ws ! i @ [p])"
    using mset_concat_update [OF assms, of "\<lambda>x. x" "ws ! i @ [p]"] by (simp add: push_slot_def)
  then show ?thesis by simp
qed

lemma push_slot_nth: "push_slot i p ws ! j = ws ! j \<or> push_slot i p ws ! j = ws ! j @ [p]"
  by (cases "j = i"; cases "i < length ws") (simp_all add: push_slot_def list_update_beyond)

text \<open>All that the passes need to know of an insertion at a clock reading of \<open>now\<close> or later.\<close>

definition inserted :: "u64 \<Rightarrow> timer_id \<Rightarrow> TimerManager \<Rightarrow> TimerManager \<Rightarrow> bool" where
  "inserted now p m m' \<longleftrightarrow> tobj m' = tobj m \<and> shape m' \<and> stored m' = add_mset p (stored m) \<and>
     (ordered (tobj m) (timers m) \<longrightarrow> ordered (tobj m') (timers m')) \<and>
     (timers m' = timers m \<or> set (timers m') = insert p (set (timers m)) \<and> now < timer_next (tobj m p)) \<and>
     (\<forall>j. wheel0 m' ! j = wheel0 m ! j \<or> wheel0 m' ! j = wheel0 m ! j @ [p]) \<and>
     (\<forall>k j. get_wheel k m' ! j = get_wheel k m ! j \<or>
        get_wheel k m' ! j = get_wheel k m ! j @ [p] \<and> now < timer_next (tobj m p)) \<and>
     (timer_next (tobj m p) \<le> now \<longrightarrow> p \<in> set (concat (wheel0 m'))) \<and>
     reads m \<le> reads m' \<and> earliestNext m' \<le> earliestNext m \<and> earliestNext m' \<le> timer_next (tobj m p)"

lemma insertToWheel_inserted:
  assumes sh: "shape m" and p: "p \<notin> set (timers m)" and now: "now \<le> clk (reads m)"
  shows "inserted now p m (insertToWheel clk p m)"
proof -
  define n where "n = timer_next (tobj m p)"
  define e where "e = (if n < earliestNext m then n else earliestNext m)"
  define m1 where "m1 = m\<lparr>reads := Suc (reads m), earliestNext := e\<rparr>"
  define d where "d = (if n > clk (reads m) then n - clk (reads m) else 0)"
  have ins: "insertToWheel clk p m = place d p m1"
    by (simp add: insertToWheel_def GetElapsedMS_def Let_def updateEarliestNext_def m1_def n_def d_def e_def)
  have e: "e \<le> earliestNext m" "e \<le> n" by (auto simp: e_def)
  have m1: "tobj m1 = tobj m" "wheel0 m1 = wheel0 m" "wheel1 m1 = wheel1 m" "wheel2 m1 = wheel2 m"
    "wheel3 m1 = wheel3 m" "timers m1 = timers m" "reads m1 = Suc (reads m)" "earliestNext m1 = e"
    by (simp_all add: m1_def)
  have len: "length (push_slot i p ws) = length ws" for i ws by (simp add: push_slot_def)
  have d0: "d = 0" if "n \<le> now" using that now by (auto simp: d_def)
  have dt: "now < n" if "\<not> d < 256" using that now by (auto simp: d_def split: if_splits)
  have w0: "p \<in> set (concat (push_slot (slot0 n) p (wheel0 m)))"
    using sh slot_bounds(1) [of n] mset_push_slot [of "slot0 n" "wheel0 m" p]
    by (metis shape_def set_mset_mset set_mset_add_mset_insert insertI1)
  have mp: "mset (concat (push_slot (slot0 n) p (wheel0 m))) = add_mset p (mset (concat (wheel0 m)))"
    "mset (concat (push_slot (slot1 n) p (wheel1 m))) = add_mset p (mset (concat (wheel1 m)))"
    "mset (concat (push_slot (slot2 n) p (wheel2 m))) = add_mset p (mset (concat (wheel2 m)))"
    "mset (concat (push_slot (slot3 n) p (wheel3 m))) = add_mset p (mset (concat (wheel3 m)))"
    using sh slot_bounds by (simp_all add: mset_push_slot shape_def)
  consider (a) "d < 256" | (b) "\<not> d < 256" "d < 2 ^ 14" | (c) "\<not> d < 256" "\<not> d < 2 ^ 14" "d < 2 ^ 20"
    | (d) "\<not> d < 256" "\<not> d < 2 ^ 14" "\<not> d < 2 ^ 20" "d < 2 ^ 26"
    | (e) "\<not> d < 256" "\<not> d < 2 ^ 14" "\<not> d < 2 ^ 20" "\<not> d < 2 ^ 26" by blast
  then show ?thesis
  proof cases
    case a
    then have "insertToWheel clk p m = m1\<lparr>wheel0 := push_slot (slot0 n) p (wheel0 m)\<rparr>"
      by (simp add: ins place_def n_def m1)
    then show ?thesis using sh w0 e mp(1)
      by (auto simp: inserted_def m1 shape_def stored_def len get_wheel_def push_slot_nth n_def [symmetric]
          split: upper_wheel.splits)
  next
    case b
    then have "insertToWheel clk p m = m1\<lparr>wheel1 := push_slot (slot1 n) p (wheel1 m)\<rparr>"
      by (simp add: ins place_def n_def m1)
    then show ?thesis using sh b d0 dt e mp(2)
      by (auto simp: inserted_def m1 shape_def stored_def len get_wheel_def push_slot_nth n_def [symmetric]
          split: upper_wheel.splits)
  next
    case c
    then have "insertToWheel clk p m = m1\<lparr>wheel2 := push_slot (slot2 n) p (wheel2 m)\<rparr>"
      by (simp add: ins place_def n_def m1)
    then show ?thesis using sh c d0 dt e mp(3)
      by (auto simp: inserted_def m1 shape_def stored_def len get_wheel_def push_slot_nth n_def [symmetric]
          split: upper_wheel.splits)
  next
    case d
    then have "insertToWheel clk p m = m1\<lparr>wheel3 := push_slot (slot3 n) p (wheel3 m)\<rparr>"
      by (simp add: ins place_def n_def m1)
    then show ?thesis using sh d d0 dt e mp(4)
      by (auto simp: inserted_def m1 shape_def stored_def len get_wheel_def push_slot_nth n_def [symmetric]
          split: upper_wheel.splits)
  next
    case e: e
    then have "insertToWheel clk p m = m1\<lparr>timers := set_insert (tobj m) p (timers m)\<rparr>"
      by (simp add: ins place_def n_def m1)
    then show ?thesis using sh e d0 dt \<open>e \<le> n\<close> \<open>e \<le> earliestNext m\<close>
      by (auto simp: inserted_def m1 shape_def stored_def get_wheel_def mset_set_insert [OF p]
          set_set_insert [OF p] ordered_set_insert n_def [symmetric] split: upper_wheel.splits)
  qed
qed

section \<open>The expiry pass\<close>

definition due :: "u64 \<Rightarrow> (timer_id \<Rightarrow> Timer) \<Rightarrow> timer_id \<Rightarrow> bool" where
  "due now obj p \<longleftrightarrow> \<not> timer_cancelled (obj p) \<and> timer_next (obj p) \<le> now"

definition expired :: "u64 \<Rightarrow> Timer \<Rightarrow> Timer" where
  "expired now t = (if timer_recurring t then t\<lparr>timer_next := now + timer_ms t, timer_cancelled := False\<rparr>
     else t\<lparr>timer_cb := None, timer_cancelled := True\<rparr>)"

definition again :: "u64 \<Rightarrow> (timer_id \<Rightarrow> Timer) \<Rightarrow> timer_id \<Rightarrow> bool" where
  "again now obj p \<longleftrightarrow> due now obj p \<and> timer_recurring (obj p)"

text \<open>The callbacks of the timers of \<open>ps\<close> that are due.\<close>

definition callbacks :: "u64 \<Rightarrow> (timer_id \<Rightarrow> Timer) \<Rightarrow> timer_id list \<Rightarrow> tcallback list" where
  "callbacks now obj ps = List.map_filter (\<lambda>p. timer_cb (obj p)) (filter (due now obj) ps)"

text \<open>The readings of the clock from now on are not earlier than \<open>now\<close>.\<close>

definition clock_from :: "u64 \<Rightarrow> clock \<Rightarrow> TimerManager \<Rightarrow> bool" where
  "clock_from now clk m \<longleftrightarrow> (\<forall>k \<ge> reads m. now \<le> clk k)"

lemma clock_from_later: "clock_from now clk m \<Longrightarrow> reads m \<le> reads m' \<Longrightarrow> clock_from now clk m'"
  by (simp add: clock_from_def)

lemma upd_timer_fields [simp]:
  "tobj (upd_timer p g m) = (tobj m)(p := g (tobj m p))" "wheel0 (upd_timer p g m) = wheel0 m"
  "wheel1 (upd_timer p g m) = wheel1 m" "wheel2 (upd_timer p g m) = wheel2 m" "wheel3 (upd_timer p g m) = wheel3 m"
  "timers (upd_timer p g m) = timers m" "reads (upd_timer p g m) = reads m"
  "get_wheel k (upd_timer p g m) = get_wheel k m" "stored (upd_timer p g m) = stored m" "shape (upd_timer p g m) = shape m"
  by (simp_all add: upd_timer_def get_wheel_def stored_def shape_def split: upper_wheel.split)

lemma expire_result:
  assumes sh: "shape m" and p: "p \<notin> set (timers m)" and clk: "clock_from now clk m" and m': "m' = expire clk now p m"
  shows "tobj m' = (tobj m)(p := expired now (tobj m p))" "shape m'"
    "stored m' = stored m + (if timer_recurring (tobj m p) then {#p#} else {#})"
    "ordered (tobj m) (timers m) \<Longrightarrow> ordered (tobj m') (timers m')"
    "timers m' = timers m \<or> set (timers m') = insert p (set (timers m)) \<and> timer_recurring (tobj m p) \<and>
       now < timer_next (tobj m' p)"
    "\<exists>R. wheel0 m' ! j = wheel0 m ! j @ R \<and> (R = [] \<or> R = [p] \<and> timer_recurring (tobj m p))"
    "reads m \<le> reads m'"
proof -
  let ?u = "upd_timer p (expired now) m"
  have ord: "ordered (tobj ?u) (timers m) = ordered (tobj m) (timers m)"
    using p by (intro ordered_cong) auto
  have "tobj m' = (tobj m)(p := expired now (tobj m p)) \<and> shape m' \<and>
    stored m' = stored m + (if timer_recurring (tobj m p) then {#p#} else {#}) \<and>
    (ordered (tobj m) (timers m) \<longrightarrow> ordered (tobj m') (timers m')) \<and>
    (timers m' = timers m \<or> set (timers m') = insert p (set (timers m)) \<and> timer_recurring (tobj m p) \<and>
       now < timer_next (tobj m' p)) \<and>
    (\<exists>R. wheel0 m' ! j = wheel0 m ! j @ R \<and> (R = [] \<or> R = [p] \<and> timer_recurring (tobj m p))) \<and> reads m \<le> reads m'"
  proof (cases "timer_recurring (tobj m p)")
    case True
    then have m: "m' = insertToWheel clk p ?u"
      by (simp add: m' expire_def upd_timer_def expired_def)
    have i: "inserted now p ?u m'"
      unfolding m using sh p clk by (intro insertToWheel_inserted) (simp_all add: clock_from_def)
    then have "wheel0 m' ! j = wheel0 m ! j \<or> wheel0 m' ! j = wheel0 m ! j @ [p]" by (simp add: inserted_def)
    then have "\<exists>R. wheel0 m' ! j = wheel0 m ! j @ R \<and> (R = [] \<or> R = [p] \<and> timer_recurring (tobj m p))"
      using True by (metis append_Nil2)
    moreover have "reads m \<le> reads m'" "shape m'" "tobj m' = tobj ?u" "stored m' = add_mset p (stored m)"
      "ordered (tobj ?u) (timers m) \<longrightarrow> ordered (tobj m') (timers m')"
      "timers m' = timers m \<or> set (timers m') = insert p (set (timers m)) \<and> now < timer_next (tobj ?u p)"
      using i unfolding inserted_def upd_timer_fields by blast+
    ultimately show ?thesis using True ord by auto
  next
    case False
    then have "m' = ?u" by (simp add: m' expire_def upd_timer_def expired_def)
    then show ?thesis using False ord sh by simp
  qed
  then show "tobj m' = (tobj m)(p := expired now (tobj m p))" "shape m'"
    "stored m' = stored m + (if timer_recurring (tobj m p) then {#p#} else {#})"
    "ordered (tobj m) (timers m) \<Longrightarrow> ordered (tobj m') (timers m')"
    "timers m' = timers m \<or> set (timers m') = insert p (set (timers m)) \<and> timer_recurring (tobj m p) \<and>
       now < timer_next (tobj m' p)"
    "\<exists>R. wheel0 m' ! j = wheel0 m ! j @ R \<and> (R = [] \<or> R = [p] \<and> timer_recurring (tobj m p))"
    "reads m \<le> reads m'" by blast+
qed

text \<open>What a loop over the timers \<open>ps\<close>, none of them in the ordered set, does to the manager.\<close>

definition swept :: "u64 \<Rightarrow> timer_id list \<Rightarrow> TimerManager \<Rightarrow> TimerManager \<Rightarrow> bool" where
  "swept now ps m m' \<longleftrightarrow> shape m' \<and>
     tobj m' = (\<lambda>q. if q \<in> set ps \<and> due now (tobj m) q then expired now (tobj m q) else tobj m q) \<and>
     (ordered (tobj m) (timers m) \<longrightarrow> ordered (tobj m') (timers m')) \<and> set (timers m) \<subseteq> set (timers m') \<and>
     (\<forall>q \<in> set (timers m') - set (timers m). q \<in> set ps \<and> again now (tobj m) q \<and> now < timer_next (tobj m' q)) \<and>
     reads m \<le> reads m'"

lemma sweptD:
  assumes "swept now ps m m'"
  shows "shape m'"
    and "tobj m' = (\<lambda>q. if q \<in> set ps \<and> due now (tobj m) q then expired now (tobj m q) else tobj m q)"
    and "ordered (tobj m) (timers m) \<Longrightarrow> ordered (tobj m') (timers m')"
    and "set (timers m) \<subseteq> set (timers m')"
    and "q \<in> set (timers m') \<Longrightarrow> q \<notin> set (timers m) \<Longrightarrow>
      q \<in> set ps \<and> again now (tobj m) q \<and> now < timer_next (tobj m' q)"
    and "reads m \<le> reads m'"
  using assms unfolding swept_def by blast+

lemma sweptI:
  assumes "shape m'"
    and "tobj m' = (\<lambda>q. if q \<in> set ps \<and> due now (tobj m) q then expired now (tobj m q) else tobj m q)"
    and "ordered (tobj m) (timers m) \<Longrightarrow> ordered (tobj m') (timers m')"
    and "set (timers m) \<subseteq> set (timers m')"
    and "\<And>q. q \<in> set (timers m') \<Longrightarrow> q \<notin> set (timers m) \<Longrightarrow>
      q \<in> set ps \<and> again now (tobj m) q \<and> now < timer_next (tobj m' q)"
    and "reads m \<le> reads m'"
  shows "swept now ps m m'"
  using assms unfolding swept_def by blast

lemma swept_Nil: "shape m \<Longrightarrow> swept now [] m m"
  by (simp add: swept_def)

lemma swept_skip:
  assumes "\<not> due now (tobj m) p" and "swept now ps m m'"
  shows "swept now (p # ps) m m'"
proof -
  have "(\<lambda>q. if q \<in> set (p # ps) \<and> due now (tobj m) q then expired now (tobj m q) else tobj m q) =
      (\<lambda>q. if q \<in> set ps \<and> due now (tobj m) q then expired now (tobj m q) else tobj m q)"
    using assms(1) by auto
  with assms(2) show ?thesis unfolding swept_def by (metis list.set_intros(2))
qed

lemma swept_step:
  assumes sh: "shape m" and p: "p \<notin> set (timers m)" "p \<notin> set ps" and clk: "clock_from now clk m"
    and d: "due now (tobj m) p" and s: "swept now ps (expire clk now p m) m'"
  shows "swept now (p # ps) m m'"
proof -
  let ?m = "expire clk now p m"
  note e = expire_result [OF sh p(1) clk refl] and d' = sweptD [OF s]
  show ?thesis
  proof (rule sweptI [OF d'(1)])
    show "tobj m' = (\<lambda>q. if q \<in> set (p # ps) \<and> due now (tobj m) q then expired now (tobj m q) else tobj m q)"
      unfolding d'(2) using p(2) d by (auto simp: e(1) fun_eq_iff due_def)
    show "ordered (tobj m') (timers m')" if "ordered (tobj m) (timers m)" using that e(4) d'(3) by blast
    have "set (timers m) \<subseteq> set (timers ?m)" using e(5) by auto
    then show "set (timers m) \<subseteq> set (timers m')" using d'(4) by blast
    show "reads m \<le> reads m'" using e(7) d'(6) by simp
    fix q assume q: "q \<in> set (timers m')" "q \<notin> set (timers m)"
    show "q \<in> set (p # ps) \<and> again now (tobj m) q \<and> now < timer_next (tobj m' q)"
    proof (cases "q = p")
      case True
      have "p \<in> set (timers ?m)" using d'(5) [of p] q True p(2) by blast
      then have "timer_recurring (tobj m p)" "now < timer_next (tobj ?m p)" using e(5) p(1) by auto
      moreover have "tobj m' p = tobj ?m p" using p(2) by (simp add: d'(2))
      ultimately show ?thesis using True d by (simp add: again_def)
    next
      case False
      then have "q \<notin> set (timers ?m)" using e(5) q by auto
      with q d'(5) have *: "q \<in> set ps \<and> again now (tobj ?m) q \<and> now < timer_next (tobj m' q)" by blast
      then have "again now (tobj m) q" using False by (simp add: again_def due_def e(1))
      with * show ?thesis by simp
    qed
  qed
qed

text \<open>Slots of \<open>wheel0\<close> only grew, by timers of \<open>A\<close>.\<close>

definition grown :: "timer_id set \<Rightarrow> TimerManager \<Rightarrow> TimerManager \<Rightarrow> bool" where
  "grown A m m' \<longleftrightarrow> (\<forall>j. \<exists>R. wheel0 m' ! j = wheel0 m ! j @ R \<and> set R \<subseteq> A)"

lemma grown_mono: "grown A m m' \<Longrightarrow> A \<subseteq> B \<Longrightarrow> grown B m m'"
  unfolding grown_def by (meson order_trans)

lemma grown_refl: "grown A m m"
  by (simp add: grown_def)

lemma grown_trans: "grown A m m' \<Longrightarrow> grown A m' m'' \<Longrightarrow> grown A m m''"
  unfolding grown_def by (metis append.assoc set_append Un_subset_iff)

lemma slot_loop_result:
  assumes "shape m" and "distinct ps" and "set ps \<inter> set (timers m) = {}" and "clock_from now clk m"
    and "slot_loop clk now i ps rem ne cbs m = Inr (rem', ne', cbs', m')"
  shows "swept now ps m m'"
    and "rem' = rem @ filter (\<lambda>p. \<not> timer_cancelled (tobj m p) \<and> \<not> due now (tobj m) p) ps"
    and "cbs' = cbs @ callbacks now (tobj m) ps"
    and "stored m' = stored m + mset (filter (again now (tobj m)) ps)"
    and "wheel0 m' ! i = wheel0 m ! i"
    and "grown {p \<in> set ps. again now (tobj m) p} m m'"
    and "ne' \<le> ne \<and> (\<forall>p \<in> set ps. \<not> timer_cancelled (tobj m p) \<longrightarrow> \<not> due now (tobj m) p \<longrightarrow> ne' \<le> timer_next (tobj m p))"
proof -
  have "swept now ps m m' \<and>
    rem' = rem @ filter (\<lambda>p. \<not> timer_cancelled (tobj m p) \<and> \<not> due now (tobj m) p) ps \<and>
    cbs' = cbs @ callbacks now (tobj m) ps \<and>
    stored m' = stored m + mset (filter (again now (tobj m)) ps) \<and>
    wheel0 m' ! i = wheel0 m ! i \<and>
    grown {p \<in> set ps. again now (tobj m) p} m m' \<and>
    ne' \<le> ne \<and> (\<forall>p \<in> set ps. \<not> timer_cancelled (tobj m p) \<longrightarrow> \<not> due now (tobj m) p \<longrightarrow> ne' \<le> timer_next (tobj m p))"
    using assms
  proof (induction ps arbitrary: rem ne cbs m)
    case Nil
    then show ?case by (simp add: swept_Nil callbacks_def map_filter_simps grown_refl)
  next
    case (Cons p ps)
    have p: "p \<notin> set (timers m)" "p \<notin> set ps" using Cons.prems(2,3) by auto
    consider (gone) "timer_cancelled (tobj m p)" | (due) "due now (tobj m) p"
      | (later) "\<not> timer_cancelled (tobj m p)" "\<not> due now (tobj m) p" by (auto simp: due_def)
    then show ?case
    proof cases
      case gone
      then have nd: "\<not> due now (tobj m) p" by (simp add: due_def)
      have IH: "swept now ps m m'" "rem' = rem @ filter (\<lambda>p. \<not> timer_cancelled (tobj m p) \<and> \<not> due now (tobj m) p) ps"
        "cbs' = cbs @ callbacks now (tobj m) ps" "stored m' = stored m + mset (filter (again now (tobj m)) ps)"
        "wheel0 m' ! i = wheel0 m ! i" "grown {p \<in> set ps. again now (tobj m) p} m m'"
        "ne' \<le> ne" "\<forall>p \<in> set ps. \<not> timer_cancelled (tobj m p) \<longrightarrow> \<not> due now (tobj m) p \<longrightarrow> ne' \<le> timer_next (tobj m p)"
        using Cons.IH [of m rem ne cbs] Cons.prems gone by auto
      have "grown {q \<in> set (p # ps). again now (tobj m) q} m m'" by (rule grown_mono [OF IH(6)]) auto
      with nd gone IH swept_skip [OF nd IH(1)] show ?thesis by (simp add: callbacks_def again_def)
    next
      case due
      let ?m = "expire clk now p m"
      note e = expire_result [OF Cons.prems(1) p(1) Cons.prems(4) refl]
      from due Cons.prems(5) have same: "wheel0 ?m ! i = wheel0 m ! i"
        and r: "slot_loop clk now i ps rem ne (collect p m cbs) ?m = Inr (rem', ne', cbs', m')"
        by (auto simp: due_def Let_def split: if_splits)
      have dis: "set ps \<inter> set (timers ?m) = {}" using e(5) Cons.prems(3) p(2) by auto
      have o: "tobj ?m q = tobj m q" if "q \<in> set ps" for q using that p(2) by (auto simp: e(1))
      have f: "filter (again now (tobj ?m)) ps = filter (again now (tobj m)) ps"
        "filter (due now (tobj ?m)) ps = filter (due now (tobj m)) ps"
        "filter (\<lambda>p. \<not> timer_cancelled (tobj ?m p) \<and> \<not> due now (tobj ?m) p) ps =
         filter (\<lambda>p. \<not> timer_cancelled (tobj m p) \<and> \<not> due now (tobj m) p) ps"
        by (auto simp: o again_def due_def intro!: filter_cong)
      have cb: "callbacks now (tobj ?m) ps = callbacks now (tobj m) ps"
        unfolding callbacks_def f by (auto simp: map_filter_def o intro!: map_cong filter_cong)
      have c: "collect p m cbs @ callbacks now (tobj m) ps = cbs @ callbacks now (tobj m) (p # ps)"
        using due by (simp add: collect_def callbacks_def map_filter_simps split: option.split)
      have dp: "distinct ps" using Cons.prems(2) by simp
      have IH: "swept now ps ?m m'"
        "rem' = rem @ filter (\<lambda>p. \<not> timer_cancelled (tobj m p) \<and> \<not> due now (tobj m) p) ps"
        "cbs' = collect p m cbs @ callbacks now (tobj m) ps" "stored m' = stored ?m + mset (filter (again now (tobj m)) ps)"
        "wheel0 m' ! i = wheel0 ?m ! i" "grown {p \<in> set ps. again now (tobj ?m) p} ?m m'" "ne' \<le> ne"
        "\<forall>p \<in> set ps. \<not> timer_cancelled (tobj ?m p) \<longrightarrow> \<not> due now (tobj ?m) p \<longrightarrow> ne' \<le> timer_next (tobj ?m p)"
        using Cons.IH [OF e(2) dp dis clock_from_later [OF Cons.prems(4) e(7)] r] unfolding f cb by blast+
      have "grown {q \<in> set (p # ps). again now (tobj m) q} m m'"
      proof (rule grown_trans)
        show "grown {q \<in> set (p # ps). again now (tobj m) q} m ?m"
          using e(6) due unfolding grown_def by (fastforce simp: again_def)
        show "grown {q \<in> set (p # ps). again now (tobj m) q} ?m m'"
          by (rule grown_mono [OF IH(6)]) (auto simp: o again_def due_def)
      qed
      moreover have "stored m' = stored m + mset (filter (again now (tobj m)) (p # ps))"
        using IH(4) e(3) due by (auto simp: again_def)
      moreover have "ne' \<le> timer_next (tobj m q)"
        if "q \<in> set (p # ps)" "\<not> timer_cancelled (tobj m q)" "\<not> due now (tobj m) q" for q
        using that IH(8) due o [of q] by (auto simp: due_def)
      ultimately show ?thesis
        using IH(2,3,5,7) due same swept_step [OF Cons.prems(1) p Cons.prems(4) due IH(1)] c by simp
    next
      case later
      let ?ne = "if timer_next (tobj m p) < ne then timer_next (tobj m p) else ne"
      have IH: "swept now ps m m'"
        "rem' = (rem @ [p]) @ filter (\<lambda>p. \<not> timer_cancelled (tobj m p) \<and> \<not> due now (tobj m) p) ps"
        "cbs' = cbs @ callbacks now (tobj m) ps" "stored m' = stored m + mset (filter (again now (tobj m)) ps)"
        "wheel0 m' ! i = wheel0 m ! i" "grown {p \<in> set ps. again now (tobj m) p} m m'"
        "ne' \<le> ?ne" "\<forall>p \<in> set ps. \<not> timer_cancelled (tobj m p) \<longrightarrow> \<not> due now (tobj m) p \<longrightarrow> ne' \<le> timer_next (tobj m p)"
        using Cons.IH [of m "rem @ [p]" ?ne cbs] Cons.prems later by (auto simp: due_def)
      have "grown {q \<in> set (p # ps). again now (tobj m) q} m m'" by (rule grown_mono [OF IH(6)]) auto
      moreover have "ne' \<le> ne" "ne' \<le> timer_next (tobj m p)" using IH(7) by (auto split: if_splits)
      ultimately show ?thesis using later IH swept_skip [OF later(2) IH(1)] by (simp add: callbacks_def again_def)
    qed
  qed
  then show "swept now ps m m'"
    "rem' = rem @ filter (\<lambda>p. \<not> timer_cancelled (tobj m p) \<and> \<not> due now (tobj m) p) ps"
    "cbs' = cbs @ callbacks now (tobj m) ps"
    "stored m' = stored m + mset (filter (again now (tobj m)) ps)"
    "wheel0 m' ! i = wheel0 m ! i"
    "grown {p \<in> set ps. again now (tobj m) p} m m'"
    "ne' \<le> ne \<and> (\<forall>p \<in> set ps. \<not> timer_cancelled (tobj m p) \<longrightarrow> \<not> due now (tobj m) p \<longrightarrow> ne' \<le> timer_next (tobj m p))"
    by blast+
qed

subsection \<open>The first wheel\<close>

text \<open>The timers a slot keeps, and recurring timers that do not come due again at once.\<close>

definition keeps :: "u64 \<Rightarrow> (timer_id \<Rightarrow> Timer) \<Rightarrow> timer_id \<Rightarrow> bool" where
  "keeps now obj p \<longleftrightarrow> \<not> timer_cancelled (obj p) \<and> (\<not> due now obj p \<or> timer_recurring (obj p))"

definition periods_ok :: "u64 \<Rightarrow> TimerManager \<Rightarrow> bool" where
  "periods_ok now m \<longleftrightarrow> (\<forall>p \<in># stored m. timer_recurring (tobj m p) \<longrightarrow> now < now + timer_ms (tobj m p))"

lemma expired_fields [simp]:
  "timer_recurring (expired now t) = timer_recurring t" "timer_ms (expired now t) = timer_ms t"
  "timer_cancelled (expired now t) = (\<not> timer_recurring t)"
  "timer_recurring t \<Longrightarrow> timer_next (expired now t) = now + timer_ms t"
  "timer_recurring t \<Longrightarrow> timer_cb (expired now t) = timer_cb t"
  by (simp_all add: expired_def)

lemma stored_wheel0:
  assumes "shape m" and "i < 256"
  shows "stored (m\<lparr>wheel0 := (wheel0 m)[i := rem]\<rparr>) + mset (wheel0 m ! i) = stored m + mset rem"
  using mset_concat_update [of i "wheel0 m" "\<lambda>x. x" rem] assms
  by (simp add: stored_def shape_def ac_simps)

lemma mset_filter_split3:
  assumes "\<And>x. x \<in> set ps \<Longrightarrow> Q x \<Longrightarrow> P x" and "\<And>x. x \<in> set ps \<Longrightarrow> K x = (P x \<and> \<not> Q x \<or> A x)"
    and "\<And>x. x \<in> set ps \<Longrightarrow> A x \<Longrightarrow> Q x"
  shows "mset (filter (\<lambda>x. P x \<and> \<not> Q x) ps) + mset (filter A ps) + mset (filter (\<lambda>x. \<not> K x) ps) = mset ps"
  using assms by (induction ps) auto

lemma distinct_count_le_1: "(\<And>x. count (mset xs) x \<le> 1) \<Longrightarrow> distinct xs"
proof (induction xs)
  case (Cons a xs)
  have c: "count (mset xs) a = 0" using Cons.prems [of a] by simp
  moreover have "count (mset xs) x \<le> 1" for x
    by (rule order_trans [OF _ Cons.prems [of x]]) simp
  ultimately show ?case using Cons.IH by (simp add: count_mset_0_iff)
qed simp

lemma swept_cong:
  assumes "swept now ps m m1" and "shape m'" "tobj m' = tobj m1" "timers m' = timers m1" "reads m' = reads m1"
  shows "swept now ps m m'"
  using assms(1) unfolding swept_def assms(3-5) using assms(2) by blast

lemma mset_balance:
  fixes A B :: "'a multiset"
  assumes "A + P = B + G + R" and "R + G + N = P"
  shows "A + N = B"
proof -
  have "(A + N) + (R + G) = A + P" by (simp add: assms(2) [symmetric] ac_simps)
  also have "\<dots> = B + (R + G)" by (simp add: assms(1) ac_simps)
  finally show ?thesis by simp
qed

lemma slot_pass:
  assumes inv: "wheels_inv m" and clk: "clock_from now clk m" and i: "i < 256"
    and l: "slot_loop clk now i (wheel0 m ! i) [] ne cbs m = Inr (rem, ne', cbs', m1)"
    and m': "m' = m1\<lparr>wheel0 := (wheel0 m1)[i := rem]\<rparr>"
  shows "swept now (wheel0 m ! i) m m'" and "wheels_inv m'"
    and "stored m' + mset (filter (\<lambda>p. \<not> keeps now (tobj m) p) (wheel0 m ! i)) = stored m"
    and "cbs' = cbs @ callbacks now (tobj m) (wheel0 m ! i)"
    and "j \<noteq> i \<Longrightarrow> \<exists>R. wheel0 m' ! j = wheel0 m ! j @ R \<and> set R \<subseteq> {p \<in> set (wheel0 m ! i). again now (tobj m) p}"
    and "ne' \<le> ne" and "p \<in> set (wheel0 m ! i) \<Longrightarrow> \<not> timer_cancelled (tobj m p) \<Longrightarrow> \<not> due now (tobj m) p \<Longrightarrow>
      ne' \<le> timer_next (tobj m p)"
proof -
  let ?ps = "wheel0 m ! i"
  have sh: "shape m" and cnt: "\<And>p. count (stored m) p \<le> 1" and ord: "ordered (tobj m) (timers m)"
    using inv by (simp_all add: wheels_inv_def)
  have "i < length (wheel0 m)" using sh i by (simp add: shape_def)
  then have sub: "mset ?ps \<subseteq># mset (concat (wheel0 m))"
    by (metis concat_append concat.simps(2) id_take_nth_drop mset_append mset_subset_eq_add_left mset_subset_eq_add_right subset_mset.order_trans)
  have both: "mset ?ps + mset (timers m) \<subseteq># stored m"
    using sub by (auto simp: stored_def intro: subset_mset.add_mono subset_mset.order_trans)
  have c: "count (mset ?ps) p + count (mset (timers m)) p \<le> 1" for p
    using mset_subset_eq_count [OF both, of p] cnt [of p] by simp
  have dis: "distinct ?ps" by (rule distinct_count_le_1) (use c in \<open>metis add_leD1\<close>)
  have disj: "set ?ps \<inter> set (timers m) = {}"
  proof (rule ccontr)
    assume "set ?ps \<inter> set (timers m) \<noteq> {}"
    then obtain p where "p \<in># mset ?ps" "p \<in># mset (timers m)" by auto
    then have "0 < count (mset ?ps) p" "0 < count (mset (timers m)) p" by simp_all
    with c [of p] show False by simp
  qed
  note r = slot_loop_result [OF sh dis disj clk l]
  note d = sweptD [OF r(1)]
  show "swept now ?ps m m'"
    by (rule swept_cong [OF r(1)]) (use d(1) in \<open>simp_all add: m' shape_def\<close>)
  show "cbs' = cbs @ callbacks now (tobj m) ?ps" using r(3) .
  have "stored m' + mset ?ps = stored m1 + mset rem"
    using stored_wheel0 [OF d(1) i, of rem] r(5) by (simp add: m')
  moreover have "mset rem + mset (filter (again now (tobj m)) ?ps) + mset (filter (\<lambda>p. \<not> keeps now (tobj m) p) ?ps) = mset ?ps"
    unfolding r(2) append_Nil
    by (rule mset_filter_split3) (auto simp: keeps_def again_def due_def)
  ultimately show st: "stored m' + mset (filter (\<lambda>p. \<not> keeps now (tobj m) p) ?ps) = stored m"
    unfolding r(4) by (rule mset_balance)
  have "count (stored m') p \<le> 1" for p
    using cnt [of p] arg_cong [OF st, of "\<lambda>M. count M p"] by simp
  then show "wheels_inv m'"
    using d(1) d(3) [OF ord] by (simp add: wheels_inv_def m' shape_def)
  show "\<exists>R. wheel0 m' ! j = wheel0 m ! j @ R \<and> set R \<subseteq> {p \<in> set ?ps. again now (tobj m) p}" if "j \<noteq> i"
    using r(6) that by (simp add: grown_def m')
  show "ne' \<le> ne" using r(7) by simp
  show "ne' \<le> timer_next (tobj m p)" if "p \<in> set ?ps" "\<not> timer_cancelled (tobj m p)" "\<not> due now (tobj m) p"
    using r(7) that by simp
qed

lemma not_due_again:
  assumes "again now (tobj m) p" and "periods_ok now m" and "p \<in># stored m" and "tobj m' p = expired now (tobj m p)"
  shows "\<not> due now (tobj m') p" and "keeps now (tobj m') p"
  using assms by (auto simp: again_def due_def keeps_def periods_ok_def)

text \<open>Sweeping \<open>ps\<close> and then \<open>qs'\<close>, which is \<open>qs\<close> with timers of \<open>ps\<close> that came back.\<close>

lemma swept_append:
  assumes 1: "swept now ps m m1" and 2: "swept now qs' m1 m2" and dis: "set ps \<inter> set qs = {}"
    and qs': "set qs \<subseteq> set qs'" "set qs' \<subseteq> set qs \<union> {p \<in> set ps. again now (tobj m) p}"
    and cb: "\<And>p. p \<in> set ps \<Longrightarrow> again now (tobj m) p \<Longrightarrow> \<not> due now (tobj m1) p"
  shows "swept now (ps @ qs) m m2"
proof -
  note d1 = sweptD [OF 1] and d2 = sweptD [OF 2]
  have gone: "\<not> due now (tobj m1) p" if "p \<in> set ps" for p
  proof (cases "again now (tobj m) p")
    case True
    then show ?thesis using cb that by blast
  next
    case False
    then show ?thesis using that by (auto simp: d1(2) again_def due_def)
  qed
  have other: "tobj m1 q = tobj m q" if "q \<notin> set ps" for q using that by (simp add: d1(2))
  show ?thesis
  proof (rule sweptI [OF d2(1)])
    show "tobj m2 = (\<lambda>q. if q \<in> set (ps @ qs) \<and> due now (tobj m) q then expired now (tobj m q) else tobj m q)"
    proof
      fix q
      show "tobj m2 q = (if q \<in> set (ps @ qs) \<and> due now (tobj m) q then expired now (tobj m q) else tobj m q)"
      proof (cases "q \<in> set ps")
        case True
        then show ?thesis using gone [OF True] by (simp add: d2(2)) (simp add: d1(2))
      next
        case False
        then have "q \<in> set qs' \<longleftrightarrow> q \<in> set qs" using qs' by auto
        then show ?thesis using False other [OF False] by (simp add: d2(2) due_def)
      qed
    qed
    show "ordered (tobj m2) (timers m2)" if "ordered (tobj m) (timers m)" using that d1(3) d2(3) by blast
    show "set (timers m) \<subseteq> set (timers m2)" using d1(4) d2(4) by blast
    show "reads m \<le> reads m2" using d1(6) d2(6) by simp
    fix q assume q: "q \<in> set (timers m2)" "q \<notin> set (timers m)"
    show "q \<in> set (ps @ qs) \<and> again now (tobj m) q \<and> now < timer_next (tobj m2 q)"
    proof (cases "q \<in> set (timers m1)")
      case True
      with d1(5) q(2) have a: "q \<in> set ps" "again now (tobj m) q" "now < timer_next (tobj m1 q)" by blast+
      moreover have "tobj m2 q = tobj m1 q" using gone [OF a(1)] by (simp add: d2(2))
      ultimately show ?thesis by simp
    next
      case False
      with d2(5) q(1) have a: "q \<in> set qs'" "again now (tobj m1) q" "now < timer_next (tobj m2 q)" by blast+
      then have "q \<notin> set ps" using gone by (auto simp: again_def)
      then show ?thesis using a qs'(2) other [of q] by (auto simp: again_def due_def)
    qed
  qed
qed

lemma filter_slot:
  assumes "wheel0 m1 ! j = wheel0 m ! j @ R" and "\<And>p. p \<in> set R \<Longrightarrow> \<not> P' p" and "\<And>p. p \<in> set (wheel0 m ! j) \<Longrightarrow> P' p = P p"
  shows "filter P' (wheel0 m1 ! j) = filter P (wheel0 m ! j)"
proof -
  have "filter P' R = []" using assms(2) by (simp add: filter_empty_conv)
  moreover have "filter P' (wheel0 m ! j) = filter P (wheel0 m ! j)" using assms(3) by (rule filter_cong [OF refl])
  ultimately show ?thesis by (simp add: assms(1))
qed

lemma callbacks_append: "callbacks now obj (xs @ ys) = callbacks now obj xs @ callbacks now obj ys"
  by (simp add: callbacks_def map_filter_def)

lemma callbacks_cong:
  assumes "filter (due now obj') xs' = filter (due now obj) xs" and "\<And>p. p \<in> set xs \<Longrightarrow> obj' p = obj p"
  shows "callbacks now obj' xs' = callbacks now obj xs"
  unfolding callbacks_def assms(1) using assms(2) by (auto simp: map_filter_def intro!: map_cong filter_cong)

text \<open>No timer is in two slots.\<close>

lemma slots_distinct:
  assumes inv: "wheels_inv m" and idx: "distinct is" "\<forall>i \<in> set is. i < 256"
  shows "mset (concat (map (\<lambda>i. wheel0 m ! i) is)) \<subseteq># stored m"
proof -
  have len: "length (wheel0 m) = 256" using inv by (simp add: wheels_inv_def shape_def)
  have "mset (concat (map (\<lambda>i. wheel0 m ! i) is)) = (\<Sum>i \<in># mset is. mset (wheel0 m ! i))"
    by (induction "is") auto
  also have "mset is = mset_set (set is)" using idx(1) by (simp add: mset_set_set)
  also have "(\<Sum>i \<in># mset_set (set is). mset (wheel0 m ! i)) \<subseteq># (\<Sum>i \<in># mset_set {0..<256}. mset (wheel0 m ! i))"
  proof -
    have "mset_set {0..<256} = mset_set (set is) + mset_set ({0..<256} - set is)"
      using idx(2) by (subst mset_set_Union [symmetric]) (auto intro!: arg_cong [of _ _ mset_set])
    then show ?thesis by simp
  qed
  also have "(\<Sum>i \<in># mset_set {0..<256}. mset (wheel0 m ! i)) = mset (concat (map (\<lambda>i. wheel0 m ! i) [0..<256]))"
  proof -
    have "(\<Sum>i \<in># mset xs. mset (wheel0 m ! i)) = mset (concat (map (\<lambda>i. wheel0 m ! i) xs))" for xs
      by (induction xs) auto
    from this [of "[0..<256]"] show ?thesis by (simp add: mset_upt)
  qed
  also have "map (\<lambda>i. wheel0 m ! i) [0..<256] = wheel0 m" using map_nth [of "wheel0 m"] len by simp
  also have "mset (concat (wheel0 m)) \<subseteq># stored m" by (simp add: stored_def add.assoc)
  finally show ?thesis .
qed

lemma periods_ok_swept:
  assumes "swept now ps m m'" and "stored m' \<subseteq># stored m" and "periods_ok now m"
  shows "periods_ok now m'"
  using assms(3) mset_subset_eqD [OF assms(2)] by (auto simp: periods_ok_def sweptD(2) [OF assms(1)])

lemma wheel0_loop_result:
  assumes "wheels_inv m" and "periods_ok now m" and "clock_from now clk m" and "distinct is" and "\<forall>i \<in> set is. i < 256"
    and "wheel0_loop clk now is ne cbs m = Inr (ne', cbs', m')"
    and "E = concat (map (\<lambda>i. wheel0 m ! i) is)"
  shows "swept now E m m' \<and> wheels_inv m' \<and> cbs' = cbs @ callbacks now (tobj m) E \<and>
    stored m' + mset (filter (\<lambda>p. \<not> keeps now (tobj m) p) E) = stored m \<and> ne' \<le> ne \<and>
    (\<forall>p \<in> set E. \<not> timer_cancelled (tobj m p) \<longrightarrow> \<not> due now (tobj m) p \<longrightarrow> ne' \<le> timer_next (tobj m p))"
  using assms
proof (induction "is" arbitrary: ne cbs m E)
  case Nil
  then show ?case by (auto simp: wheels_inv_def callbacks_def map_filter_simps intro: swept_Nil)
next
  case (Cons i "is")
  let ?ps = "wheel0 m ! i" and ?qs = "concat (map (\<lambda>i. wheel0 m ! i) is)"
  have idx: "i < 256" "i \<notin> set is" "distinct is" "\<forall>i \<in> set is. i < 256" using Cons.prems(4,5) by auto
  have E: "E = ?ps @ ?qs" using Cons.prems(7) by simp
  show ?case
  proof (cases "?ps = []")
    case True
    then have "wheel0_loop clk now is ne cbs m = Inr (ne', cbs', m')" using Cons.prems(6) by simp
    from Cons.IH [OF Cons.prems(1-3) idx(3,4) this refl] True show ?thesis by (simp add: E)
  next
    case False
    with Cons.prems(6) obtain rem ne1 cbs1 m0 where
      l: "slot_loop clk now i ?ps [] ne cbs m = Inr (rem, ne1, cbs1, m0)" and
      r: "wheel0_loop clk now is ne1 cbs1 (m0\<lparr>wheel0 := (wheel0 m0)[i := rem]\<rparr>) = Inr (ne', cbs', m')"
      by (auto simp: bind_res_Inr_iff)
    define m1 where "m1 = m0\<lparr>wheel0 := (wheel0 m0)[i := rem]\<rparr>"
    note s = slot_pass [OF Cons.prems(1,3) idx(1) l m1_def] and sD = sweptD [OF slot_pass(1) [OF Cons.prems(1,3) idx(1) l m1_def]]
    have sub: "stored m1 \<subseteq># stored m" using s(3) by (metis mset_subset_eq_add_left)
    have stE: "mset (?ps @ ?qs) \<subseteq># stored m"
      using slots_distinct [OF Cons.prems(1,4,5)] by simp
    have one: "count (mset (?ps @ ?qs)) p \<le> 1" for p
      using mset_subset_eq_count [OF stE, of p] Cons.prems(1) by (auto simp: wheels_inv_def intro: order_trans)
    have "distinct (?ps @ ?qs)" by (rule distinct_count_le_1 [OF one])
    then have disj: "set ?ps \<inter> set ?qs = {}" by simp
    have inst: "p \<in># stored m" if "p \<in> set ?ps" for p using mset_subset_eqD [OF stE, of p] that by simp
    have cbk: "\<not> due now (tobj m1) p \<and> keeps now (tobj m1) p" if "p \<in> set ?ps" "again now (tobj m) p" for p
    proof -
      have "tobj m1 p = expired now (tobj m p)" using that by (simp add: sD(2) again_def)
      from not_due_again [OF that(2) Cons.prems(2) inst [OF that(1)] this] show ?thesis by simp
    qed
    have other: "tobj m1 p = tobj m p" if "p \<in> set ?qs" for p using that disj by (auto simp: sD(2))
    have slot: "\<exists>R. wheel0 m1 ! j = wheel0 m ! j @ R \<and> set R \<subseteq> {p \<in> set ?ps. again now (tobj m) p}"
      if "j \<in> set is" for j using s(5) [of j] that idx(2) by metis
    let ?qs' = "concat (map (\<lambda>i. wheel0 m1 ! i) is)"
    have fil: "filter P' ?qs' = filter P ?qs"
      if P': "\<And>p. p \<in> set ?ps \<Longrightarrow> again now (tobj m) p \<Longrightarrow> \<not> P' p" and P: "\<And>p. p \<in> set ?qs \<Longrightarrow> P' p = P p" for P P'
    proof -
      have "map (filter P') (map (\<lambda>i. wheel0 m1 ! i) is) = map (filter P) (map (\<lambda>i. wheel0 m ! i) is)"
      proof (simp, intro ballI)
        fix j assume j: "j \<in> set is"
        then obtain R where R: "wheel0 m1 ! j = wheel0 m ! j @ R" "set R \<subseteq> {p \<in> set ?ps. again now (tobj m) p}"
          using slot by blast
        show "filter P' (wheel0 m1 ! j) = filter P (wheel0 m ! j)"
          by (rule filter_slot [OF R(1)]) (use R(2) P' P j in auto)
      qed
      then show ?thesis by (simp only: filter_concat)
    qed
    have sl: "set (wheel0 m ! j) \<subseteq> set (wheel0 m1 ! j) \<and>
        set (wheel0 m1 ! j) \<subseteq> set (wheel0 m ! j) \<union> {p \<in> set ?ps. again now (tobj m) p}" if "j \<in> set is" for j
    proof -
      from slot [OF that] obtain R where "wheel0 m1 ! j = wheel0 m ! j @ R"
        "set R \<subseteq> {p \<in> set ?ps. again now (tobj m) p}" by blast
      then show ?thesis by auto
    qed
    have q: "set ?qs \<subseteq> set ?qs'" "set ?qs' \<subseteq> set ?qs \<union> {p \<in> set ?ps. again now (tobj m) p}"
      using sl by (simp_all add: UN_subset_iff) blast+
    have "swept now ?qs' m1 m' \<and> wheels_inv m' \<and> cbs' = cbs1 @ callbacks now (tobj m1) ?qs' \<and>
      stored m' + mset (filter (\<lambda>p. \<not> keeps now (tobj m1) p) ?qs') = stored m1 \<and> ne' \<le> ne1 \<and>
      (\<forall>p \<in> set ?qs'. \<not> timer_cancelled (tobj m1 p) \<longrightarrow> \<not> due now (tobj m1) p \<longrightarrow> ne' \<le> timer_next (tobj m1 p))"
      by (rule Cons.IH [OF s(2) periods_ok_swept [OF s(1) sub Cons.prems(2)]
            clock_from_later [OF Cons.prems(3) sD(6)] idx(3,4) r [folded m1_def] refl])
    then have IH: "swept now ?qs' m1 m'" "wheels_inv m'" "cbs' = cbs1 @ callbacks now (tobj m1) ?qs'"
      "stored m' + mset (filter (\<lambda>p. \<not> keeps now (tobj m1) p) ?qs') = stored m1" "ne' \<le> ne1"
      "\<forall>p \<in> set ?qs'. \<not> timer_cancelled (tobj m1 p) \<longrightarrow> \<not> due now (tobj m1) p \<longrightarrow> ne' \<le> timer_next (tobj m1 p)"
      by blast+
    have "swept now (?ps @ ?qs) m m'"
      using cbk by (intro swept_append [OF s(1) IH(1) disj q]) blast
    moreover have "callbacks now (tobj m1) ?qs' = callbacks now (tobj m) ?qs"
      by (rule callbacks_cong [OF fil]) (use cbk other in \<open>auto simp: due_def\<close>)
    then have "cbs' = cbs @ callbacks now (tobj m) (?ps @ ?qs)" by (simp add: IH(3) s(4) callbacks_append)
    moreover have "filter (\<lambda>p. \<not> keeps now (tobj m1) p) ?qs' = filter (\<lambda>p. \<not> keeps now (tobj m) p) ?qs"
      by (rule fil) (use cbk other in \<open>auto simp: keeps_def due_def\<close>)
    then have "stored m' + mset (filter (\<lambda>p. \<not> keeps now (tobj m) p) (?ps @ ?qs)) = stored m"
      using s(3) unfolding IH(4) [symmetric] by (simp add: ac_simps)
    moreover have "ne' \<le> timer_next (tobj m p)"
      if "p \<in> set (?ps @ ?qs)" "\<not> timer_cancelled (tobj m p)" "\<not> due now (tobj m) p" for p
    proof (cases "p \<in> set ?ps")
      case True
      then show ?thesis using s(7) that IH(5) by (meson order_trans)
    next
      case False
      then have "p \<in> set ?qs" using that by simp
      with q(1) have "p \<in> set ?qs'" by blast
      with IH(6) other [OF \<open>p \<in> set ?qs\<close>] that(2,3) show ?thesis by (metis due_def)
    qed
    ultimately show ?thesis using IH(2,5) s(6) by (simp add: E)
  qed
qed

subsection \<open>The cascades\<close>

text \<open>
  Moving timers between the containers: the objects stay, and whatever arrives in an upper
  wheel or in the ordered set expires after \<open>now\<close>.
\<close>

definition moved :: "u64 \<Rightarrow> TimerManager \<Rightarrow> TimerManager \<Rightarrow> bool" where
  "moved now m m' \<longleftrightarrow> tobj m' = tobj m \<and> shape m' \<and>
     (ordered (tobj m) (timers m) \<longrightarrow> ordered (tobj m) (timers m')) \<and>
     (\<forall>q \<in> set (timers m'). q \<in> set (timers m) \<or> now < timer_next (tobj m q)) \<and>
     (\<forall>k j. \<forall>q \<in> set (get_wheel k m' ! j). q \<in> set (get_wheel k m ! j) \<or> now < timer_next (tobj m q)) \<and>
     set (timers m) \<subseteq> set (timers m') \<and> reads m \<le> reads m'"

lemma movedD:
  assumes "moved now m m'"
  shows "tobj m' = tobj m" and "shape m'" and "ordered (tobj m) (timers m) \<Longrightarrow> ordered (tobj m) (timers m')"
    and "q \<in> set (timers m') \<Longrightarrow> q \<in> set (timers m) \<or> now < timer_next (tobj m q)"
    and "q \<in> set (get_wheel k m' ! j) \<Longrightarrow> q \<in> set (get_wheel k m ! j) \<or> now < timer_next (tobj m q)"
    and "set (timers m) \<subseteq> set (timers m')" and "reads m \<le> reads m'"
  using assms unfolding moved_def by blast+

lemma moved_refl: "shape m \<Longrightarrow> moved now m m"
  by (simp add: moved_def)

lemma moved_trans:
  assumes "moved now m m1" and "moved now m1 m2"
  shows "moved now m m2"
proof -
  note a = movedD [OF assms(1)] and b = movedD [OF assms(2)]
  have "\<And>q. q \<in> set (timers m2) \<Longrightarrow> q \<in> set (timers m) \<or> now < timer_next (tobj m q)"
    using a(1,4) b(4) by metis
  moreover have "\<And>k j q. q \<in> set (get_wheel k m2 ! j) \<Longrightarrow> q \<in> set (get_wheel k m ! j) \<or> now < timer_next (tobj m q)"
    using a(1,5) b(5) by metis
  ultimately show ?thesis
    using a(1,3,6,7) b(1,2,3,6,7) unfolding moved_def by (auto simp: a(1))
qed

lemma moved_inserted:
  assumes "inserted now p m m'"
  shows "moved now m m'"
  unfolding moved_def
proof (intro conjI allI ballI impI)
  note i = assms [unfolded inserted_def]
  show "tobj m' = tobj m" "shape m'" "reads m \<le> reads m'" using i by blast+
  show "ordered (tobj m) (timers m')" if "ordered (tobj m) (timers m)" using i that by metis
  have t: "timers m' = timers m \<or> set (timers m') = insert p (set (timers m)) \<and> now < timer_next (tobj m p)"
    using i by blast
  then show "set (timers m) \<subseteq> set (timers m')" by auto
  show "q \<in> set (timers m) \<or> now < timer_next (tobj m q)" if "q \<in> set (timers m')" for q
    using t that by auto
  show "q \<in> set (get_wheel k m ! j) \<or> now < timer_next (tobj m q)" if "q \<in> set (get_wheel k m' ! j)" for k j q
  proof -
    have "get_wheel k m' ! j = get_wheel k m ! j \<or>
        get_wheel k m' ! j = get_wheel k m ! j @ [p] \<and> now < timer_next (tobj m p)" using i by blast
    then show ?thesis using that by auto
  qed
qed

lemma reinsert_result:
  assumes "shape m" and "distinct ps" and "set ps \<inter> set (timers m) = {}" and "clock_from now clk m"
  shows "moved now m (reinsert clk ps m)"
    and "stored (reinsert clk ps m) = stored m + mset (filter (\<lambda>p. \<not> timer_cancelled (tobj m p)) ps)"
  using assms
proof (induction ps arbitrary: m)
  case Nil
  { case 1 then show ?case by (simp add: moved_refl) }
  { case 2 then show ?case by simp }
next
  case (Cons p ps)
  have *: "moved now m (reinsert clk (p # ps) m) \<and>
      stored (reinsert clk (p # ps) m) = stored m + mset (filter (\<lambda>p. \<not> timer_cancelled (tobj m p)) (p # ps))"
    if a: "shape m" "distinct (p # ps)" "set (p # ps) \<inter> set (timers m) = {}" "clock_from now clk m" for m
  proof (cases "timer_cancelled (tobj m p)")
    case True
    then show ?thesis using Cons.IH [of m] a by simp
  next
    case False
    let ?m = "insertToWheel clk p m"
    have i: "inserted now p m ?m" using a by (intro insertToWheel_inserted) (auto simp: clock_from_def)
    note v = movedD [OF moved_inserted [OF i]]
    have "timers ?m = timers m \<or> set (timers ?m) = insert p (set (timers m))" using i unfolding inserted_def by blast
    then have t: "set (timers ?m) \<subseteq> insert p (set (timers m))" by auto
    then have "set ps \<inter> set (timers ?m) = {}" using a(2,3) by auto
    from Cons.IH [OF v(2) _ this clock_from_later [OF a(4) v(7)]] a(2)
    have "moved now ?m (reinsert clk ps ?m)"
      "stored (reinsert clk ps ?m) = stored ?m + mset (filter (\<lambda>p. \<not> timer_cancelled (tobj ?m p)) ps)" by simp_all
    moreover have "stored ?m = add_mset p (stored m)" using i by (simp add: inserted_def)
    ultimately show ?thesis using False moved_trans [OF moved_inserted [OF i]] by (simp add: v(1))
  qed
  { case 1 then show ?case by (rule * [THEN conjunct1]) }
  { case 2 then show ?case by (rule * [THEN conjunct2]) }
qed

lemma get_set_wheel [simp]:
  "get_wheel k (set_wheel k ws m) = ws" "k \<noteq> k' \<Longrightarrow> get_wheel k (set_wheel k' ws m) = get_wheel k m"
  "tobj (set_wheel k ws m) = tobj m" "timers (set_wheel k ws m) = timers m" "reads (set_wheel k ws m) = reads m"
  "wheel0 (set_wheel k ws m) = wheel0 m"
  by (auto simp: get_wheel_def set_wheel_def split: upper_wheel.splits)

lemma shape_get_wheel: "shape m \<Longrightarrow> length (get_wheel k m) = 64"
  by (auto simp: shape_def get_wheel_def split: upper_wheel.splits)

lemma in_concat_nth: "q \<in> set (concat ws) \<longleftrightarrow> (\<exists>j < length ws. q \<in> set (ws ! j))"
  by (simp add: in_set_conv_nth [of _ ws] Bex_def) (metis in_set_conv_nth)

lemma emptied_slot:
  assumes sh: "shape m" and i: "i < 64"
  shows "shape (set_wheel k ((get_wheel k m)[i := []]) m)"
    and "stored (set_wheel k ((get_wheel k m)[i := []]) m) + mset (get_wheel k m ! i) = stored m"
proof -
  show "shape (set_wheel k ((get_wheel k m)[i := []]) m)"
    using sh by (auto simp: shape_def get_wheel_def set_wheel_def split: upper_wheel.splits)
  have "mset (concat ((get_wheel k m)[i := []])) + mset (get_wheel k m ! i) = mset (concat (get_wheel k m))"
    using mset_concat_update [of i "get_wheel k m" "\<lambda>x. x" "[]"] i shape_get_wheel [OF sh, of k] by simp
  then show "stored (set_wheel k ((get_wheel k m)[i := []]) m) + mset (get_wheel k m ! i) = stored m"
    by (cases k) (auto simp: stored_def get_wheel_def set_wheel_def ac_simps)
qed

text \<open>What a cascade stores: it drops cancelled timers and nothing else.\<close>

definition kept :: "TimerManager \<Rightarrow> TimerManager \<Rightarrow> bool" where
  "kept m m' \<longleftrightarrow> (\<exists>D. stored m' + D = stored m \<and> (\<forall>p \<in># D. timer_cancelled (tobj m p)))"

lemma kept_refl: "kept m m"
  unfolding kept_def by (intro exI [of _ "{#}"]) simp

lemma kept_trans:
  assumes "kept m m1" and "kept m1 m2" and "tobj m1 = tobj m"
  shows "kept m m2"
proof -
  from assms obtain D D' where d: "stored m1 + D = stored m" "stored m2 + D' = stored m1"
    "\<forall>p \<in># D. timer_cancelled (tobj m p)" "\<forall>p \<in># D'. timer_cancelled (tobj m p)" by (auto simp: kept_def)
  have "stored m2 + (D' + D) = stored m" unfolding d(1) [symmetric] d(2) [symmetric] by (simp only: add.assoc)
  with d(3,4) show ?thesis unfolding kept_def by (intro exI [of _ "D' + D"]) auto
qed

lemma kept_inv: "kept m m' \<Longrightarrow> moved now m m' \<Longrightarrow> wheels_inv m \<Longrightarrow> wheels_inv m'"
proof -
  assume k: "kept m m'" and v: "moved now m m'" and i: "wheels_inv m"
  from k have "stored m' \<subseteq># stored m" unfolding kept_def by (metis mset_subset_eq_add_left)
  then have "count (stored m') p \<le> count (stored m) p" for p by (rule mset_subset_eq_count)
  then show "wheels_inv m'" using i movedD(1-3) [OF v] by (auto simp: wheels_inv_def intro: order_trans)
qed

lemma cascade_slot:
  assumes inv: "wheels_inv m" and clk: "clock_from now clk m" and i: "i < 64"
    and m': "m' = reinsert clk (get_wheel k m ! i) (set_wheel k ((get_wheel k m)[i := []]) m)"
  shows "moved now m m'" and "kept m m'" and "q \<in> set (get_wheel k m' ! i) \<Longrightarrow> now < timer_next (tobj m q)"
proof -
  define m0 where "m0 = set_wheel k ((get_wheel k m)[i := []]) m"
  let ?ps = "get_wheel k m ! i"
  have sh: "shape m" using inv by (simp add: wheels_inv_def)
  note e = emptied_slot [OF sh i, of k, folded m0_def]
  have m0: "tobj m0 = tobj m" "timers m0 = timers m" "reads m0 = reads m" "get_wheel k m0 = (get_wheel k m)[i := []]"
    "\<And>k'. k' \<noteq> k \<Longrightarrow> get_wheel k' m0 = get_wheel k' m" by (simp_all add: m0_def)
  have one: "count (stored m0) p + count (mset ?ps) p \<le> 1" for p
    using inv unfolding wheels_inv_def e(2) [symmetric] by (metis count_union)
  have d: "distinct ?ps" by (rule distinct_count_le_1) (use one in \<open>metis add_leD2\<close>)
  have "set ?ps \<inter> set (timers m0) = {}"
  proof (rule ccontr)
    assume "set ?ps \<inter> set (timers m0) \<noteq> {}"
    then obtain p where p: "p \<in># mset ?ps" "p \<in># stored m0" by (auto simp: stored_def)
    then have "0 < count (mset ?ps) p" "0 < count (stored m0) p" by (simp_all only: count_greater_zero_iff)
    with one [of p] show False by linarith
  qed
  moreover have "clock_from now clk m0" using clk m0(3) by (simp add: clock_from_def)
  ultimately have r: "moved now m0 m'" "stored m' = stored m0 + mset (filter (\<lambda>p. \<not> timer_cancelled (tobj m0 p)) ?ps)"
    using reinsert_result [OF e(1) d] unfolding m' m0_def [symmetric] by blast+
  have emp: "get_wheel k m0 ! i = []" using i shape_get_wheel [OF sh, of k] by (simp add: m0(4))
  have sub: "q \<in> set (get_wheel k' m ! j)" if "q \<in> set (get_wheel k' m0 ! j)" for q k' j
  proof (cases "k' = k \<and> j = i")
    case True
    then show ?thesis using that emp by simp
  next
    case False
    then show ?thesis using that m0(4) m0(5) [of k'] by (cases "k' = k") simp_all
  qed
  have "moved now m m0" using e(1) sub by (simp add: moved_def m0(1-3))
  then show "moved now m m'" using r(1) by (rule moved_trans)
  have "mset (filter (\<lambda>p. \<not> timer_cancelled (tobj m p)) ?ps) + mset (filter (\<lambda>p. timer_cancelled (tobj m p)) ?ps) = mset ?ps"
    by (metis add.commute mset_filter multiset_partition)
  then have "stored m' + mset (filter (\<lambda>p. timer_cancelled (tobj m p)) ?ps) = stored m"
    unfolding r(2) m0(1) add.assoc by (simp only: e(2))
  then show "kept m m'" unfolding kept_def
    by (intro exI [of _ "mset (filter (\<lambda>p. timer_cancelled (tobj m p)) ?ps)"]) simp
  show "now < timer_next (tobj m q)" if "q \<in> set (get_wheel k m' ! i)"
    using movedD(5) [OF r(1) that] unfolding m0(1) emp by simp
qed

lemma cascade_loop_result:
  assumes "wheels_inv m" and "clock_from now clk m" and "\<forall>i \<in> set is. i < 64" and "m' = cascade_loop clk k is m"
  shows "moved now m m' \<and> kept m m' \<and> (\<forall>j \<in> set is. \<forall>q \<in> set (get_wheel k m' ! j). now < timer_next (tobj m q))"
  using assms
proof (induction "is" arbitrary: m)
  case Nil
  then show ?case by (simp add: moved_refl kept_refl wheels_inv_def)
next
  case (Cons i "is")
  show ?case
  proof (cases "get_wheel k m ! i = []")
    case True
    have "m' = cascade_loop clk k is m" using Cons.prems(4) True by simp
    then have IH: "moved now m m' \<and> kept m m' \<and> (\<forall>j \<in> set is. \<forall>q \<in> set (get_wheel k m' ! j). now < timer_next (tobj m q))"
      using Cons.prems(3) by (intro Cons.IH [OF Cons.prems(1,2)]) simp_all
    moreover have "now < timer_next (tobj m q)" if "q \<in> set (get_wheel k m' ! i)" for q
      using movedD(5) [OF conjunct1 [OF IH] that] True by simp
    ultimately show ?thesis by simp
  next
    case False
    define m1 where "m1 = reinsert clk (get_wheel k m ! i) (set_wheel k ((get_wheel k m)[i := []]) m)"
    have i: "i < 64" using Cons.prems(3) by simp
    note s = cascade_slot [OF Cons.prems(1,2) i m1_def]
    have "m' = cascade_loop clk k is m1" using False Cons.prems(4) by (simp add: Let_def m1_def)
    then have IH: "moved now m1 m' \<and> kept m1 m' \<and> (\<forall>j \<in> set is. \<forall>q \<in> set (get_wheel k m' ! j). now < timer_next (tobj m1 q))"
      using Cons.prems(3)
      by (intro Cons.IH [OF kept_inv [OF s(2,1) Cons.prems(1)] clock_from_later [OF Cons.prems(2) movedD(7) [OF s(1)]]]) simp_all
    have "now < timer_next (tobj m q)" if "q \<in> set (get_wheel k m' ! i)" for q
      using movedD(5) [OF conjunct1 [OF IH] that] s(3) movedD(1) [OF s(1)] by auto
    then show ?thesis
      using IH moved_trans [OF s(1)] kept_trans [OF s(2) _ movedD(1) [OF s(1)]] movedD(1) [OF s(1)] by auto
  qed
qed

definition future :: "u64 \<Rightarrow> upper_wheel \<Rightarrow> TimerManager \<Rightarrow> bool" where
  "future now k m \<longleftrightarrow> (\<forall>q \<in> set (concat (get_wheel k m)). now < timer_next (tobj m q))"

lemma future_moved:
  assumes "moved now m m'" and "shape m" and "future now k m"
  shows "future now k m'"
  unfolding future_def
proof
  fix q assume "q \<in> set (concat (get_wheel k m'))"
  then obtain j where j: "j < 64" "q \<in> set (get_wheel k m' ! j)"
    unfolding in_concat_nth shape_get_wheel [OF movedD(2) [OF assms(1)]] by blast
  from movedD(5) [OF assms(1) j(2)] show "now < timer_next (tobj m' q)"
  proof
    assume "q \<in> set (get_wheel k m ! j)"
    then have "q \<in> set (concat (get_wheel k m))" using j(1) unfolding in_concat_nth shape_get_wheel [OF assms(2)] by blast
    then show ?thesis using assms(3) unfolding future_def movedD(1) [OF assms(1)] by blast
  qed (simp add: movedD(1) [OF assms(1)])
qed

lemma cascade_result:
  assumes inv: "wheels_inv m" and clk: "clock_from now clk m" and m': "m' = cascade clk k m"
  shows "moved now m m'" and "kept m m'" and "wheels_inv m'" and "clock_from now clk m'" and "future now k m'"
proof -
  have len: "length (get_wheel k m) = 64" using inv by (simp add: wheels_inv_def shape_get_wheel)
  have *: "moved now m m' \<and> kept m m' \<and> (\<forall>j \<in> set [0..<64]. \<forall>q \<in> set (get_wheel k m' ! j). now < timer_next (tobj m q))"
    by (rule cascade_loop_result [OF inv clk]) (simp_all add: m' cascade_def len)
  then show v: "moved now m m'" and "kept m m'" by blast+
  then show "wheels_inv m'" "clock_from now clk m'" using kept_inv inv clock_from_later [OF clk] movedD(7) by blast+
  have "length (get_wheel k m') = 64" using shape_get_wheel [OF movedD(2) [OF v]] .
  then have "now < timer_next (tobj m' q)" if "q \<in> set (concat (get_wheel k m'))" for q
    using that * movedD(1) [OF v] unfolding in_concat_nth by auto
  then show "future now k m'" unfolding future_def by blast
qed

lemma cascades_result:
  assumes inv: "wheels_inv m" and clk: "clock_from now clk m"
    and m': "m' = cascade clk W3 (cascade clk W2 (cascade clk W1 m))"
  shows "moved now m m'" and "kept m m'" and "wheels_inv m'" and "clock_from now clk m'" and "future now k m'"
proof -
  define m1 where "m1 = cascade clk W1 m"
  define m2 where "m2 = cascade clk W2 m1"
  note a = cascade_result [OF inv clk m1_def] and b = cascade_result [OF cascade_result(3,4) [OF inv clk m1_def] m2_def]
  note c = cascade_result [OF b(3,4) m' [folded m1_def, folded m2_def]]
  note ab = moved_trans [OF a(1) b(1)]
  show "moved now m m'" by (rule moved_trans [OF ab c(1)])
  show "kept m m'"
    by (rule kept_trans [OF kept_trans [OF a(2) b(2) movedD(1) [OF a(1)]] c(2) movedD(1) [OF ab]])
  show "wheels_inv m'" "clock_from now clk m'" by (rule c)+
  have "future now W1 m'" "future now W2 m'"
    using future_moved [OF c(1) movedD(2) [OF b(1)]] future_moved [OF b(1) movedD(2) [OF a(1)] a(5)] b(5) by blast+
  with c(5) show "future now k m'" by (cases k) simp_all
qed

end
