(* ===== verification/Timer_Pass.thy ===== *)
theory Timer_Pass
  imports Timer_Wheels
begin

text \<open>
  The loop over the ordered set and the whole expiry pass: it ends, it fires exactly the
  due timers of the first wheel and of the ordered set, and it loses no live timer.
\<close>

section \<open>The loop over the ordered set\<close>

lemma ordered_unique:
  "ordered obj xs \<Longrightarrow> ordered obj ys \<Longrightarrow> set xs = set ys \<Longrightarrow> xs = ys"
proof (induction xs arbitrary: ys)
  case (Cons x xs)
  then obtain y ys' where ys: "ys = y # ys'" by (cases ys) auto
  have less: "\<forall>z \<in> set xs. Comparator obj (Some x) (Some z)" "\<forall>z \<in> set ys'. Comparator obj (Some y) (Some z)"
    using Cons.prems(1,2) by (auto simp: ordered_def ys)
  have xy: "x = y"
  proof (rule ccontr)
    assume "x \<noteq> y"
    then have "x \<in> set ys'" "y \<in> set xs" using Cons.prems(3) unfolding ys by auto
    with less have "Comparator obj (Some x) (Some y)" "Comparator obj (Some y) (Some x)" by blast+
    then show False by (auto simp: Comparator_Some)
  qed
  moreover have "x \<notin> set xs" "y \<notin> set ys'" using less by (auto simp: Comparator_Some)
  then have "set xs = set ys'" using Cons.prems(3) xy unfolding ys by auto
  ultimately show ?case using Cons by (simp add: ys ordered_def)
qed simp

lemma ordered_filter: "ordered obj xs \<Longrightarrow> ordered obj (filter P xs)"
  by (simp add: ordered_def sorted_wrt_filter)

lemma expire_upper:
  assumes sh: "shape m" and p: "p \<notin> set (timers m)" and clk: "clock_from now clk m" and m': "m' = expire clk now p m"
    and q: "q \<in> set (get_wheel k m' ! j)"
  shows "q \<in> set (get_wheel k m ! j) \<or> now < timer_next (tobj m' q)"
proof (cases "timer_recurring (tobj m p)")
  case True
  let ?u = "upd_timer p (expired now) m"
  have m: "m' = insertToWheel clk p ?u" using True by (simp add: m' expire_def upd_timer_def expired_def)
  have i: "inserted now p ?u m'"
    unfolding m using sh p clk by (intro insertToWheel_inserted) (simp_all add: clock_from_def)
  note v = movedD [OF moved_inserted [OF i]]
  show ?thesis using v(5) [OF q] unfolding v(1) by simp
next
  case False
  then have "get_wheel k m' = get_wheel k m" by (simp add: m' expire_def)
  with q show ?thesis by simp
qed

lemma timers_drop:
  assumes inv: "wheels_inv m" and t: "timers m = p # rest" and m0: "m0 = m\<lparr>timers := rest\<rparr>"
  shows "stored m = add_mset p (stored m0)" and "shape m0" and "p \<notin># stored m0" and "wheels_inv m0"
    and "get_wheel k m0 = get_wheel k m" and "tobj m0 = tobj m" and "reads m0 = reads m" and "timers m0 = rest"
proof -
  show s: "stored m = add_mset p (stored m0)" by (simp add: stored_def m0 t)
  show sh: "shape m0" using inv by (simp add: wheels_inv_def shape_def m0)
  have c: "count (stored m) x \<le> 1" for x using inv by (simp add: wheels_inv_def)
  show "p \<notin># stored m0" using c [of p] by (simp add: s not_in_iff)
  have "count (stored m0) x \<le> 1" for x using c [of x] by (simp add: s split: if_splits)
  moreover have "ordered (tobj m) rest" using inv by (simp add: wheels_inv_def t ordered_def)
  ultimately show "wheels_inv m0" using sh by (simp add: wheels_inv_def m0)
  show "get_wheel k m0 = get_wheel k m" by (simp add: m0 get_wheel_def split: upper_wheel.split)
  show "tobj m0 = tobj m" "reads m0 = reads m" "timers m0 = rest" by (simp_all add: m0)
qed

text \<open>One iteration that fires \<open>p\<close>.\<close>

lemma tree_fire:
  assumes inv: "wheels_inv m" and t: "timers m = p # rest" and clk: "clock_from now clk m" and d: "due now (tobj m) p"
    and m': "m' = expire clk now p (m\<lparr>timers := rest\<rparr>)"
  shows "wheels_inv m'" and "tobj m' = (tobj m)(p := expired now (tobj m p))"
    and "stored m' + (if again now (tobj m) p then {#} else {#p#}) = stored m"
    and "p \<in> set (timers m') \<Longrightarrow> now < timer_next (tobj m' p)"
    and "filter (\<lambda>q. timer_next (tobj m' q) \<le> now) (timers m') = filter (\<lambda>q. timer_next (tobj m q) \<le> now) rest"
    and "future now k m \<Longrightarrow> future now k m'" and "reads m \<le> reads m'"
proof -
  define m0 where "m0 = m\<lparr>timers := rest\<rparr>"
  note a = timers_drop [OF inv t m0_def]
  have p: "p \<notin> set (timers m0)" "p \<notin> set rest" using a(3) by (auto simp: stored_def a(8))
  have ck: "clock_from now clk m0" using clk by (simp add: clock_from_def a(7))
  note e = expire_result [OF a(2) p(1) ck m' [folded m0_def], unfolded a(6,7,8)]
  show obj: "tobj m' = (tobj m)(p := expired now (tobj m p))" by (rule e(1))
  show "reads m \<le> reads m'" by (rule e(7))
  show st: "stored m' + (if again now (tobj m) p then {#} else {#p#}) = stored m"
    using d by (simp add: e(3) a(1) again_def)
  have "count (stored m') x \<le> count (stored m) x" for x unfolding st [symmetric] by simp
  then have "count (stored m') x \<le> 1" for x using inv by (meson wheels_inv_def order_trans)
  moreover have ord: "ordered (tobj m') (timers m')" using e(4) a(4) by (simp add: wheels_inv_def a(6,8))
  ultimately show "wheels_inv m'" using e(2) by (simp add: wheels_inv_def)
  show pt: "now < timer_next (tobj m' p)" if "p \<in> set (timers m')" using e(5) that p(2) by auto
  have same: "tobj m' q = tobj m q" if "q \<in> set rest" for q using that p(2) by (auto simp: obj)
  show "filter (\<lambda>q. timer_next (tobj m' q) \<le> now) (timers m') = filter (\<lambda>q. timer_next (tobj m q) \<le> now) rest"
  proof (rule ordered_unique [of "tobj m'"])
    show "ordered (tobj m') (filter (\<lambda>q. timer_next (tobj m' q) \<le> now) (timers m'))"
      by (rule ordered_filter [OF ord])
    have "ordered (tobj m) rest" using a(4) by (simp add: wheels_inv_def a(6,8))
    then have "ordered (tobj m') rest" using same by (subst ordered_cong [of _ _ "tobj m"]) auto
    then show "ordered (tobj m') (filter (\<lambda>q. timer_next (tobj m q) \<le> now) rest)" by (rule ordered_filter)
    show "set (filter (\<lambda>q. timer_next (tobj m' q) \<le> now) (timers m')) = set (filter (\<lambda>q. timer_next (tobj m q) \<le> now) rest)"
      using e(5) same by (auto simp: not_le [symmetric])
  qed
  show "future now k m'" if f: "future now k m"
    unfolding future_def
  proof
    fix q assume "q \<in> set (concat (get_wheel k m'))"
    then obtain j where j: "j < 64" "q \<in> set (get_wheel k m' ! j)"
      unfolding in_concat_nth shape_get_wheel [OF e(2)] by blast
    from expire_upper [OF a(2) p(1) ck m' [folded m0_def] j(2)] show "now < timer_next (tobj m' q)"
    proof
      assume "q \<in> set (get_wheel k m0 ! j)"
      then have q: "q \<in> set (concat (get_wheel k m0))" unfolding in_concat_nth shape_get_wheel [OF a(2)] using j(1) by blast
      then have "q \<in># stored m0" unfolding stored_def by (cases k) (auto simp: get_wheel_def)
      then have "q \<noteq> p" using a(3) by auto
      moreover have "now < timer_next (tobj m q)" using f q unfolding future_def a(5) by blast
      ultimately show ?thesis by (simp add: obj)
    qed
  qed
qed

lemma tree_loop_result:
  assumes "wheels_inv m" and "clock_from now clk m" and "length (filter (\<lambda>q. timer_next (tobj m q) \<le> now) (timers m)) < fuel"
  shows "\<exists>m'. tree_loop fuel clk now cbs m = Some (cbs @ callbacks now (tobj m) (timers m), m') \<and> wheels_inv m' \<and>
    tobj m' = (\<lambda>q. if q \<in> set (timers m) \<and> due now (tobj m) q then expired now (tobj m q) else tobj m q) \<and>
    stored m' + mset (filter (\<lambda>q. timer_next (tobj m q) \<le> now \<and> \<not> again now (tobj m) q) (timers m)) = stored m \<and>
    (\<forall>q \<in> set (timers m'). now < timer_next (tobj m' q)) \<and> (\<forall>k. future now k m \<longrightarrow> future now k m') \<and> reads m \<le> reads m'"
  using assms
proof (induction fuel arbitrary: cbs m)
  case (Suc fuel)
  show ?case
  proof (cases "timers m")
    case Nil
    then show ?thesis using Suc.prems(1) by (simp add: callbacks_def map_filter_def)
  next
    case (Cons p rest)
    have ord: "ordered (tobj m) (p # rest)" using Suc.prems(1) by (simp add: wheels_inv_def Cons)
    have dist: "p \<notin> set rest" using ord by (auto simp: ordered_def Comparator_Some)
    let ?cb = "callbacks now (tobj m) (timers m)"
    consider (fin) "\<not> timer_next (tobj m p) \<le> now" | (dead) "timer_next (tobj m p) \<le> now" "timer_cancelled (tobj m p)"
      | (fire) "timer_next (tobj m p) \<le> now" "\<not> timer_cancelled (tobj m p)" by blast
    then show ?thesis
    proof cases
      case fin
      then have late: "now < timer_next (tobj m q)" if "q \<in> set (timers m)" for q
        using that ordered_Cons [OF ord] by (auto simp: Cons not_le intro: less_le_trans)
      then have nd: "\<not> due now (tobj m) q" "\<not> timer_next (tobj m q) \<le> now" if "q \<in> set (timers m)" for q
        using that by (auto simp: due_def not_le)
      have f: "filter (\<lambda>q. timer_next (tobj m q) \<le> now \<and> \<not> again now (tobj m) q) (timers m) = []"
        "filter (due now (tobj m)) (timers m) = []" using nd by (auto simp: filter_empty_conv)
      have "tree_loop (Suc fuel) clk now cbs m = Some (cbs @ ?cb, m)"
        using fin f(2) by (simp add: Cons callbacks_def map_filter_simps)
      moreover have "tobj m = (\<lambda>q. if q \<in> set (timers m) \<and> due now (tobj m) q then expired now (tobj m q) else tobj m q)"
        by (rule ext) (use nd in auto)
      ultimately show ?thesis using Suc.prems(1) late f(1) by (intro exI [of _ m]) simp
    next
      case dead
      define m0 where "m0 = m\<lparr>timers := rest\<rparr>"
      note a = timers_drop [OF Suc.prems(1) Cons m0_def]
      have nd: "\<not> due now (tobj m) p" "\<not> again now (tobj m) p" using dead by (auto simp: due_def again_def)
      have loop: "tree_loop (Suc fuel) clk now cbs m = tree_loop fuel clk now cbs m0"
        using dead by (simp add: Cons m0_def)
      have "clock_from now clk m0" using Suc.prems(2) by (simp add: clock_from_def a(7))
      moreover have "length (filter (\<lambda>q. timer_next (tobj m0 q) \<le> now) (timers m0)) < fuel"
        using Suc.prems(3) dead by (simp add: Cons a(6,8))
      moreover have "callbacks now (tobj m) (timers m) = callbacks now (tobj m0) (timers m0)"
        using nd by (simp add: callbacks_def Cons a(6,8))
      moreover have "(\<lambda>q. if q \<in> set (timers m) \<and> due now (tobj m) q then expired now (tobj m q) else tobj m q) =
          (\<lambda>q. if q \<in> set (timers m0) \<and> due now (tobj m0) q then expired now (tobj m0 q) else tobj m0 q)"
        using nd by (auto simp: Cons a(6,8))
      moreover have "filter (\<lambda>q. timer_next (tobj m q) \<le> now \<and> \<not> again now (tobj m) q) (timers m) =
          p # filter (\<lambda>q. timer_next (tobj m0 q) \<le> now \<and> \<not> again now (tobj m0) q) (timers m0)"
        using nd dead by (simp add: Cons a(6,8))
      moreover have "future now k m = future now k m0" for k by (simp add: future_def a(5,6))
      ultimately show ?thesis using Suc.IH [OF a(4), of cbs] unfolding loop a(1) a(7) [symmetric] by simp
    next
      case fire
      define m1 where "m1 = expire clk now p (m\<lparr>timers := rest\<rparr>)"
      have d: "due now (tobj m) p" using fire by (simp add: due_def)
      note e = tree_fire [OF Suc.prems(1) Cons Suc.prems(2) d m1_def]
      have loop: "tree_loop (Suc fuel) clk now cbs m = tree_loop fuel clk now (collect p m cbs) m1"
        using fire by (simp add: Cons m1_def collect_def Let_def)
      have same: "tobj m1 q = tobj m q" if "q \<in> set rest" for q using that dist by (auto simp: e(2))
      have "filter (\<lambda>q. timer_next (tobj m1 q) \<le> now \<and> P (tobj m1) q) (timers m1) =
          filter (\<lambda>q. timer_next (tobj m q) \<le> now \<and> P (tobj m) q) rest"
        if "\<And>q. q \<in> set rest \<Longrightarrow> P (tobj m1) q = P (tobj m) q" for P
      proof -
        have "filter (P (tobj m1)) (filter (\<lambda>q. timer_next (tobj m1 q) \<le> now) (timers m1)) =
            filter (P (tobj m)) (filter (\<lambda>q. timer_next (tobj m q) \<le> now) rest)"
          unfolding e(5) using that by (intro filter_cong) auto
        then show ?thesis by (simp add: conj_commute)
      qed
      note fil = this
      have cbs: "cbs @ ?cb = collect p m cbs @ callbacks now (tobj m1) (timers m1)"
      proof -
        have "filter (due now (tobj m1)) (timers m1) = filter (due now (tobj m)) rest"
          using fil [of "\<lambda>obj q. \<not> timer_cancelled (obj q)"] same by (simp add: due_def [abs_def] conj_commute)
        then have "callbacks now (tobj m1) (timers m1) = callbacks now (tobj m) rest" using same by (rule callbacks_cong)
        then show ?thesis using d by (simp add: Cons callbacks_def map_filter_simps collect_def split: option.split)
      qed
      have obj: "(\<lambda>q. if q \<in> set (timers m) \<and> due now (tobj m) q then expired now (tobj m q) else tobj m q) =
          (\<lambda>q. if q \<in> set (timers m1) \<and> due now (tobj m1) q then expired now (tobj m1 q) else tobj m1 q)"
      proof
        fix q
        have "q \<in> set (filter (\<lambda>q. timer_next (tobj m1 q) \<le> now) (timers m1)) \<longleftrightarrow> q \<in> set rest \<and> timer_next (tobj m q) \<le> now"
          by (simp add: e(5))
        then show "(if q \<in> set (timers m) \<and> due now (tobj m) q then expired now (tobj m q) else tobj m q) =
            (if q \<in> set (timers m1) \<and> due now (tobj m1) q then expired now (tobj m1 q) else tobj m1 q)"
          using d dist same by (cases "q = p") (auto simp: Cons due_def e(2))
      qed
      have sto: "stored m1 + (if again now (tobj m) p then {#} else {#p#}) = stored m" by (rule e(3))
      have fi: "filter (\<lambda>q. timer_next (tobj m1 q) \<le> now \<and> \<not> again now (tobj m1) q) (timers m1) =
          filter (\<lambda>q. timer_next (tobj m q) \<le> now \<and> \<not> again now (tobj m) q) rest"
        using fil [of "\<lambda>obj q. \<not> again now obj q"] same by (simp add: again_def due_def)
      have "length (filter (\<lambda>q. timer_next (tobj m1 q) \<le> now) (timers m1)) < fuel"
        using Suc.prems(3) fire by (simp add: Cons e(5))
      from Suc.IH [OF e(1) clock_from_later [OF Suc.prems(2) e(7)] this, of "collect p m cbs"]
      obtain m' where m': "tree_loop fuel clk now (collect p m cbs) m1 = Some (cbs @ ?cb, m')" "wheels_inv m'"
        "tobj m' = (\<lambda>q. if q \<in> set (timers m) \<and> due now (tobj m) q then expired now (tobj m q) else tobj m q)"
        "stored m' + mset (filter (\<lambda>q. timer_next (tobj m q) \<le> now \<and> \<not> again now (tobj m) q) rest) = stored m1"
        "\<forall>q \<in> set (timers m'). now < timer_next (tobj m' q)" "\<forall>k. future now k m1 \<longrightarrow> future now k m'" "reads m1 \<le> reads m'"
        unfolding cbs [symmetric] obj [symmetric] fi by blast
      have "stored m' + mset (filter (\<lambda>q. timer_next (tobj m q) \<le> now \<and> \<not> again now (tobj m) q) (timers m)) = stored m"
        unfolding sto [symmetric] m'(4) [symmetric] using fire by (simp add: Cons)
      then show ?thesis unfolding loop using m' e(6,7) by (intro exI [of _ m']) (auto intro: order_trans)
    qed
  qed
qed simp

section \<open>One pass\<close>

lemma concat_slots: "shape m \<Longrightarrow> concat (map (\<lambda>i. wheel0 m ! i) [0..<256]) = concat (wheel0 m)"
  by (metis map_nth shape_def)

text \<open>The timers a pass looks at, and what becomes of their objects.\<close>

definition examined :: "TimerManager \<Rightarrow> timer_id list" where
  "examined m = concat (wheel0 m) @ timers m"

definition after_pass :: "u64 \<Rightarrow> TimerManager \<Rightarrow> timer_id \<Rightarrow> Timer" where
  "after_pass now m q = (if q \<in> set (examined m) \<and> due now (tobj m) q then expired now (tobj m q) else tobj m q)"

lemma stored_disjoint: "wheels_inv m \<Longrightarrow> set (concat (wheel0 m)) \<inter> set (timers m) = {}"
proof (rule ccontr)
  assume inv: "wheels_inv m" and "set (concat (wheel0 m)) \<inter> set (timers m) \<noteq> {}"
  then obtain q where "q \<in># mset (concat (wheel0 m))" "q \<in># mset (timers m)" by auto
  then have "0 < count (mset (concat (wheel0 m))) q" "0 < count (mset (timers m)) q" by (simp_all only: count_greater_zero_iff)
  then have "1 < count (stored m) q" unfolding stored_def count_union by linarith
  with inv show False by (auto simp: wheels_inv_def not_less [symmetric])
qed

lemma ex_upper_wheel: "(\<exists>k. P k) \<longleftrightarrow> P W1 \<or> P W2 \<or> P W3"
  by (metis upper_wheel.exhaust)

lemma in_stored_iff:
  "p \<in># stored m \<longleftrightarrow> p \<in> set (concat (wheel0 m)) \<or> p \<in> set (timers m) \<or> (\<exists>k. p \<in> set (concat (get_wheel k m)))"
  unfolding ex_upper_wheel by (auto simp: stored_def get_wheel_def)

lemma dropped:
  assumes "A + D = B" and "p \<in># B" and "p \<notin># D"
  shows "p \<in># A"
  using assms by (metis union_iff)

text \<open>The ordered set before and after the wheels were worked on holds the same expired timers.\<close>

lemma expired_in_set:
  assumes o: "ordered (tobj m) (timers m)" and o1: "ordered (tobj m1) (timers m1)"
    and same: "\<And>q. q \<in> set (timers m) \<Longrightarrow> tobj m1 q = tobj m q" and sub: "set (timers m) \<subseteq> set (timers m1)"
    and new: "\<And>q. q \<in> set (timers m1) \<Longrightarrow> q \<notin> set (timers m) \<Longrightarrow> now < timer_next (tobj m1 q)"
  shows "filter (\<lambda>q. timer_next (tobj m1 q) \<le> now) (timers m1) = filter (\<lambda>q. timer_next (tobj m q) \<le> now) (timers m)"
proof (rule ordered_unique [of "tobj m1"])
  show "ordered (tobj m1) (filter (\<lambda>q. timer_next (tobj m1 q) \<le> now) (timers m1))" by (rule ordered_filter [OF o1])
  have "ordered (tobj m1) (timers m)" using o same by (subst ordered_cong [of _ _ "tobj m"]) auto
  then show "ordered (tobj m1) (filter (\<lambda>q. timer_next (tobj m q) \<le> now) (timers m))" by (rule ordered_filter)
  have "q \<in> set (timers m1) \<and> timer_next (tobj m1 q) \<le> now \<longleftrightarrow> q \<in> set (timers m) \<and> timer_next (tobj m q) \<le> now" for q
  proof (cases "q \<in> set (timers m)")
    case True
    then show ?thesis using sub same by auto
  next
    case False
    then show ?thesis using new [of q] by auto
  qed
  then show "set (filter (\<lambda>q. timer_next (tobj m1 q) \<le> now) (timers m1)) = set (filter (\<lambda>q. timer_next (tobj m q) \<le> now) (timers m))"
    by auto
qed

lemma pass_result:
  assumes inv: "wheels_inv m" and per: "periods_ok now m" and clk: "clock_from now clk m"
    and run: "wheel0_loop clk now [0..<length (wheel0 m)] no_deadline cbs m = Inr (ne, cbs1, m1)"
  shows "\<exists>m'. advanceWheel clk now cbs m = Some (Inr (cbs @ callbacks now (tobj m) (examined m), m')) \<and>
    wheels_inv m' \<and> tobj m' = after_pass now m \<and> stored m' \<subseteq># stored m \<and>
    (\<forall>p \<in># stored m. \<not> timer_cancelled (after_pass now m p) \<longrightarrow> p \<in># stored m') \<and>
    (\<forall>p \<in># stored m'. p \<in> set (concat (wheel0 m')) \<or> now < timer_next (tobj m' p)) \<and> reads m \<le> reads m' \<and>
    (\<forall>p \<in> set (concat (wheel0 m)) \<union> set (timers m'). \<not> timer_cancelled (tobj m p) \<longrightarrow> \<not> due now (tobj m) p \<longrightarrow>
       earliestNext m' \<le> timer_next (tobj m p))"
proof -
  define E where "E = concat (wheel0 m)"
  have sh: "shape m" and ord: "ordered (tobj m) (timers m)" using inv by (simp_all add: wheels_inv_def)
  have len: "length (wheel0 m) = 256" using sh by (simp add: shape_def)
  have EE: "E = concat (map (\<lambda>i. wheel0 m ! i) [0..<256])" by (simp add: E_def concat_slots [OF sh])
  have "swept now E m m1 \<and> wheels_inv m1 \<and> cbs1 = cbs @ callbacks now (tobj m) E \<and>
    stored m1 + mset (filter (\<lambda>p. \<not> keeps now (tobj m) p) E) = stored m \<and> ne \<le> no_deadline \<and>
    (\<forall>p \<in> set E. \<not> timer_cancelled (tobj m p) \<longrightarrow> \<not> due now (tobj m) p \<longrightarrow> ne \<le> timer_next (tobj m p))"
    by (rule wheel0_loop_result [OF inv per clk _ _ run [unfolded len] EE]) simp_all
  then have w: "swept now E m m1" "wheels_inv m1" "cbs1 = cbs @ callbacks now (tobj m) E"
    "stored m1 + mset (filter (\<lambda>p. \<not> keeps now (tobj m) p) E) = stored m"
    "\<And>p. p \<in> set E \<Longrightarrow> \<not> timer_cancelled (tobj m p) \<Longrightarrow> \<not> due now (tobj m) p \<Longrightarrow> ne \<le> timer_next (tobj m p)" by blast+
  note sw = sweptD [OF w(1)]
  define m2 where "m2 = cascade clk W3 (cascade clk W2 (cascade clk W1 m1))"
  note c = cascades_result [OF w(2) clock_from_later [OF clk sw(6)] m2_def]
  note v = movedD [OF c(1)]
  have fuel: "length (filter (\<lambda>q. timer_next (tobj m2 q) \<le> now) (timers m2)) < Suc (length (timers m2))"
    by (simp add: less_Suc_eq_le)
  from tree_loop_result [OF c(3,4) fuel, of cbs1] c(5) obtain m3 where
    t: "tree_loop (Suc (length (timers m2))) clk now cbs1 m2 = Some (cbs1 @ callbacks now (tobj m2) (timers m2), m3)"
    "wheels_inv m3"
    "tobj m3 = (\<lambda>q. if q \<in> set (timers m2) \<and> due now (tobj m2) q then expired now (tobj m2 q) else tobj m2 q)"
    "stored m3 + mset (filter (\<lambda>q. timer_next (tobj m2 q) \<le> now \<and> \<not> again now (tobj m2) q) (timers m2)) = stored m2"
    "\<And>q. q \<in> set (timers m3) \<Longrightarrow> now < timer_next (tobj m3 q)" "\<And>k. future now k m3" "reads m2 \<le> reads m3" by blast
  have dis: "set E \<inter> set (timers m) = {}" using stored_disjoint [OF inv] by (simp add: E_def)
  have same: "tobj m2 q = tobj m q" if "q \<in> set (timers m)" for q using that dis by (auto simp: v(1) sw(2))
  have ex: "filter (\<lambda>q. timer_next (tobj m2 q) \<le> now) (timers m2) = filter (\<lambda>q. timer_next (tobj m q) \<le> now) (timers m)"
  proof (rule expired_in_set [OF ord _ same])
    show "ordered (tobj m2) (timers m2)" using c(3) by (simp add: wheels_inv_def)
    show "set (timers m) \<subseteq> set (timers m2)" using sw(4) v(6) by blast
    show "now < timer_next (tobj m2 q)" if "q \<in> set (timers m2)" "q \<notin> set (timers m)" for q
      using v(4) [OF that(1)] sw(5) [OF _ that(2)] unfolding v(1) by blast
  qed
  have due: "q \<in> set (timers m2) \<and> due now (tobj m2) q \<longleftrightarrow> q \<in> set (timers m) \<and> due now (tobj m) q" for q
  proof -
    have "q \<in> set (timers m2) \<and> timer_next (tobj m2 q) \<le> now \<longleftrightarrow> q \<in> set (timers m) \<and> timer_next (tobj m q) \<le> now"
      using arg_cong [OF ex, of set] by auto
    then show ?thesis using same by (auto simp: due_def)
  qed
  have "filter (due now (tobj m2)) (timers m2) = filter (due now (tobj m)) (timers m)"
  proof -
    have "filter (due now (tobj m2)) (filter (\<lambda>q. timer_next (tobj m2 q) \<le> now) (timers m2)) =
        filter (due now (tobj m)) (filter (\<lambda>q. timer_next (tobj m q) \<le> now) (timers m))"
      unfolding ex using same by (intro filter_cong) (auto simp: due_def)
    then show ?thesis by (simp add: due_def [abs_def] conj_ac cong: conj_cong)
  qed
  then have cb: "cbs1 @ callbacks now (tobj m2) (timers m2) = cbs @ callbacks now (tobj m) (examined m)"
    using callbacks_cong [OF _ same] by (simp add: w(3) examined_def E_def callbacks_append)
  have obj: "tobj m3 = after_pass now m"
  proof
    fix q show "tobj m3 q = after_pass now m q"
      unfolding t(3) due using same dis by (auto simp: after_pass_def examined_def v(1) sw(2) E_def)
  qed
  define ne' where "ne' = (case timers m3 of [] \<Rightarrow> ne
    | p # _ \<Rightarrow> if timer_next (tobj m3 p) < ne then timer_next (tobj m3 p) else ne)"
  define m' where "m' = m3\<lparr>earliestNext := ne'\<rparr>"
  have m': "tobj m' = tobj m3" "timers m' = timers m3" "stored m' = stored m3" "wheel0 m' = wheel0 m3" "wheels_inv m' = wheels_inv m3"
    "reads m' = reads m3" "earliestNext m' = ne'"
    by (simp_all add: m'_def stored_def wheels_inv_def shape_def)
  have adv: "advanceWheel clk now cbs m = Some (Inr (cbs @ callbacks now (tobj m) (examined m), m'))"
    by (simp add: advanceWheel_def run m2_def [symmetric] t(1) cb Let_def m'_def ne'_def del: tree_loop.simps)
  have sub: "stored m3 \<subseteq># stored m"
  proof -
    have "stored m2 \<subseteq># stored m1" using c(2) unfolding kept_def by (metis mset_subset_eq_add_left)
    moreover have "stored m3 \<subseteq># stored m2" "stored m1 \<subseteq># stored m" using t(4) w(4) by (metis mset_subset_eq_add_left)+
    ultimately show ?thesis by (meson subset_mset.order_trans)
  qed
  have live: "p \<in># stored m3" if p: "p \<in># stored m" "\<not> timer_cancelled (after_pass now m p)" for p
  proof -
    have "p \<notin># mset (filter (\<lambda>p. \<not> keeps now (tobj m) p) E)"
      using p(2) by (auto simp: after_pass_def examined_def E_def keeps_def due_def split: if_splits)
    then have 1: "p \<in># stored m1" by (rule dropped [OF w(4) p(1)])
    obtain D where D: "stored m2 + D = stored m1" "\<forall>p \<in># D. timer_cancelled (tobj m1 p)" using c(2) by (auto simp: kept_def)
    have "\<not> timer_cancelled (tobj m1 p)" using p(2) by (auto simp: after_pass_def examined_def sw(2) E_def due_def split: if_splits)
    then have 2: "p \<in># stored m2" using dropped [OF D(1) 1] D(2) by blast
    have "p \<notin># mset (filter (\<lambda>q. timer_next (tobj m2 q) \<le> now \<and> \<not> again now (tobj m2) q) (timers m2))"
    proof
      assume "p \<in># mset (filter (\<lambda>q. timer_next (tobj m2 q) \<le> now \<and> \<not> again now (tobj m2) q) (timers m2))"
      then have a: "p \<in> set (timers m2)" "timer_next (tobj m2 p) \<le> now" "\<not> again now (tobj m2) p" by auto
      have t3: "\<not> timer_cancelled (tobj m3 p)" using p(2) by (simp add: obj)
      then have "due now (tobj m2) p" using a(1,2) by (auto simp: t(3) due_def split: if_splits)
      with t3 a show False by (auto simp: t(3) again_def split: if_splits)
    qed
    then show ?thesis by (rule dropped [OF t(4) 2])
  qed
  have late: "p \<in> set (concat (wheel0 m3)) \<or> now < timer_next (tobj m3 p)" if "p \<in># stored m3" for p
    using that t(5,6) unfolding future_def in_stored_iff by blast
  have "ne' \<le> ne" by (auto simp: ne'_def not_less split: list.split)
  moreover have "ne' \<le> timer_next (tobj m3 p)" if "p \<in> set (timers m3)" for p
  proof -
    obtain q qs where q: "timers m3 = q # qs" using \<open>p \<in> set (timers m3)\<close> by (cases "timers m3") auto
    have "ordered (tobj m3) (q # qs)" using t(2) by (simp add: wheels_inv_def q)
    then have "timer_next (tobj m3 q) \<le> timer_next (tobj m3 p)" using ordered_Cons that by (auto simp: q)
    moreover have "ne' \<le> timer_next (tobj m3 q)" by (auto simp: ne'_def q not_less)
    ultimately show ?thesis by simp
  qed
  ultimately have "ne' \<le> timer_next (tobj m p)"
    if "p \<in> set (concat (wheel0 m)) \<union> set (timers m3)" "\<not> timer_cancelled (tobj m p)" "\<not> due now (tobj m) p" for p
  proof (cases "p \<in> set E")
    case True
    then show ?thesis using w(5) [OF True that(2,3)] \<open>ne' \<le> ne\<close> by simp
  next
    case False
    then have "p \<in> set (timers m3)" using that(1) by (auto simp: E_def)
    moreover have "tobj m3 p = tobj m p" using that(3) by (simp add: obj after_pass_def)
    ultimately show ?thesis using \<open>\<And>p. p \<in> set (timers m3) \<Longrightarrow> ne' \<le> timer_next (tobj m3 p)\<close> by metis
  qed
  moreover have "reads m \<le> reads m3" using sw(6) v(7) t(7) by linarith
  ultimately show ?thesis
    using adv t(2) obj sub live late by (intro exI [of _ m'] conjI) (simp_all add: m')
qed

section \<open>Passes without recurring timers are defined\<close>

lemma slot_loop_defined:
  assumes "\<forall>p \<in> set ps. due now (tobj m) p \<longrightarrow> \<not> timer_recurring (tobj m p)"
  shows "\<exists>r. slot_loop clk now i ps rem ne cbs m = Inr r \<and> wheel0 (snd (snd (snd r))) = wheel0 m \<and>
    (\<forall>q. again now (tobj (snd (snd (snd r)))) q \<longrightarrow> again now (tobj m) q)"
  using assms
proof (induction ps arbitrary: rem ne cbs m)
  case (Cons p ps)
  consider (dead) "timer_cancelled (tobj m p)" | (due) "due now (tobj m) p" | (late) "\<not> timer_cancelled (tobj m p)" "\<not> timer_next (tobj m p) \<le> now"
    by (auto simp: due_def)
  then show ?case
  proof cases
    case due
    define m1 where "m1 = upd_timer p (\<lambda>t. t\<lparr>timer_cb := None, timer_cancelled := True\<rparr>) m"
    have one: "\<not> timer_recurring (tobj m p)" using Cons.prems due by simp
    then have e: "expire clk now p m = m1" by (simp add: expire_def m1_def)
    have w: "wheel0 m1 = wheel0 m" by (simp add: m1_def)
    have a: "again now (tobj m) q" if "again now (tobj m1) q" for q
      using that by (auto simp: m1_def again_def due_def split: if_splits)
    then have "\<forall>q \<in> set ps. due now (tobj m1) q \<longrightarrow> \<not> timer_recurring (tobj m1 q)"
      using Cons.prems by (auto simp: again_def)
    from Cons.IH [OF this, of rem ne "collect p m cbs"] show ?thesis
      using due a by (auto simp: due_def e w)
  qed (use Cons in auto)
qed simp

lemma wheel0_loop_defined:
  assumes "distinct is" and "\<forall>i \<in> set is. \<forall>p \<in> set (wheel0 m ! i). \<not> again now (tobj m) p"
  shows "\<exists>r. wheel0_loop clk now is ne cbs m = Inr r"
  using assms
proof (induction "is" arbitrary: ne cbs m)
  case (Cons i "is")
  show ?case
  proof (cases "wheel0 m ! i = []")
    case False
    have "\<forall>p \<in> set (wheel0 m ! i). due now (tobj m) p \<longrightarrow> \<not> timer_recurring (tobj m p)"
      using Cons.prems(2) by (auto simp: again_def)
    from slot_loop_defined [OF this, of clk i "[]" ne cbs] obtain rem ne1 cbs1 m1 where
      s: "slot_loop clk now i (wheel0 m ! i) [] ne cbs m = Inr (rem, ne1, cbs1, m1)" "wheel0 m1 = wheel0 m"
        "\<forall>q. again now (tobj m1) q \<longrightarrow> again now (tobj m) q" by auto
    have "i \<noteq> j" if "j \<in> set is" for j using that Cons.prems(1) by auto
    then have "\<forall>j \<in> set is. \<forall>p \<in> set (wheel0 (m1\<lparr>wheel0 := (wheel0 m1)[i := rem]\<rparr>) ! j).
        \<not> again now (tobj (m1\<lparr>wheel0 := (wheel0 m1)[i := rem]\<rparr>)) p"
      using Cons.prems(2) s(2,3) by auto
    from Cons.IH [OF _ this] Cons.prems(1) show ?thesis using False by (simp add: s(1))
  qed (use Cons in simp)
qed simp

lemma pass_defined:
  assumes "wheels_inv m" and "\<forall>p \<in> set (concat (wheel0 m)). \<not> again now (tobj m) p"
  shows "\<exists>ne cbs1 m1. wheel0_loop clk now [0..<length (wheel0 m)] no_deadline cbs m = Inr (ne, cbs1, m1)"
proof -
  have "\<exists>r. wheel0_loop clk now [0..<length (wheel0 m)] no_deadline cbs m = Inr r"
    by (rule wheel0_loop_defined) (use assms(2) in \<open>auto simp: in_concat_nth simp del: set_concat\<close>)
  then show ?thesis by auto
qed

section \<open>Passes by the clock\<close>

definition clock_mono :: "clock \<Rightarrow> bool" where
  "clock_mono clk \<longleftrightarrow> (\<forall>i j. i \<le> j \<longrightarrow> clk i \<le> clk j)"

definition at_pass :: "clock \<Rightarrow> TimerManager \<Rightarrow> TimerManager" where
  "at_pass clk m = m\<lparr>reads := Suc (reads m), previouseTime := clk (reads m)\<rparr>"

lemma at_pass_fields [simp]:
  "tobj (at_pass clk m) = tobj m" "wheel0 (at_pass clk m) = wheel0 m" "timers (at_pass clk m) = timers m"
  "reads (at_pass clk m) = Suc (reads m)" "stored (at_pass clk m) = stored m" "wheels_inv (at_pass clk m) = wheels_inv m"
  "periods_ok now (at_pass clk m) = periods_ok now m" "examined (at_pass clk m) = examined m"
  "after_pass now (at_pass clk m) = after_pass now m"
  by (simp_all add: at_pass_def stored_def wheels_inv_def shape_def periods_ok_def examined_def after_pass_def fun_eq_iff)

lemma listExpiredCb_pass: "listExpiredCb clk cbs m = advanceWheel clk (clk (reads m)) cbs (at_pass clk m)"
  by (simp add: listExpiredCb_def GetElapsedMS_def detectClockRolllover_def at_pass_def)

lemma clock_from_mono: "clock_mono clk \<Longrightarrow> clock_from (clk (reads m)) clk (at_pass clk m)"
  by (simp add: clock_from_def clock_mono_def)

lemma listExpiredCb_result:
  assumes "clock_mono clk" and "wheels_inv m" and "periods_ok (clk (reads m)) m"
  obtains (undef) e where "listExpiredCb clk cbs m = Some (Inl e)"
      "\<exists>p \<in> set (concat (wheel0 m)). again (clk (reads m)) (tobj m) p"
    | (pass) m' where "listExpiredCb clk cbs m = Some (Inr (cbs @ callbacks (clk (reads m)) (tobj m) (examined m), m'))"
      "wheels_inv m'" "tobj m' = after_pass (clk (reads m)) m" "stored m' \<subseteq># stored m"
      "\<forall>p \<in># stored m. \<not> timer_cancelled (after_pass (clk (reads m)) m p) \<longrightarrow> p \<in># stored m'"
      "\<forall>p \<in># stored m'. p \<in> set (concat (wheel0 m')) \<or> clk (reads m) < timer_next (tobj m' p)" "reads m \<le> reads m'"
proof (cases "wheel0_loop clk (clk (reads m)) [0..<length (wheel0 (at_pass clk m))] no_deadline cbs (at_pass clk m)")
  case (Inl e)
  then have "listExpiredCb clk cbs m = Some (Inl e)" by (simp add: listExpiredCb_pass advanceWheel_def)
  moreover have "\<exists>p \<in> set (concat (wheel0 m)). again (clk (reads m)) (tobj m) p"
    using pass_defined [of "at_pass clk m" "clk (reads m)" clk cbs] assms(2) Inl by auto
  ultimately show ?thesis by (rule undef)
next
  case (Inr r)
  then obtain ne cbs1 m1 where
    "wheel0_loop clk (clk (reads m)) [0..<length (wheel0 (at_pass clk m))] no_deadline cbs (at_pass clk m) = Inr (ne, cbs1, m1)"
    by (cases r) auto
  from pass_result [OF _ _ clock_from_mono [OF assms(1)] this] assms show ?thesis
    unfolding listExpiredCb_pass [symmetric] at_pass_fields using pass Suc_leD by blast
qed

end
