(* ===== verification/Timer_Safety.thy ===== *)
theory Timer_Safety
  imports Timer_Pass
begin

text \<open>
  The timer manager as a transition system with its invariant, and the properties of
  insertion, cancellation, the wait hint and the expiry pass.
\<close>

section \<open>The manager as a transition system\<close>

text \<open>
  The clock never goes back and stays below \<open>2^63\<close> milliseconds, and recurring timers have a
  period between one millisecond and \<open>2^63\<close>.
\<close>

definition clock_ok :: "clock \<Rightarrow> bool" where
  "clock_ok clk \<longleftrightarrow> clock_mono clk \<and> (\<forall>k. clk k < 2 ^ 63)"

definition period_ok :: "Timer \<Rightarrow> bool" where
  "period_ok t \<longleftrightarrow> timer_recurring t \<longrightarrow> 0 < timer_ms t \<and> timer_ms t < 2 ^ 63"

text \<open>
  The steps are the critical sections of the manager's lock and what runs outside of them. A
  timer that a container holds is alive, so a new object has another address.
\<close>

inductive timer_step :: "clock \<Rightarrow> TimerManager \<Rightarrow> TimerManager \<Rightarrow> bool" for clk where
  create: "p \<notin># stored m \<Longrightarrow> timer_step clk m (Timer_new clk p n c r m)"
| insert: "p \<notin># stored m \<Longrightarrow> period_ok (tobj m p) \<Longrightarrow> timer_step clk m (fst (addTimer_locked clk p m))"
| flag: "timer_step clk m (fst (cancel_flag p m))"
| clear: "timer_step clk m (cancel_clear p m)"
| ask: "timer_step clk m (snd (getNextTimer clk m))"
| pass: "listExpiredCb clk cbs m = Some (Inr (cbs', m')) \<Longrightarrow> timer_step clk m m'"

definition timers_inv :: "TimerManager \<Rightarrow> bool" where
  "timers_inv m \<longleftrightarrow> wheels_inv m \<and> (\<forall>p \<in># stored m. period_ok (tobj m p))"

lemma period_no_wrap:
  fixes now n :: u64
  assumes "now < 2 ^ 63" and "0 < n" and "n < 2 ^ 63"
  shows "now < now + n"
proof -
  have "unat now < 2 ^ 63" "unat n < 2 ^ 63" "0 < unat n" using assms by (simp_all add: word_less_nat_alt)
  then have "unat (now + n) = unat now + unat n" by (subst unat_plus_if_size) (simp add: word_size)
  with \<open>0 < unat n\<close> show ?thesis by (simp add: word_less_nat_alt)
qed

lemma timers_inv_periods: "timers_inv m \<Longrightarrow> now < 2 ^ 63 \<Longrightarrow> periods_ok now m"
  by (auto simp: timers_inv_def periods_ok_def period_ok_def intro: period_no_wrap)

lemma wheels_inv_tobj:
  assumes "wheels_inv m" and "\<And>p. p \<in># stored m \<Longrightarrow> timer_next (g p) = timer_next (tobj m p)"
    and "m' = m\<lparr>tobj := g, reads := k, tickled := b\<rparr>"
  shows "wheels_inv m'" and "stored m' = stored m"
proof -
  show st: "stored m' = stored m" by (simp add: assms(3) stored_def)
  have "ordered g (timers m) = ordered (tobj m) (timers m)"
    by (rule ordered_cong) (simp add: assms(2) in_stored_iff)
  then show "wheels_inv m'" using assms(1) st by (simp add: wheels_inv_def assms(3) shape_def)
qed

lemma timers_inv_tobj:
  assumes "timers_inv m" and "\<And>p. p \<in># stored m \<Longrightarrow> timer_next (g p) = timer_next (tobj m p) \<and> period_ok (g p) = period_ok (tobj m p)"
    and "m' = m\<lparr>tobj := g, reads := k, tickled := b\<rparr>"
  shows "timers_inv m'"
proof -
  have w: "wheels_inv m" using assms(1) by (simp add: timers_inv_def)
  have "timer_next (g p) = timer_next (tobj m p)" if "p \<in># stored m" for p using assms(2) that by blast
  note i = wheels_inv_tobj [OF w this assms(3)]
  then show ?thesis using assms(1,2) by (auto simp: timers_inv_def assms(3))
qed

lemma inserted_inv:
  assumes i: "inserted now p m m'" and inv: "wheels_inv m" and p: "p \<notin># stored m"
  shows "wheels_inv m'"
proof -
  have "stored m' = add_mset p (stored m)" "shape m'" "ordered (tobj m) (timers m) \<longrightarrow> ordered (tobj m') (timers m')"
    using i unfolding inserted_def by blast+
  moreover have "count (stored m) p = 0" using p by (simp add: not_in_iff)
  ultimately show ?thesis using inv by (auto simp: wheels_inv_def)
qed

lemma inserted_tickled: "inserted now p m (x\<lparr>tickled := b\<rparr>) = inserted now p m x"
proof -
  have "get_wheel k (x\<lparr>tickled := b\<rparr>) = get_wheel k x" for k by (simp add: get_wheel_def split: upper_wheel.split)
  then show ?thesis by (simp add: inserted_def stored_def shape_def)
qed

lemma addTimer_locked_inserted:
  assumes "wheels_inv m" and "p \<notin># stored m" and "m' = fst (addTimer_locked clk p m)"
  shows "inserted (clk (reads m)) p m m'"
proof -
  have "p \<notin> set (timers m)" using assms(2) by (auto simp: in_stored_iff)
  then have "inserted (clk (reads m)) p m (insertToWheel clk p m)"
    using assms(1) by (intro insertToWheel_inserted) (simp_all add: wheels_inv_def)
  moreover have "m' = insertToWheel clk p m \<or> m' = (insertToWheel clk p m)\<lparr>tickled := True\<rparr>"
    by (auto simp: assms(3) addTimer_locked_def Let_def)
  ultimately show ?thesis by (auto simp: inserted_tickled)
qed

lemma period_ok_expired [simp]: "period_ok (expired now t) = period_ok t"
  by (simp add: period_ok_def)

lemma timers_step:
  assumes ck: "clock_ok clk" and inv: "timers_inv m" and step: "timer_step clk m m'"
  shows "timers_inv m'"
  using step
proof cases
  case (create p n c r)
  show ?thesis
    by (rule timers_inv_tobj [OF inv _, where g = "(tobj m)(p := \<lparr>timer_recurring = r, timer_ms = n, timer_next = clk (reads m) + n,
          timer_cb = Some c, timer_cancelled = False\<rparr>)" and k = "Suc (reads m)" and b = "tickled m"])
      (use create(2) in \<open>auto simp: create(1) Timer_new_def GetElapsedMS_def upd_timer_def\<close>)
next
  case (insert p)
  have w: "wheels_inv m" using inv by (simp add: timers_inv_def)
  note i = addTimer_locked_inserted [OF w insert(2,1)]
  have "tobj m' = tobj m" "stored m' = add_mset p (stored m)" using i unfolding inserted_def by blast+
  then show ?thesis using inserted_inv [OF i w insert(2)] inv insert(3) by (simp add: timers_inv_def)
next
  case (flag p)
  show ?thesis
    by (rule timers_inv_tobj [OF inv _, where g = "(tobj m)(p := (tobj m p)\<lparr>timer_cancelled := True\<rparr>)" and k = "reads m" and b = "tickled m"])
      (auto simp: flag cancel_flag_def upd_timer_def period_ok_def)
next
  case (clear p)
  show ?thesis
    by (rule timers_inv_tobj [OF inv _, where g = "(tobj m)(p := (tobj m p)\<lparr>timer_cb := None\<rparr>)" and k = "reads m" and b = "tickled m"])
      (auto simp: clear cancel_clear_def upd_timer_def period_ok_def)
next
  case ask
  show ?thesis
    by (rule timers_inv_tobj [OF inv _, where g = "tobj m" and k = "Suc (reads m)" and b = False]) (auto simp: ask getNextTimer_def GetElapsedMS_def Let_def)
next
  case (pass cbs cbs')
  note run = pass
  have "clock_mono clk" "wheels_inv m" "periods_ok (clk (reads m)) m"
    using ck inv timers_inv_periods by (auto simp: clock_ok_def timers_inv_def)
  then show ?thesis
  proof (cases rule: listExpiredCb_result [of clk m cbs])
    case (pass m1)
    with run have m1: "m1 = m'" by simp
    have "period_ok (tobj m' p)" if "p \<in># stored m'" for p
      using that mset_subset_eqD [OF pass(4)] inv unfolding m1 [symmetric] pass(3)
      by (auto simp: after_pass_def timers_inv_def)
    then show ?thesis using pass(2) by (simp add: timers_inv_def m1)
  qed (use run in simp)
qed

lemma timers_inv_new: "timers_inv (TimerManager_new clk)"
proof -
  have "concat (replicate k []) = []" for k by (induction k) auto
  then show ?thesis
    by (simp add: timers_inv_def TimerManager_new_def wheels_inv_def shape_def stored_def ordered_def)
qed

interpretation timers: invariant_of "\<lambda>m. m = TimerManager_new clk" "timer_step clk" "\<lambda>m. clock_ok clk \<longrightarrow> timers_inv m" for clk
  by unfold_locales (auto intro: timers_inv_new timers_step)

section \<open>Properties\<close>

text \<open>Clocks of the examples: a constant one, and one that reads 0, 0, 1, 256 and then 257.\<close>

definition steady :: clock where
  "steady k = 5"

definition ticking :: clock where
  "ticking k = (if k \<le> 1 then 0 else if k = 2 then 1 else if k = 3 then 256 else 257)"

text \<open>A manager with one timer that expires at once.\<close>

definition example_timers :: TimerManager where
  "example_timers = fst (addTimer steady 7 0 3 False (TimerManager_new steady))"

lemma steady_ok: "clock_ok steady" "clock_mono steady"
  by (simp_all add: clock_ok_def clock_mono_def steady_def)

lemma example_timers_steps: "(timer_step steady)\<^sup>*\<^sup>* (TimerManager_new steady) example_timers"
proof -
  have e: "stored (TimerManager_new steady) = {#}" by (simp add: stored_def TimerManager_new_def)
  let ?m = "Timer_new steady 7 0 3 False (TimerManager_new steady)"
  have m: "stored ?m = {#}" "\<not> timer_recurring (tobj ?m 7)"
    using e by (simp_all add: Timer_new_def GetElapsedMS_def stored_def upd_timer_def)
  have "timer_step steady (TimerManager_new steady) ?m" by (rule create) (simp add: e)
  moreover have "timer_step steady ?m example_timers"
    unfolding example_timers_def addTimer_def using m by (intro timer_step.insert) (simp_all add: period_ok_def)
  ultimately show ?thesis by (rule converse_rtranclp_into_rtranclp [OF _ r_into_rtranclp])
qed

lemma example_timers_inv: "timers_inv example_timers"
  using timers.inv_reachable [OF refl example_timers_steps] steady_ok by blast

lemma example_timers_periods: "periods_ok (steady k) example_timers"
  by (rule timers_inv_periods [OF example_timers_inv]) (simp add: steady_def)

lemma example_containers:
  "concat (wheel0 example_timers) = [7]" "concat (wheel1 example_timers) = []" "concat (wheel2 example_timers) = []"
  "concat (wheel3 example_timers) = []" "timers example_timers = []" "reads example_timers = 3"
  "\<not> timer_recurring (tobj example_timers 7)" "timer_next (tobj example_timers 7) = 5"
  "timer_cb (tobj example_timers 7) = Some 3" "\<not> timer_cancelled (tobj example_timers 7)"
  by code_simp+

lemma example_stored: "stored example_timers = {#7#}"
  by (simp add: stored_def example_containers del: mset_concat)

lemmas example_facts = example_containers example_stored

lemma example_pre:
  "clock_mono steady" "wheels_inv example_timers" "periods_ok (steady (reads example_timers)) example_timers"
  using steady_ok example_timers_inv example_timers_periods by (auto simp: timers_inv_def)

text \<open>
  In every state the manager reaches, each wheel has its slots, no timer is stored twice
  and the ordered set is strictly sorted by its comparator.
\<close>

theorem timers_stored_once:
  assumes "clock_ok clk" and "(timer_step clk)\<^sup>*\<^sup>* (TimerManager_new clk) m"
  shows "length (wheel0 m) = 256 \<and> length (wheel1 m) = 64 \<and> length (wheel2 m) = 64 \<and> length (wheel3 m) = 64 \<and>
    (\<forall>p. count (stored m) p \<le> 1) \<and> sorted_wrt (\<lambda>p q. Comparator (tobj m) (Some p) (Some q)) (timers m)"
  using timers.inv_reachable [OF refl assms(2)] assms(1)
  by (simp add: timers_inv_def wheels_inv_def shape_def ordered_def)

theorem timers_stored_once_witness:
  "clock_ok steady \<and> (timer_step steady)\<^sup>*\<^sup>* (TimerManager_new steady) example_timers \<and> length (wheel0 example_timers) = 256"
  using timers_stored_once [OF steady_ok(1) example_timers_steps] steady_ok(1) example_timers_steps by blast

text \<open>
  C7: A pass appends to the caller's vector exactly the callbacks of the timers of the first
  wheel and of the ordered set that are live and due, in the order of the slots and then of the
  set, each once. One-shot timers that fired end cancelled and without a callback, recurring
  ones get their next expiry, no other timer object changes, and every timer that is not
  cancelled afterwards is still stored.
\<close>

theorem expiry_pass_exact:
  assumes "clock_mono clk" and "wheels_inv m" and "periods_ok (clk (reads m)) m"
    and "listExpiredCb clk cbs m = Some (Inr (cbs', m'))"
  shows "cbs' = cbs @ List.map_filter (\<lambda>p. timer_cb (tobj m p))
      (filter (\<lambda>p. \<not> timer_cancelled (tobj m p) \<and> timer_next (tobj m p) \<le> clk (reads m)) (concat (wheel0 m) @ timers m)) \<and>
    (\<forall>p. tobj m' p = (if p \<in> set (concat (wheel0 m) @ timers m) \<and> \<not> timer_cancelled (tobj m p) \<and> timer_next (tobj m p) \<le> clk (reads m)
       then expired (clk (reads m)) (tobj m p) else tobj m p)) \<and>
    stored m' \<subseteq># stored m \<and> (\<forall>p. p \<in># stored m \<and> \<not> timer_cancelled (tobj m' p) \<longrightarrow> p \<in># stored m')"
  using assms(1-3)
proof (cases rule: listExpiredCb_result [of _ _ cbs])
  case (pass m1)
  have d: "due now obj = (\<lambda>p. \<not> timer_cancelled (obj p) \<and> timer_next (obj p) \<le> now)" for now obj
    by (auto simp: due_def)
  from pass(1) assms(4) have "m1 = m'" "cbs' = cbs @ callbacks (clk (reads m)) (tobj m) (examined m)" by simp_all
  then show ?thesis using pass(3-5) unfolding after_pass_def [abs_def] callbacks_def examined_def d by simp
qed (use assms(4) in simp)

theorem expiry_pass_exact_witness:
  "clock_mono steady \<and> wheels_inv example_timers \<and> periods_ok (steady (reads example_timers)) example_timers \<and>
   (\<exists>m'. listExpiredCb steady [9] example_timers = Some (Inr ([9, 3], m')) \<and> timer_cancelled (tobj m' 7))"
proof -
  from example_pre show ?thesis
  proof (cases rule: listExpiredCb_result [of _ _ "[9]"])
    case (undef e)
    then show ?thesis using example_facts by (auto simp: again_def)
  next
    case (pass m')
    have now: "steady k = 5" for k by (simp add: steady_def)
    have cb: "callbacks (steady (reads example_timers)) (tobj example_timers) (examined example_timers) = [3]"
      by (simp add: callbacks_def examined_def example_containers due_def map_filter_simps now)
    have "tobj m' 7 = expired 5 (tobj example_timers 7)"
      using expiry_pass_exact [OF example_pre pass(1)] by (simp add: example_containers now del: set_concat)
    then have "timer_cancelled (tobj m' 7)" by (simp add: example_containers)
    then show ?thesis using pass(1) example_pre unfolding cb by auto
  qed
qed





lemma slot_arith:
  "slot0 n = unat n mod 2 ^ 8" "slot1 n = unat n div 2 ^ 8 mod 2 ^ 6" "slot2 n = unat n div 2 ^ 14 mod 2 ^ 6"
  "slot3 n = unat n div 2 ^ 20 mod 2 ^ 6"
proof -
  have "(0xFF :: u64) = mask 8" "(0x3F :: u64) = mask 6" by (simp_all add: mask_eq_exp_minus_1)
  then have m: "unat (x AND 0xFF) = unat x mod 2 ^ 8" "unat (x AND 0x3F) = unat x mod 2 ^ 6" for x :: u64
    by (simp_all only: take_bit_eq_mask [symmetric] unsigned_take_bit_eq)
      (simp_all only: take_bit_eq_mod)
  have d: "unat (drop_bit k x) = unat x div 2 ^ k" for x :: u64 and k
    by (simp only: unat_drop_bit_eq) (simp only: drop_bit_eq_div)
  show "slot0 n = unat n mod 2 ^ 8" "slot1 n = unat n div 2 ^ 8 mod 2 ^ 6" "slot2 n = unat n div 2 ^ 14 mod 2 ^ 6"
    "slot3 n = unat n div 2 ^ 20 mod 2 ^ 6"
    by (simp_all only: slot0_def slot1_def slot2_def slot3_def m d)
qed

text \<open>
  C20: Insertion puts a timer into the one container for its remaining time, in the slot that
  its expiry time selects by division and remainder; the slot exists, and the hint is not
  later than the timer.
\<close>

theorem insertion_slot:
  assumes "wheels_inv m" and "p \<notin># stored m" and "n = unat (timer_next (tobj m p))" and "now = unat (clk (reads m))"
    and "m' = insertToWheel clk p m"
  shows "stored m' = add_mset p (stored m) \<and> earliestNext m' \<le> timer_next (tobj m p) \<and>
    (if n - now < 2 ^ 8 then p \<in> set (wheel0 m' ! (n mod 2 ^ 8)) \<and> n mod 2 ^ 8 < length (wheel0 m')
     else if n - now < 2 ^ 14 then p \<in> set (wheel1 m' ! (n div 2 ^ 8 mod 2 ^ 6)) \<and> n div 2 ^ 8 mod 2 ^ 6 < length (wheel1 m')
     else if n - now < 2 ^ 20 then p \<in> set (wheel2 m' ! (n div 2 ^ 14 mod 2 ^ 6)) \<and> n div 2 ^ 14 mod 2 ^ 6 < length (wheel2 m')
     else if n - now < 2 ^ 26 then p \<in> set (wheel3 m' ! (n div 2 ^ 20 mod 2 ^ 6)) \<and> n div 2 ^ 20 mod 2 ^ 6 < length (wheel3 m')
     else p \<in> set (timers m'))"
proof -
  have sh: "length (wheel0 m) = 256" "length (wheel1 m) = 64" "length (wheel2 m) = 64" "length (wheel3 m) = 64"
    using assms(1) by (simp_all add: wheels_inv_def shape_def)
  have pt: "p \<notin> set (timers m)" using assms(2) by (simp add: in_stored_iff)
  have i: "inserted (clk (reads m)) p m m'"
    unfolding assms(5) using assms(1) pt by (intro insertToWheel_inserted) (simp_all add: wheels_inv_def)
  define d where "d = (if timer_next (tobj m p) > clk (reads m) then timer_next (tobj m p) - clk (reads m) else 0)"
  have d: "unat d = n - now" by (auto simp: d_def assms(3,4) unat_sub [OF less_imp_le] not_less word_le_nat_alt)
  have c: "d < 256 \<longleftrightarrow> n - now < 2 ^ 8" "d < 2 ^ 14 \<longleftrightarrow> n - now < 2 ^ 14" "d < 2 ^ 20 \<longleftrightarrow> n - now < 2 ^ 20" "d < 2 ^ 26 \<longleftrightarrow> n - now < 2 ^ 26"
    by (simp_all add: word_less_nat_alt d)
  define m1 where "m1 = updateEarliestNext (timer_next (tobj m p)) (m\<lparr>reads := Suc (reads m)\<rparr>)"
  have m1: "tobj m1 = tobj m" "wheel0 m1 = wheel0 m" "wheel1 m1 = wheel1 m" "wheel2 m1 = wheel2 m" "wheel3 m1 = wheel3 m" "timers m1 = timers m"
    by (simp_all add: m1_def updateEarliestNext_def)
  have ins: "m' = place d p m1" by (simp add: assms(5) insertToWheel_def GetElapsedMS_def Let_def m1_def d_def)
  have push: "p \<in> set (push_slot j p ws ! j)" if "j < length ws" for j ws using that by (simp add: push_slot_def)
  have slots: "slot0 (timer_next (tobj m p)) = n mod 2 ^ 8" "slot1 (timer_next (tobj m p)) = n div 2 ^ 8 mod 2 ^ 6"
    "slot2 (timer_next (tobj m p)) = n div 2 ^ 14 mod 2 ^ 6" "slot3 (timer_next (tobj m p)) = n div 2 ^ 20 mod 2 ^ 6"
    by (simp_all only: slot_arith assms(3))
  have si: "p \<in> set (set_insert (tobj m) p (timers m))" by (simp add: set_set_insert [OF pt])
  have "stored m' = add_mset p (stored m)" "earliestNext m' \<le> timer_next (tobj m p)" using i unfolding inserted_def by blast+
  moreover have "length (push_slot j p ws) = length ws" for j ws by (simp add: push_slot_def)
  ultimately show ?thesis
    unfolding ins place_def Let_def m1 c slots using push sh si by simp
qed

theorem insertion_slot_witness:
  "wheels_inv (TimerManager_new steady) \<and> 7 \<notin># stored (TimerManager_new steady) \<and>
   7 \<in> set (wheel0 (insertToWheel steady 7 (TimerManager_new steady)) ! 0)"
proof -
  have "wheels_inv (TimerManager_new steady)" using timers_inv_new by (simp add: timers_inv_def)
  moreover have "7 \<notin># stored (TimerManager_new steady)" by (simp add: stored_def TimerManager_new_def)
  moreover have "timer_next (tobj (TimerManager_new steady) 7) = 0" "steady (reads (TimerManager_new steady)) = 5"
    by (simp_all add: TimerManager_new_def steady_def)
  ultimately show ?thesis
    using insertion_slot [of "TimerManager_new steady" 7 0 5 steady "insertToWheel steady 7 (TimerManager_new steady)"] by simp
qed

text \<open>
  Once a timer is added, the wait that \<^verbatim>\<open>getNextTimer\<close> returns ends no later than the
  timer's expiry, as long as no expiry pass comes between.
\<close>

theorem wait_covers_timer:
  assumes "wheels_inv m" and "p \<notin># stored m" and "clock_mono clk" and "timer_next (tobj m p) \<noteq> no_deadline"
    and "m' = fst (addTimer_locked clk p m)"
  shows "unat (fst (getNextTimer clk m')) \<le> unat (timer_next (tobj m p)) - unat (clk (reads m'))"
proof -
  have "inserted (clk (reads m)) p m m'" using addTimer_locked_inserted [OF assms(1,2,5)] .
  then have e: "earliestNext m' \<le> timer_next (tobj m p)" unfolding inserted_def by blast
  moreover have "x \<le> no_deadline" for x by (simp add: no_deadline_def)
  ultimately have "earliestNext m' \<noteq> no_deadline" using assms(4) by (metis order.antisym)
  then have "fst (getNextTimer clk m') = (if earliestNext m' \<le> clk (reads m') then 0 else earliestNext m' - clk (reads m'))"
    by (simp add: getNextTimer_def GetElapsedMS_def Let_def)
  then show ?thesis using e by (auto simp: unat_sub not_le word_le_nat_alt intro: diff_le_mono)
qed

theorem wait_covers_timer_witness:
  "wheels_inv (TimerManager_new steady) \<and> clock_mono steady \<and>
   unat (fst (getNextTimer steady (fst (addTimer_locked steady 7 (TimerManager_new steady))))) \<le> 0"
proof -
  have "wheels_inv (TimerManager_new steady)" using timers_inv_new by (simp add: timers_inv_def)
  moreover have "7 \<notin># stored (TimerManager_new steady)" by (simp add: stored_def TimerManager_new_def)
  moreover have "timer_next (tobj (TimerManager_new steady) 7) = 0" by (simp add: TimerManager_new_def)
  ultimately show ?thesis
    using wait_covers_timer [of "TimerManager_new steady" 7 steady "fst (addTimer_locked steady 7 (TimerManager_new steady))"] steady_ok
    by (simp add: no_deadline_def)
qed

lemma cancel_result:
  assumes "cancel p m = (m', won)"
  shows "won = (\<not> timer_cancelled (tobj m p))" and "timer_cancelled (tobj m' p)" and "q \<noteq> p \<Longrightarrow> tobj m' q = tobj m q"
    and "cancel p m' = (m', False)" and "wheel0 m' = wheel0 m" and "timers m' = timers m" and "reads m' = reads m"
    and "wheels_inv m \<Longrightarrow> wheels_inv m'" and "periods_ok now m \<Longrightarrow> periods_ok now m'"
    and "timer_recurring (tobj m' p) = timer_recurring (tobj m p)"
proof -
  let ?t = "if timer_cancelled (tobj m p) then tobj m p else (tobj m p)\<lparr>timer_cancelled := True, timer_cb := None\<rparr>"
  have idem: "t\<lparr>timer_cancelled := True\<rparr> = t" if "timer_cancelled t" for t :: Timer using that by (cases t) simp
  have m': "m' = m\<lparr>tobj := (tobj m)(p := ?t)\<rparr>" and won: "won = (\<not> timer_cancelled (tobj m p))"
    using assms by (auto simp: cancel_def cancel_flag_def cancel_clear_def upd_timer_def idem split: bool.splits)
  show "won = (\<not> timer_cancelled (tobj m p))" by (rule won)
  show c: "timer_cancelled (tobj m' p)" by (simp add: m')
  show "tobj m' q = tobj m q" if "q \<noteq> p" using that by (simp add: m')
  show "cancel p m' = (m', False)" using c by (auto simp: cancel_def cancel_flag_def upd_timer_def idem)
  show "wheel0 m' = wheel0 m" "timers m' = timers m" "reads m' = reads m" by (simp_all add: m')
  show "wheels_inv m'" if "wheels_inv m"
    by (rule wheels_inv_tobj(1) [OF that, where g = "(tobj m)(p := ?t)" and k = "reads m" and b = "tickled m"]) (auto simp: m')
  have "stored m' = stored m" by (simp add: m' stored_def)
  then show "periods_ok now m'" if "periods_ok now m" using that by (auto simp: periods_ok_def m')
  show "timer_recurring (tobj m' p) = timer_recurring (tobj m p)" by (simp add: m')
qed

text \<open>
  Cancelling succeeds exactly for a timer that is not cancelled, a second cancel fails and
  changes nothing, and a cancelled timer does not fire in the next pass.
\<close>

theorem cancel_once:
  assumes "wheels_inv m" and "clock_mono clk" and "periods_ok (clk (reads m)) m" and "cancel p m = (m', won)"
    and "listExpiredCb clk [] m' = Some (Inr (cbs, m''))"
  shows "won = (\<not> timer_cancelled (tobj m p)) \<and> cancel p m' = (m', False) \<and> tobj m'' p = tobj m' p \<and>
    cbs = List.map_filter (\<lambda>q. timer_cb (tobj m q)) (filter (\<lambda>q. q \<noteq> p \<and> due (clk (reads m)) (tobj m) q) (concat (wheel0 m) @ timers m))"
proof -
  note c = cancel_result [OF assms(4)]
  have e: "examined m' = examined m" by (simp add: examined_def c(5,6))
  have "periods_ok (clk (reads m')) m'" using assms(3) c(7,9) by simp
  with assms(2) c(8) [OF assms(1)]
  have "cbs = callbacks (clk (reads m)) (tobj m') (examined m) \<and> tobj m'' = after_pass (clk (reads m)) m'"
  proof (cases rule: listExpiredCb_result [of clk m' "[]"])
    case (pass x)
    then show ?thesis using assms(5) by (simp add: e c(7))
  qed (use assms(5) in simp)
  moreover have "due (clk (reads m)) (tobj m') q = (q \<noteq> p \<and> due (clk (reads m)) (tobj m) q)" for q
    using c(2) c(3) [of q] by (cases "q = p") (simp_all add: due_def)
  then have "callbacks (clk (reads m)) (tobj m') (examined m) =
      List.map_filter (\<lambda>q. timer_cb (tobj m q)) (filter (\<lambda>q. q \<noteq> p \<and> due (clk (reads m)) (tobj m) q) (examined m))"
    unfolding callbacks_def using c(3) by (auto simp: map_filter_def intro!: map_cong filter_cong)
  moreover have "after_pass (clk (reads m)) m' p = tobj m' p" using c(2) by (simp add: after_pass_def due_def)
  ultimately show ?thesis using c(1,4) by (simp add: examined_def)
qed

theorem cancel_once_witness:
  "wheels_inv example_timers \<and> snd (cancel 7 example_timers) \<and>
   (\<exists>m''. listExpiredCb steady [] (fst (cancel 7 example_timers)) = Some (Inr ([], m'')))"
proof -
  obtain m' won where c: "cancel 7 example_timers = (m', won)" by (cases "cancel 7 example_timers") auto
  note r = cancel_result [OF c]
  have per: "periods_ok (steady (reads m')) m'" using example_pre(3) r(7,9) by simp
  obtain cbs m'' where p: "listExpiredCb steady [] m' = Some (Inr (cbs, m''))"
    using example_pre(1) r(8) [OF example_pre(2)] per
  proof (cases rule: listExpiredCb_result [of steady m' "[]"])
    case (undef e)
    then show ?thesis using example_containers(1,7) r(5,10) by (auto simp: again_def)
  qed (use that in auto)
  from cancel_once [OF example_pre(2,1,3) c p] show ?thesis
    using example_facts p c example_pre(2) by (simp add: map_filter_simps)
qed

section \<open>Divergences\<close>

text \<open>
  A recurring timer whose new expiry falls into the slot of \<open>wheel0\<close> that is being iterated:
  with a period of 256 milliseconds and one millisecond spent before the insertions, the
  \<^verbatim>\<open>push_back\<close> grows the vector under the range-for.
\<close>

lemma recurring_timer_undefined:
  "case listExpiredCb ticking [] (fst (addTimer ticking 0 256 0 True (TimerManager_new ticking))) of
     Some (Inl (Undefined _)) \<Rightarrow> True | _ \<Rightarrow> False"
  by code_simp

text \<open>
  After a pass the hint knows the timers of the first wheel and of the ordered set only: with
  one live timer of a second, \<^verbatim>\<open>getNextTimer\<close> then asks to wait forever.
\<close>

lemma hint_forgets_upper_wheels:
  "case listExpiredCb steady [] (fst (addTimer steady 0 1000 0 False (TimerManager_new steady))) of
     Some (Inr (cbs, m)) \<Rightarrow> cbs = [] \<and> wheel1 m ! 3 = [0] \<and> \<not> timer_cancelled (tobj m 0) \<and> fst (getNextTimer steady m) = no_deadline
   | _ \<Rightarrow> False"
  by code_simp

end
