(* ===== verification/Sync.thy ===== *)
theory Sync
  imports Fiber
begin

text \<open>
  Model of \<^verbatim>\<open>sync.hpp\<close> and \<^verbatim>\<open>sync.cpp\<close>: the queue of parked Fibers, the mutex with
  handoff, the condition variable and the semaphore. A definition is what runs under one
  acquisition of the guard (a \<^verbatim>\<open>ThreadMutex\<close>), so that a blocking operation is the
  sequence of its definitions with a \<^verbatim>\<open>yield\<close> between them. The clock and the identity of
  the caller are arguments.
\<close>

section \<open>The wait queue\<close>

text \<open>
  What the operations ask of the calling thread: its scheduler (if any), its Fiber, its
  thread id and whether it runs under an IOManager.
\<close>

record caller =
  c_scheduler :: "nat option"
  c_fiber :: fid
  c_thread :: int
  c_iomanager :: bool

record Waiter =
  waiter_fiber :: fid
  waiter_scheduler :: nat
  waiter_thread :: int
  waiter_waiting :: bool
  waiter_error :: errno

text \<open>
  The deque, the waiter objects by address, and the calls of \<^verbatim>\<open>Scheduler::scheduler\<close> the
  queue has made, in order.
\<close>

type_synonym waiter_id = nat

record WaitQueue =
  waiters :: "waiter_id list"
  wobj :: "waiter_id \<Rightarrow> Waiter"
  wnext :: waiter_id
  submitted :: "(nat \<times> fid \<times> int) list"

definition kFiberWaitForever :: u64 where
  "kFiberWaitForever = - 1"

definition WaitQueue_new :: WaitQueue where
  "WaitQueue_new = \<lparr>waiters = [],
     wobj = (\<lambda>_. \<lparr>waiter_fiber = 0, waiter_scheduler = 0, waiter_thread = - 1, waiter_waiting = True, waiter_error = 0\<rparr>),
     wnext = 0, submitted = []\<rparr>"

definition completeLocked :: "waiter_id \<Rightarrow> errno \<Rightarrow> WaitQueue \<Rightarrow> bool \<times> WaitQueue" where
  "completeLocked w err q =
     (if \<not> waiter_waiting (wobj q w) then (False, q)
      else if w \<notin> set (waiters q) then (False, q)
      else
        (let x = wobj q w in
         (True, q\<lparr>waiters := remove1 w (waiters q),
            wobj := (wobj q)(w := x\<lparr>waiter_waiting := False, waiter_error := err\<rparr>),
            submitted := submitted q @ [(waiter_scheduler x, waiter_fiber x, waiter_thread x)]\<rparr>)))"

definition timeout :: "waiter_id \<Rightarrow> WaitQueue \<Rightarrow> WaitQueue" where
  "timeout w q = snd (completeLocked w ETIMEDOUT q)"

text \<open>
  \<^verbatim>\<open>waitLocked\<close> in three parts: up to the release of the guard, up to the \<^verbatim>\<open>yield\<close>, and
  from the \<^verbatim>\<open>yield\<close> on. \<open>WaitFailed\<close> is a return of \<open>-1\<close> with \<^verbatim>\<open>errno\<close> set.
\<close>

datatype wait_start = WaitFailed errno | Parked waiter_id

definition waitLocked_enqueue :: "caller \<Rightarrow> u64 \<Rightarrow> WaitQueue \<Rightarrow> wait_start \<times> WaitQueue" where
  "waitLocked_enqueue c timeout_ms q =
     (case c_scheduler c of
        None \<Rightarrow> (WaitFailed EINVAL, q)
      | Some s \<Rightarrow>
          if timeout_ms = 0 then (WaitFailed ETIMEDOUT, q)
          else
            (let w = wnext q;
                 x = \<lparr>waiter_fiber = c_fiber c, waiter_scheduler = s, waiter_thread = c_thread c,
                      waiter_waiting = True, waiter_error = 0\<rparr> in
             (Parked w, q\<lparr>waiters := waiters q @ [w], wobj := (wobj q)(w := x), wnext := Suc w\<rparr>)))"

definition waitLocked_arm :: "caller \<Rightarrow> u64 \<Rightarrow> waiter_id \<Rightarrow> WaitQueue \<Rightarrow> errno option \<times> WaitQueue" where
  "waitLocked_arm c timeout_ms w q =
     (if timeout_ms \<noteq> kFiberWaitForever \<and> \<not> c_iomanager c
      then (Some ENOTSUP, snd (completeLocked w ENOTSUP q))
      else (None, q))"

definition waitLocked_return :: "waiter_id \<Rightarrow> WaitQueue \<Rightarrow> errno option \<times> WaitQueue" where
  "waitLocked_return w q =
     (let err = waiter_error (wobj q w);
          q = (if waiter_waiting (wobj q w) then snd (completeLocked w ECANCELED q) else q) in
      (if err \<noteq> 0 then Some err else None, q))"

text \<open>The loops; \<open>None\<close> is a loop that does not end.\<close>

partial_function (option) wakeOneLocked :: "errno \<Rightarrow> WaitQueue \<Rightarrow> (bool \<times> WaitQueue) option" where
  "wakeOneLocked err q =
     (case waiters q of
        [] \<Rightarrow> Some (False, q)
      | w # _ \<Rightarrow>
          (let r = completeLocked w err q in
           if fst r then Some (True, snd r) else wakeOneLocked err (snd r)))"

partial_function (option) wakeAllLocked_loop :: "errno \<Rightarrow> nat \<Rightarrow> WaitQueue \<Rightarrow> (nat \<times> WaitQueue) option" where
  "wakeAllLocked_loop err cnt q =
     (case wakeOneLocked err q of
        None \<Rightarrow> None
      | Some r \<Rightarrow> if fst r then wakeAllLocked_loop err (Suc cnt) (snd r) else Some (cnt, snd r))"

definition wakeAllLocked :: "errno \<Rightarrow> WaitQueue \<Rightarrow> (nat \<times> WaitQueue) option" where
  "wakeAllLocked err q = wakeAllLocked_loop err 0 q"

declare wakeOneLocked.simps [code] wakeAllLocked_loop.simps [code]

definition emptyLocked :: "WaitQueue \<Rightarrow> bool" where
  "emptyLocked q = (waiters q = [])"

section \<open>Deadlines\<close>

definition wait_deadline :: "u64 \<Rightarrow> u64 \<Rightarrow> u64" where
  "wait_deadline timeout_ms now = (if timeout_ms = kFiberWaitForever then 0 else now + timeout_ms)"

text \<open>\<open>None\<close> is the return with \<open>ETIMEDOUT\<close>.\<close>

definition wait_remaining :: "u64 \<Rightarrow> u64 \<Rightarrow> u64 \<Rightarrow> u64 option" where
  "wait_remaining timeout_ms deadline now =
     (if timeout_ms \<noteq> kFiberWaitForever
      then if now \<ge> deadline then None else Some (deadline - now)
      else Some kFiberWaitForever)"

section \<open>The mutex\<close>

record FiberMutex =
  owner :: "fid option"
  handoff :: bool
  mutex_waiters :: WaitQueue

definition FiberMutex_new :: FiberMutex where
  "FiberMutex_new = \<lparr>owner = None, handoff = False, mutex_waiters = WaitQueue_new\<rparr>"

text \<open>One round of the loop of \<^verbatim>\<open>lock\<close>, up to the release of the guard.\<close>

datatype round = Acquired | Failed errno | Waits waiter_id u64

definition lock_round :: "caller \<Rightarrow> bool \<Rightarrow> u64 \<Rightarrow> u64 \<Rightarrow> u64 \<Rightarrow> FiberMutex \<Rightarrow> round \<times> FiberMutex" where
  "lock_round c selected_waiter timeout_ms deadline now m =
     (if owner m = None \<and> (\<not> handoff m \<or> selected_waiter)
      then (Acquired, m\<lparr>owner := Some (c_fiber c), handoff := False\<rparr>)
      else if owner m = Some (c_fiber c) then (Failed EDEADLK, m)
      else
        (case wait_remaining timeout_ms deadline now of
           None \<Rightarrow> (Failed ETIMEDOUT, m)
         | Some remaining \<Rightarrow>
             (case waitLocked_enqueue c remaining (mutex_waiters m) of
                (WaitFailed e, q) \<Rightarrow> (Failed e, m\<lparr>mutex_waiters := q\<rparr>)
              | (Parked w, q) \<Rightarrow> (Waits w remaining, m\<lparr>mutex_waiters := q\<rparr>))))"

text \<open>The results of the other operations: \<open>None\<close> is \<open>0\<close> and \<open>Some e\<close> is \<open>-1\<close> with \<^verbatim>\<open>errno\<close>.\<close>

definition try_lock :: "fid \<Rightarrow> FiberMutex \<Rightarrow> errno option \<times> FiberMutex" where
  "try_lock current m =
     (if owner m = None \<and> \<not> handoff m then (None, m\<lparr>owner := Some current\<rparr>)
      else (Some (if owner m = Some current then EDEADLK else EBUSY), m))"

definition unlock :: "fid \<Rightarrow> FiberMutex \<Rightarrow> (errno option \<times> FiberMutex) option" where
  "unlock current m =
     (if owner m \<noteq> Some current then Some (Some EPERM, m)
      else
        (case wakeOneLocked 0 (mutex_waiters m) of
           None \<Rightarrow> None
         | Some (woken, q) \<Rightarrow> Some (None, m\<lparr>owner := None, handoff := woken, mutex_waiters := q\<rparr>)))"

definition locked :: "FiberMutex \<Rightarrow> bool" where
  "locked m = (owner m \<noteq> None)"

definition ownedByCurrent :: "fid \<Rightarrow> FiberMutex \<Rightarrow> bool" where
  "ownedByCurrent current m = (owner m = Some current)"

definition mutex_cancelWaiters :: "errno \<Rightarrow> FiberMutex \<Rightarrow> (nat \<times> FiberMutex) option" where
  "mutex_cancelWaiters err m =
     map_option (\<lambda>(n, q). (n, m\<lparr>mutex_waiters := q\<rparr>)) (wakeAllLocked err (mutex_waiters m))"

section \<open>The condition variable\<close>

record FiberConditionVariable =
  cv_waiters :: WaitQueue

text \<open>
  \<^verbatim>\<open>wait\<close> up to the release of the condition's guard: no notifier runs between the release
  of the mutex and the enqueueing, because both happen under that guard. The last part is
  what follows each return of \<^verbatim>\<open>mutex.lock()\<close>.
\<close>

definition cv_wait_begin ::
  "caller \<Rightarrow> u64 \<Rightarrow> FiberConditionVariable \<Rightarrow> FiberMutex \<Rightarrow> (round \<times> FiberConditionVariable \<times> FiberMutex) option" where
  "cv_wait_begin c timeout_ms cv m =
     (if \<not> ownedByCurrent (c_fiber c) m then Some (Failed EPERM, cv, m)
      else
        (case unlock (c_fiber c) m of
           None \<Rightarrow> None
         | Some (_, m) \<Rightarrow>
             (case waitLocked_enqueue c timeout_ms (cv_waiters cv) of
                (WaitFailed e, q) \<Rightarrow> Some (Failed e, cv\<lparr>cv_waiters := q\<rparr>, m)
              | (Parked w, q) \<Rightarrow> Some (Waits w timeout_ms, cv\<lparr>cv_waiters := q\<rparr>, m))))"

datatype cv_end = Retry | Returns "errno option"

definition cv_wait_end :: "errno option \<Rightarrow> errno option \<Rightarrow> cv_end" where
  "cv_wait_end wait_error lock_result =
     (case lock_result of
        Some e \<Rightarrow> if e \<noteq> EINTR then Returns (Some e) else Retry
      | None \<Rightarrow> Returns wait_error)"

definition notifyOne :: "FiberConditionVariable \<Rightarrow> (bool \<times> FiberConditionVariable) option" where
  "notifyOne cv = map_option (\<lambda>(b, q). (b, cv\<lparr>cv_waiters := q\<rparr>)) (wakeOneLocked 0 (cv_waiters cv))"

definition notifyAll :: "FiberConditionVariable \<Rightarrow> (nat \<times> FiberConditionVariable) option" where
  "notifyAll cv = map_option (\<lambda>(n, q). (n, cv\<lparr>cv_waiters := q\<rparr>)) (wakeAllLocked 0 (cv_waiters cv))"

definition cv_cancelWaiters :: "errno \<Rightarrow> FiberConditionVariable \<Rightarrow> (nat \<times> FiberConditionVariable) option" where
  "cv_cancelWaiters err cv = map_option (\<lambda>(n, q). (n, cv\<lparr>cv_waiters := q\<rparr>)) (wakeAllLocked err (cv_waiters cv))"

section \<open>The semaphore\<close>

record FiberSemaphore =
  sem_count :: u64
  sem_waiters :: WaitQueue

definition FiberSemaphore_new :: "u64 \<Rightarrow> FiberSemaphore" where
  "FiberSemaphore_new n = \<lparr>sem_count = n, sem_waiters = WaitQueue_new\<rparr>"

text \<open>One round of the loop of \<^verbatim>\<open>wait\<close>; a request of nothing returns before it.\<close>

definition sem_wait_round :: "caller \<Rightarrow> u64 \<Rightarrow> u64 \<Rightarrow> u64 \<Rightarrow> u64 \<Rightarrow> FiberSemaphore \<Rightarrow> round \<times> FiberSemaphore" where
  "sem_wait_round c n timeout_ms deadline now s =
     (if n = 0 then (Acquired, s)
      else if sem_count s \<ge> n then (Acquired, s\<lparr>sem_count := sem_count s - n\<rparr>)
      else
        (case wait_remaining timeout_ms deadline now of
           None \<Rightarrow> (Failed ETIMEDOUT, s)
         | Some remaining \<Rightarrow>
             (case waitLocked_enqueue c remaining (sem_waiters s) of
                (WaitFailed e, q) \<Rightarrow> (Failed e, s\<lparr>sem_waiters := q\<rparr>)
              | (Parked w, q) \<Rightarrow> (Waits w remaining, s\<lparr>sem_waiters := q\<rparr>))))"

definition signal :: "u64 \<Rightarrow> FiberSemaphore \<Rightarrow> FiberSemaphore option" where
  "signal n s =
     (if n = 0 then Some s
      else map_option (\<lambda>(_, q). s\<lparr>sem_count := sem_count s + n, sem_waiters := q\<rparr>) (wakeAllLocked 0 (sem_waiters s)))"

definition sem_cancelWaiters :: "errno \<Rightarrow> FiberSemaphore \<Rightarrow> (nat \<times> FiberSemaphore) option" where
  "sem_cancelWaiters err s = map_option (\<lambda>(n, q). (n, s\<lparr>sem_waiters := q\<rparr>)) (wakeAllLocked err (sem_waiters s))"

end
