(* ===== verification/Sync_Queue.thy ===== *)
theory Sync_Queue
  imports Sync
begin

text \<open>
  The interface the synchronisation primitives use of their wait queue, its interpretation
  on \<^verbatim>\<open>WaitQueue\<close>, and what the single operations of the queue do to it.
\<close>

section \<open>Interface: a queue that wakes in order\<close>

text \<open>
  What the synchronisation primitives rely on: waking takes the oldest entry and records it
  with the error it was woken with, and the drain is the loop around it.
\<close>

locale fifo_wakeup =
  fixes ok :: "'q \<Rightarrow> bool"
    and queue :: "'q \<Rightarrow> 'w list"
    and woken :: "'q \<Rightarrow> 'w \<Rightarrow> 'e option"
    and wake :: "'e \<Rightarrow> 'q \<Rightarrow> (bool \<times> 'q) option"
    and drain :: "'e \<Rightarrow> nat \<Rightarrow> 'q \<Rightarrow> (nat \<times> 'q) option"
  assumes distinct_queue: "ok q \<Longrightarrow> distinct (queue q)"
    and wake_empty: "ok q \<Longrightarrow> queue q = [] \<Longrightarrow> wake e q = Some (False, q)"
    and wake_front: "ok q \<Longrightarrow> queue q = w # ws \<Longrightarrow>
      \<exists>q'. wake e q = Some (True, q') \<and> ok q' \<and> queue q' = ws \<and> woken q' = (woken q)(w := Some e)"
    and drain_loop: "drain e n q = (case wake e q of None \<Rightarrow> None | Some r \<Rightarrow> if fst r then drain e (Suc n) (snd r) else Some (n, snd r))"
begin

lemma wake_total: "ok q \<Longrightarrow> \<exists>b q'. wake e q = Some (b, q') \<and> ok q' \<and> (b \<longleftrightarrow> queue q \<noteq> []) \<and> queue q' = tl (queue q)"
  using wake_front [of q "hd (queue q)" "tl (queue q)" e] wake_empty [of q e] by (cases "queue q") auto

lemma drain_all:
  "ok q \<Longrightarrow> \<exists>q'. drain e n q = Some (n + length (queue q), q') \<and> ok q' \<and> queue q' = [] \<and>
     woken q' = (\<lambda>w. if w \<in> set (queue q) then Some e else woken q w)"
proof (induction "queue q" arbitrary: q n)
  case Nil
  then show ?case by (subst drain_loop) (simp add: wake_empty [of q])
next
  case (Cons w ws)
  from wake_front [OF Cons.prems Cons.hyps(2) [symmetric], of e] obtain q1 where
    q1: "wake e q = Some (True, q1)" "ok q1" "queue q1 = ws" "woken q1 = (woken q)(w := Some e)" by blast
  from Cons.hyps(1) [OF q1(3) [symmetric] q1(2), of "Suc n"] obtain q' where
    "drain e (Suc n) q1 = Some (Suc n + length (queue q1), q')" "ok q'" "queue q' = []"
    "woken q' = (\<lambda>w. if w \<in> set (queue q1) then Some e else woken q1 w)" by blast
  moreover have "queue q = w # ws" using Cons.hyps(2) by simp
  ultimately show ?case using q1 by (subst drain_loop) auto
qed

end

section \<open>The wait queue\<close>

text \<open>The queued waiters are exactly the ones that wait, each once and with no error set.\<close>

definition queue_ok :: "WaitQueue \<Rightarrow> bool" where
  "queue_ok q \<longleftrightarrow> distinct (waiters q) \<and> (\<forall>w \<in> set (waiters q). w < wnext q \<and> waiter_error (wobj q w) = 0) \<and>
     (\<forall>w < wnext q. waiter_waiting (wobj q w) \<longleftrightarrow> w \<in> set (waiters q))"

lemma queue_ok_new: "queue_ok WaitQueue_new" "waiters WaitQueue_new = []"
  by (simp_all add: queue_ok_def WaitQueue_new_def)

lemma queue_ok_waiting: "queue_ok q \<Longrightarrow> w \<in> set (waiters q) \<Longrightarrow> waiter_waiting (wobj q w) \<and> w < wnext q \<and> waiter_error (wobj q w) = 0"
  by (auto simp: queue_ok_def)

text \<open>With what error a waiter was completed.\<close>

definition completed :: "WaitQueue \<Rightarrow> waiter_id \<Rightarrow> errno option" where
  "completed q w = (if waiter_waiting (wobj q w) then None else Some (waiter_error (wobj q w)))"

lemma completeLocked_queued:
  assumes "queue_ok q" and "w \<in> set (waiters q)"
  shows "completeLocked w e q = (True, q\<lparr>waiters := remove1 w (waiters q),
      wobj := (wobj q)(w := (wobj q w)\<lparr>waiter_waiting := False, waiter_error := e\<rparr>),
      submitted := submitted q @ [(waiter_scheduler (wobj q w), waiter_fiber (wobj q w), waiter_thread (wobj q w))]\<rparr>)"
  using assms queue_ok_waiting [OF assms] by (simp add: completeLocked_def Let_def)

lemma completeLocked_gone: "w \<notin> set (waiters q) \<Longrightarrow> completeLocked w e q = (False, q)"
  by (simp add: completeLocked_def)

lemma completeLocked_result:
  assumes "queue_ok q" and "q' = snd (completeLocked w e q)"
  shows "queue_ok q'" and "waiters q' = remove1 w (waiters q)" and "wnext q' = wnext q"
    and "waiter_fiber (wobj q' v) = waiter_fiber (wobj q v)" and "v \<noteq> w \<Longrightarrow> wobj q' v = wobj q v"
    and "w \<in> set (waiters q) \<Longrightarrow> completed q' = (completed q)(w := Some e)" and "w \<notin> set (waiters q) \<Longrightarrow> q' = q"
proof -
  have "queue_ok q' \<and> waiters q' = remove1 w (waiters q) \<and> wnext q' = wnext q \<and> waiter_fiber (wobj q' v) = waiter_fiber (wobj q v) \<and>
    (v \<noteq> w \<longrightarrow> wobj q' v = wobj q v) \<and> (w \<in> set (waiters q) \<longrightarrow> completed q' = (completed q)(w := Some e)) \<and> (w \<notin> set (waiters q) \<longrightarrow> q' = q)"
  proof (cases "w \<in> set (waiters q)")
    case True
    then show ?thesis using assms(1) queue_ok_waiting [OF assms(1) True]
      by (auto simp: assms(2) completeLocked_queued [OF assms(1) True] queue_ok_def completed_def fun_eq_iff)
  next
    case False
    then show ?thesis using assms by (simp add: completeLocked_gone remove1_idem)
  qed
  then show "queue_ok q'" "waiters q' = remove1 w (waiters q)" "wnext q' = wnext q" "waiter_fiber (wobj q' v) = waiter_fiber (wobj q v)"
    "v \<noteq> w \<Longrightarrow> wobj q' v = wobj q v" "w \<in> set (waiters q) \<Longrightarrow> completed q' = (completed q)(w := Some e)" "w \<notin> set (waiters q) \<Longrightarrow> q' = q"
    by blast+
qed

lemma wakeOneLocked_empty: "waiters q = [] \<Longrightarrow> wakeOneLocked e q = Some (False, q)"
  by (subst wakeOneLocked.simps) simp

lemma wakeOneLocked_front:
  assumes "queue_ok q" and "waiters q = w # ws"
  shows "wakeOneLocked e q = Some (True, snd (completeLocked w e q))"
  using completeLocked_queued [OF assms(1), of w e] assms(2) by (subst wakeOneLocked.simps) simp

interpretation wait: fifo_wakeup queue_ok waiters completed wakeOneLocked wakeAllLocked_loop
proof unfold_locales
  fix q w ws and e :: errno
  assume q: "queue_ok q" "waiters q = w # ws"
  note r = completeLocked_result [OF q(1) refl, where w = w and e = e]
  have "w \<in> set (waiters q)" using q(2) by simp
  then show "\<exists>q'. wakeOneLocked e q = Some (True, q') \<and> queue_ok q' \<and> waiters q' = ws \<and> completed q' = (completed q)(w := Some e)"
    using wakeOneLocked_front [OF q, of e] r(1,2,6) q(2) by auto
qed (simp add: queue_ok_def, simp add: wakeOneLocked_empty, subst wakeAllLocked_loop.simps, simp)

text \<open>What waking leaves alone.\<close>

lemma wakeOneLocked_keeps:
  assumes "queue_ok q" and "wakeOneLocked e q = Some (b, q')"
  shows "wnext q' = wnext q" and "waiter_fiber (wobj q' v) = waiter_fiber (wobj q v)"
    and "v \<notin> set (take 1 (waiters q)) \<Longrightarrow> wobj q' v = wobj q v"
proof -
  have "wnext q' = wnext q \<and> waiter_fiber (wobj q' v) = waiter_fiber (wobj q v) \<and> (v \<notin> set (take 1 (waiters q)) \<longrightarrow> wobj q' v = wobj q v)"
  proof (cases "waiters q")
    case Nil
    with assms(2) show ?thesis by (simp add: wakeOneLocked_empty)
  next
    case (Cons w ws)
    then have "q' = snd (completeLocked w e q)" using assms wakeOneLocked_front by simp
    from completeLocked_result [OF assms(1) this] show ?thesis by (simp add: Cons)
  qed
  then show "wnext q' = wnext q" "waiter_fiber (wobj q' v) = waiter_fiber (wobj q v)"
    "v \<notin> set (take 1 (waiters q)) \<Longrightarrow> wobj q' v = wobj q v" by blast+
qed

lemma wakeAllLocked_keeps:
  assumes "queue_ok q" and "wakeAllLocked_loop e n q = Some (k, q')"
  shows "wnext q' = wnext q \<and> (\<forall>v. waiter_fiber (wobj q' v) = waiter_fiber (wobj q v)) \<and> (\<forall>v. v \<notin> set (waiters q) \<longrightarrow> wobj q' v = wobj q v)"
  using assms
proof (induction "waiters q" arbitrary: q n)
  case Nil
  then show ?case by (subst (asm) wakeAllLocked_loop.simps) (simp add: wakeOneLocked_empty)
next
  case (Cons w ws)
  have q: "waiters q = w # ws" using Cons.hyps(2) by simp
  from wait.wake_front [OF Cons.prems(1) q, of e] obtain q1 where
    q1: "wakeOneLocked e q = Some (True, q1)" "queue_ok q1" "waiters q1 = ws" by blast
  then have "wakeAllLocked_loop e (Suc n) q1 = Some (k, q')"
    using Cons.prems(2) by (subst (asm) wakeAllLocked_loop.simps) simp
  note IH = Cons.hyps(1) [OF q1(3) [symmetric] q1(2) this]
  note k = wakeOneLocked_keeps [OF Cons.prems(1) q1(1)]
  show ?case using IH k by (auto simp: q q1(3))
qed

lemma wakeAllLocked_result:
  assumes "queue_ok q"
  obtains q' where "wakeAllLocked e q = Some (length (waiters q), q')" "queue_ok q'" "waiters q' = []" "wnext q' = wnext q"
    "\<And>v. waiter_fiber (wobj q' v) = waiter_fiber (wobj q v)" "\<And>v. v \<notin> set (waiters q) \<Longrightarrow> wobj q' v = wobj q v"
    "completed q' = (\<lambda>w. if w \<in> set (waiters q) then Some e else completed q w)"
proof -
  from wait.drain_all [OF assms, of e 0] obtain q' where
    "wakeAllLocked_loop e 0 q = Some (length (waiters q), q')" "queue_ok q'" "waiters q' = []"
    "completed q' = (\<lambda>w. if w \<in> set (waiters q) then Some e else completed q w)" by auto
  with wakeAllLocked_keeps [OF assms this(1)] show ?thesis using that by (simp add: wakeAllLocked_def)
qed

text \<open>Enqueueing.\<close>

lemma enqueue_Parked:
  assumes "queue_ok q" and "waitLocked_enqueue c t q = (Parked w, q')"
  shows "queue_ok q'" and "w = wnext q" and "wnext q' = Suc w" and "waiters q' = waiters q @ [w]"
    and "waiter_fiber (wobj q' w) = c_fiber c" and "v \<noteq> w \<Longrightarrow> wobj q' v = wobj q v" and "completed q' w = None" and "t \<noteq> 0"
proof -
  from assms(2) obtain s where "c_scheduler c = Some s" "t \<noteq> 0" "w = wnext q"
    "q' = q\<lparr>waiters := waiters q @ [w], wobj := (wobj q)(w := \<lparr>waiter_fiber = c_fiber c, waiter_scheduler = s,
        waiter_thread = c_thread c, waiter_waiting = True, waiter_error = 0\<rparr>), wnext := Suc w\<rparr>"
    by (auto simp: waitLocked_enqueue_def Let_def split: option.splits if_splits)
  then show "queue_ok q'" "w = wnext q" "wnext q' = Suc w" "waiters q' = waiters q @ [w]" "waiter_fiber (wobj q' w) = c_fiber c"
    "v \<noteq> w \<Longrightarrow> wobj q' v = wobj q v" "completed q' w = None" "t \<noteq> 0"
    using assms(1) by (auto simp: queue_ok_def completed_def less_Suc_eq)
qed

lemma enqueue_Failed: "waitLocked_enqueue c t q = (WaitFailed e, q') \<Longrightarrow> q' = q"
  by (auto simp: waitLocked_enqueue_def Let_def split: option.splits if_splits)

lemma waitLocked_return_result:
  assumes "queue_ok q" and "waitLocked_return w q = (r, q')" and "w < wnext q"
  shows "queue_ok q'" and "waiters q' = remove1 w (waiters q)" and "wnext q' = wnext q"
    and "waiter_fiber (wobj q' v) = waiter_fiber (wobj q v)" and "v \<noteq> w \<Longrightarrow> wobj q' v = wobj q v"
    and "completed q w = Some e \<Longrightarrow> r = (if e = 0 then None else Some e) \<and> q' = q"
proof -
  have *: "q' = snd (completeLocked w ECANCELED q) \<and> (completed q w = Some e \<longrightarrow> r = (if e = 0 then None else Some e) \<and> q' = q)"
  proof (cases "w \<in> set (waiters q)")
    case True
    then show ?thesis using queue_ok_waiting [OF assms(1) True] assms(2)
      by (auto simp: waitLocked_return_def completed_def Let_def)
  next
    case False
    then have "\<not> waiter_waiting (wobj q w)" using assms(1,3) by (auto simp: queue_ok_def)
    then show ?thesis using False assms(2) by (auto simp: waitLocked_return_def completed_def completeLocked_gone Let_def)
  qed
  note c = completeLocked_result [OF assms(1) conjunct1 [OF *]]
  show "queue_ok q'" "waiters q' = remove1 w (waiters q)" "wnext q' = wnext q"
    "waiter_fiber (wobj q' v) = waiter_fiber (wobj q v)" by (rule c)+
  show "wobj q' v = wobj q v" if "v \<noteq> w" using that by (rule c)
  show "r = (if e = 0 then None else Some e) \<and> q' = q" if "completed q w = Some e" using * that by blast
qed

end
