(* ===== verification/Sync_Mutex.thy ===== *)
theory Sync_Mutex
  imports Sync_Queue
begin

text \<open>
  The Fiber mutex as a transition system over the Fibers that use it, its invariant, and the
  properties of the mutex, of the wait queue and of the condition variable.
\<close>

section \<open>The mutex as a transition system\<close>

text \<open>
  Where a Fiber is: outside, holding the mutex, parked in \<^verbatim>\<open>waitLocked\<close> with its waiter,
  or back from a successful wait and about to try again.
\<close>

datatype mutex_pc = MIdle | MHolds | MParked waiter_id u64 u64 | MSelected u64 u64

record mutex_sys =
  mtx :: FiberMutex
  pc :: "fid \<Rightarrow> mutex_pc"

fun after_round :: "u64 \<Rightarrow> u64 \<Rightarrow> round \<Rightarrow> mutex_pc" where
  "after_round timeout_ms deadline Acquired = MHolds"
| "after_round timeout_ms deadline (Failed e) = MIdle"
| "after_round timeout_ms deadline (Waits w r) = MParked w timeout_ms deadline"

text \<open>
  The steps of a mutex that is used with timeouts under an IOManager only. A parked Fiber may
  be resumed at any time, also while it still waits.
\<close>

inductive mutex_step :: "mutex_sys \<Rightarrow> mutex_sys \<Rightarrow> bool" where
  lock_start: "pc s (c_fiber c) = MIdle \<Longrightarrow> c_iomanager c \<or> timeout_ms = kFiberWaitForever \<Longrightarrow>
    lock_round c False timeout_ms (wait_deadline timeout_ms t0) now (mtx s) = (r, m') \<Longrightarrow>
    mutex_step s \<lparr>mtx = m', pc = (pc s)(c_fiber c := after_round timeout_ms (wait_deadline timeout_ms t0) r)\<rparr>"
| relock: "pc s (c_fiber c) = MHolds \<Longrightarrow> lock_round c False timeout_ms (wait_deadline timeout_ms t0) now (mtx s) = (r, m') \<Longrightarrow>
    mutex_step s (s\<lparr>mtx := m'\<rparr>)"
| resume: "pc s f = MParked w timeout_ms deadline \<Longrightarrow> waitLocked_return w (mutex_waiters (mtx s)) = (r, q') \<Longrightarrow>
    mutex_step s \<lparr>mtx = (mtx s)\<lparr>mutex_waiters := q'\<rparr>,
      pc = (pc s)(f := (case r of None \<Rightarrow> MSelected timeout_ms deadline | Some e \<Rightarrow> MIdle))\<rparr>"
| lock_again: "pc s (c_fiber c) = MSelected timeout_ms deadline \<Longrightarrow> c_iomanager c \<or> timeout_ms = kFiberWaitForever \<Longrightarrow>
    lock_round c True timeout_ms deadline now (mtx s) = (r, m') \<Longrightarrow>
    mutex_step s \<lparr>mtx = m', pc = (pc s)(c_fiber c := after_round timeout_ms deadline r)\<rparr>"
| expire: "mutex_step s (s\<lparr>mtx := (mtx s)\<lparr>mutex_waiters := timeout w (mutex_waiters (mtx s))\<rparr>\<rparr>)"
| try_lock: "pc s f \<in> {MIdle, MHolds} \<Longrightarrow> try_lock f (mtx s) = (r, m') \<Longrightarrow>
    mutex_step s \<lparr>mtx = m', pc = (pc s)(f := (if r = None then MHolds else pc s f))\<rparr>"
| unlock: "pc s f \<in> {MIdle, MHolds} \<Longrightarrow> unlock f (mtx s) = Some (r, m') \<Longrightarrow>
    mutex_step s \<lparr>mtx = m', pc = (pc s)(f := MIdle)\<rparr>"
| cancel: "mutex_cancelWaiters e (mtx s) = Some (n, m') \<Longrightarrow> mutex_step s (s\<lparr>mtx := m'\<rparr>)"

definition mutex_start :: mutex_sys where
  "mutex_start = \<lparr>mtx = FiberMutex_new, pc = (\<lambda>_. MIdle)\<rparr>"

text \<open>A Fiber that will take the mutex when it runs next.\<close>

definition pending :: "mutex_sys \<Rightarrow> fid \<Rightarrow> bool" where
  "pending s f = (case pc s f of
      MSelected _ _ \<Rightarrow> True
    | MParked w _ _ \<Rightarrow> completed (mutex_waiters (mtx s)) w = Some 0
    | _ \<Rightarrow> False)"

definition mutex_inv :: "mutex_sys \<Rightarrow> bool" where
  "mutex_inv s \<longleftrightarrow> queue_ok (mutex_waiters (mtx s)) \<and>
     (\<forall>f. pc s f = MHolds \<longleftrightarrow> owner (mtx s) = Some f) \<and>
     (handoff (mtx s) \<longrightarrow> owner (mtx s) = None \<and> (\<exists>f. pending s f)) \<and>
     (owner (mtx s) = None \<longrightarrow> \<not> handoff (mtx s) \<longrightarrow> waiters (mutex_waiters (mtx s)) = []) \<and>
     (\<forall>w \<in> set (waiters (mutex_waiters (mtx s))). \<exists>t d. pc s (waiter_fiber (wobj (mutex_waiters (mtx s)) w)) = MParked w t d) \<and>
     (\<forall>f w t d. pc s f = MParked w t d \<longrightarrow> w < wnext (mutex_waiters (mtx s)) \<and> waiter_fiber (wobj (mutex_waiters (mtx s)) w) = f)"

lemma mutex_invD:
  assumes "mutex_inv s"
  shows "queue_ok (mutex_waiters (mtx s))" and "pc s f = MHolds \<longleftrightarrow> owner (mtx s) = Some f"
    and "handoff (mtx s) \<Longrightarrow> owner (mtx s) = None" and "handoff (mtx s) \<Longrightarrow> \<exists>f. pending s f"
    and "owner (mtx s) = None \<Longrightarrow> \<not> handoff (mtx s) \<Longrightarrow> waiters (mutex_waiters (mtx s)) = []"
    and "w \<in> set (waiters (mutex_waiters (mtx s))) \<Longrightarrow> \<exists>t d. pc s (waiter_fiber (wobj (mutex_waiters (mtx s)) w)) = MParked w t d"
    and "pc s f = MParked w t d \<Longrightarrow> w < wnext (mutex_waiters (mtx s)) \<and> waiter_fiber (wobj (mutex_waiters (mtx s)) w) = f"
  using assms unfolding mutex_inv_def by blast+

lemma mutex_invI:
  assumes "queue_ok (mutex_waiters (mtx s))" and "\<And>f. pc s f = MHolds \<longleftrightarrow> owner (mtx s) = Some f"
    and "handoff (mtx s) \<Longrightarrow> owner (mtx s) = None" and "handoff (mtx s) \<Longrightarrow> \<exists>f. pending s f"
    and "owner (mtx s) = None \<Longrightarrow> \<not> handoff (mtx s) \<Longrightarrow> waiters (mutex_waiters (mtx s)) = []"
    and "\<And>w. w \<in> set (waiters (mutex_waiters (mtx s))) \<Longrightarrow> \<exists>t d. pc s (waiter_fiber (wobj (mutex_waiters (mtx s)) w)) = MParked w t d"
    and "\<And>f w t d. pc s f = MParked w t d \<Longrightarrow> w < wnext (mutex_waiters (mtx s)) \<and> waiter_fiber (wobj (mutex_waiters (mtx s)) w) = f"
  shows "mutex_inv s"
  using assms unfolding mutex_inv_def by blast

text \<open>
  Steps that only complete waiters: the queue shrinks, and whoever was completed without an
  error before still is.
\<close>

lemma mutex_inv_shrink:
  assumes inv: "mutex_inv s" and q': "queue_ok q'" "set (waiters q') \<subseteq> set (waiters (mutex_waiters (mtx s)))"
    "wnext q' = wnext (mutex_waiters (mtx s))" "\<And>v. waiter_fiber (wobj q' v) = waiter_fiber (wobj (mutex_waiters (mtx s)) v)"
    and old: "\<And>w e. completed (mutex_waiters (mtx s)) w = Some e \<Longrightarrow> completed q' w = Some e"
  shows "mutex_inv (s\<lparr>mtx := (mtx s)\<lparr>mutex_waiters := q'\<rparr>\<rparr>)"
proof (rule mutex_invI)
  let ?s = "s\<lparr>mtx := (mtx s)\<lparr>mutex_waiters := q'\<rparr>\<rparr>"
  note i = mutex_invD [OF inv]
  show "queue_ok (mutex_waiters (mtx ?s))" using q' by simp
  show "pc ?s f = MHolds \<longleftrightarrow> owner (mtx ?s) = Some f" for f using i(2) by simp
  show "owner (mtx ?s) = None" if "handoff (mtx ?s)" using i(3) that by simp
  show "\<exists>f. pending ?s f" if "handoff (mtx ?s)"
  proof -
    from i(4) that obtain f where "pending s f" by auto
    then have "pending ?s f" using old by (auto simp: pending_def split: mutex_pc.splits)
    then show ?thesis ..
  qed
  show "waiters (mutex_waiters (mtx ?s)) = []" if "owner (mtx ?s) = None" "\<not> handoff (mtx ?s)"
    using i(5) that q'(2) by simp
  show "\<exists>t d. pc ?s (waiter_fiber (wobj (mutex_waiters (mtx ?s)) w)) = MParked w t d" if "w \<in> set (waiters (mutex_waiters (mtx ?s)))" for w
    using i(6) [of w] that q'(2,4) by auto
  show "w < wnext (mutex_waiters (mtx ?s)) \<and> waiter_fiber (wobj (mutex_waiters (mtx ?s)) w) = f" if "pc ?s f = MParked w t d" for f w t d
    using i(7) that q'(3,4) by simp
qed

text \<open>Steps of one Fiber that leave the queue alone.\<close>

lemma mutex_inv_acquire:
  assumes inv: "mutex_inv s" and o: "owner (mtx s) = None" and f: "\<And>w t d. pc s f \<noteq> MParked w t d"
  shows "mutex_inv \<lparr>mtx = (mtx s)\<lparr>owner := Some f, handoff := False\<rparr>, pc = (pc s)(f := MHolds)\<rparr>"
proof (rule mutex_invI)
  note i = mutex_invD [OF inv]
  let ?s = "\<lparr>mtx = (mtx s)\<lparr>owner := Some f, handoff := False\<rparr>, pc = (pc s)(f := MHolds)\<rparr>"
  show "queue_ok (mutex_waiters (mtx ?s))" using i(1) by simp
  show "pc ?s g = MHolds \<longleftrightarrow> owner (mtx ?s) = Some g" for g using i(2) [of g] o by auto
  show "\<exists>t d. pc ?s (waiter_fiber (wobj (mutex_waiters (mtx ?s)) w)) = MParked w t d" if "w \<in> set (waiters (mutex_waiters (mtx ?s)))" for w
    using i(6) [of w] that f by auto
  show "w < wnext (mutex_waiters (mtx ?s)) \<and> waiter_fiber (wobj (mutex_waiters (mtx ?s)) w) = g" if "pc ?s g = MParked w t d" for g w t d
    using i(7) [of g w t d] that by (auto split: if_splits)
qed simp_all

lemma mutex_inv_leave:
  assumes inv: "mutex_inv s" and f: "\<And>w t d. pc s f \<noteq> MParked w t d" and n: "pc s f \<noteq> MHolds" and h: "pending s f \<Longrightarrow> \<not> handoff (mtx s)"
  shows "mutex_inv \<lparr>mtx = mtx s, pc = (pc s)(f := MIdle)\<rparr>"
proof (rule mutex_invI)
  note i = mutex_invD [OF inv]
  let ?s = "\<lparr>mtx = mtx s, pc = (pc s)(f := MIdle)\<rparr>"
  show "queue_ok (mutex_waiters (mtx ?s))" "handoff (mtx ?s) \<Longrightarrow> owner (mtx ?s) = None"
    "owner (mtx ?s) = None \<Longrightarrow> \<not> handoff (mtx ?s) \<Longrightarrow> waiters (mutex_waiters (mtx ?s)) = []" using i(1,3,5) by simp_all
  show "pc ?s g = MHolds \<longleftrightarrow> owner (mtx ?s) = Some g" for g using i(2) [of g] n by auto
  show "\<exists>g. pending ?s g" if "handoff (mtx ?s)"
  proof -
    from that i(4) obtain g where g: "pending s g" by auto
    then have "g \<noteq> f" using h that by auto
    then have "pending ?s g" using g by (auto simp: pending_def split: mutex_pc.splits)
    then show ?thesis ..
  qed
  show "\<exists>t d. pc ?s (waiter_fiber (wobj (mutex_waiters (mtx ?s)) w)) = MParked w t d" if "w \<in> set (waiters (mutex_waiters (mtx ?s)))" for w
    using i(6) [of w] that f by auto
  show "w < wnext (mutex_waiters (mtx ?s)) \<and> waiter_fiber (wobj (mutex_waiters (mtx ?s)) w) = g" if "pc ?s g = MParked w t d" for g w t d
    using i(7) [of g w t d] that by (auto split: if_splits)
qed

lemma mutex_inv_park:
  assumes inv: "mutex_inv s" and f: "\<And>w t d. pc s f \<noteq> MParked w t d" and n: "pc s f \<noteq> MHolds" and h: "pending s f \<Longrightarrow> \<not> handoff (mtx s)"
    and busy: "owner (mtx s) \<noteq> None \<or> handoff (mtx s)" and enq: "waitLocked_enqueue c r (mutex_waiters (mtx s)) = (Parked w, q')" and c: "c_fiber c = f"
  shows "mutex_inv \<lparr>mtx = (mtx s)\<lparr>mutex_waiters := q'\<rparr>, pc = (pc s)(f := MParked w t d)\<rparr>"
proof (rule mutex_invI)
  note i = mutex_invD [OF inv]
  note e = enqueue_Parked [OF i(1) enq]
  let ?s = "\<lparr>mtx = (mtx s)\<lparr>mutex_waiters := q'\<rparr>, pc = (pc s)(f := MParked w t d)\<rparr>"
  have new: "v \<noteq> w" if "v < wnext (mutex_waiters (mtx s))" for v using that e(2) by simp
  show "queue_ok (mutex_waiters (mtx ?s))" "handoff (mtx ?s) \<Longrightarrow> owner (mtx ?s) = None"
    "owner (mtx ?s) = None \<Longrightarrow> \<not> handoff (mtx ?s) \<Longrightarrow> waiters (mutex_waiters (mtx ?s)) = []" using e(1) i(3) busy by simp_all
  show "pc ?s g = MHolds \<longleftrightarrow> owner (mtx ?s) = Some g" for g using i(2) [of g] n by auto
  show "\<exists>g. pending ?s g" if "handoff (mtx ?s)"
  proof -
    from that i(4) obtain g where g: "pending s g" by auto
    then have "g \<noteq> f" using h that by auto
    moreover have "wobj q' v = wobj (mutex_waiters (mtx s)) v" if "pc s g = MParked v a b" for v a b
      using e(6) [of v] new i(7) [OF that] by blast
    ultimately have "pending ?s g" using g by (auto simp: pending_def completed_def split: mutex_pc.splits)
    then show ?thesis ..
  qed
  show "\<exists>t d. pc ?s (waiter_fiber (wobj (mutex_waiters (mtx ?s)) v)) = MParked v t d" if v: "v \<in> set (waiters (mutex_waiters (mtx ?s)))" for v
  proof (cases "v = w")
    case True
    then show ?thesis using e(5) c by simp
  next
    case False
    then have "v \<in> set (waiters (mutex_waiters (mtx s)))" using v e(4) by simp
    with i(6) [of v] False e(6) [of v] f show ?thesis by auto
  qed
  show "v < wnext (mutex_waiters (mtx ?s)) \<and> waiter_fiber (wobj (mutex_waiters (mtx ?s)) v) = g" if "pc ?s g = MParked v t' d'" for g v t' d'
  proof (cases "g = f")
    case True
    then show ?thesis using that e(3,5) c by simp
  next
    case False
    then have "pc s g = MParked v t' d'" using that by simp
    from i(7) [OF this] show ?thesis using e(2,3) e(6) [of v] by simp
  qed
qed

text \<open>A round of \<^verbatim>\<open>lock\<close> of a Fiber that is not parked and does not hold the mutex.\<close>

lemma mutex_inv_round:
  assumes inv: "mutex_inv s" and f: "\<And>w t d. pc s (c_fiber c) \<noteq> MParked w t d" and n: "pc s (c_fiber c) \<noteq> MHolds"
    and sel: "selected \<longleftrightarrow> pending s (c_fiber c)" and r: "lock_round c selected t d now (mtx s) = (r, m')"
  shows "mutex_inv \<lparr>mtx = m', pc = (pc s)(c_fiber c := after_round t d r)\<rparr>"
proof (cases "owner (mtx s) = None \<and> (\<not> handoff (mtx s) \<or> selected)")
  case True
  then show ?thesis using r mutex_inv_acquire [OF inv _ f] by (auto simp: lock_round_def)
next
  case False
  have o: "owner (mtx s) \<noteq> Some (c_fiber c)" using mutex_invD(2) [OF inv] n by blast
  have h: "pending s (c_fiber c) \<Longrightarrow> \<not> handoff (mtx s)" using False sel mutex_invD(3) [OF inv] by auto
  have busy: "owner (mtx s) \<noteq> None \<or> handoff (mtx s)" using False by auto
  have m: "(mtx s)\<lparr>mutex_waiters := mutex_waiters (mtx s)\<rparr> = mtx s" by simp
  show ?thesis
  proof (cases "wait_remaining t d now")
    case None
    then show ?thesis using r False o mutex_inv_leave [OF inv f n h] by (auto simp: lock_round_def)
  next
    case (Some rest)
    show ?thesis
    proof (cases "waitLocked_enqueue c rest (mutex_waiters (mtx s))")
      case (Pair ws q')
      show ?thesis
      proof (cases ws)
        case (WaitFailed e)
        then have "q' = mutex_waiters (mtx s)" using enqueue_Failed Pair by blast
        then show ?thesis using r False o Some Pair WaitFailed mutex_inv_leave [OF inv f n h] by (auto simp: lock_round_def)
      next
        case (Parked w)
        then show ?thesis using r False o Some Pair mutex_inv_park [OF inv f n h busy _ refl] by (auto simp: lock_round_def)
      qed
    qed
  qed
qed

lemma mutex_inv_unlock:
  assumes inv: "mutex_inv s" and h: "pc s f = MHolds" and u: "unlock f (mtx s) = Some (r, m')"
  shows "mutex_inv \<lparr>mtx = m', pc = (pc s)(f := MIdle)\<rparr>"
proof -
  note i = mutex_invD [OF inv]
  have o: "owner (mtx s) = Some f" using i(2) h by blast
  let ?q = "mutex_waiters (mtx s)"
  from u o obtain b q' where w: "wakeOneLocked 0 ?q = Some (b, q')" and m': "m' = (mtx s)\<lparr>owner := None, handoff := b, mutex_waiters := q'\<rparr>"
    by (auto simp: unlock_def split: option.splits)
  note k = wakeOneLocked_keeps [OF i(1) w]
  from wait.wake_total [OF i(1), of 0] w have q': "queue_ok q'" "b \<longleftrightarrow> waiters ?q \<noteq> []" "waiters q' = tl (waiters ?q)" by auto
  have sub: "v \<in> set (waiters ?q)" if "v \<in> set (waiters q')" for v using that q'(3) by (metis list.set_sel(2) tl_Nil)
  show ?thesis
  proof (rule mutex_invI)
    let ?s = "\<lparr>mtx = m', pc = (pc s)(f := MIdle)\<rparr>"
    show "queue_ok (mutex_waiters (mtx ?s))" using q'(1) by (simp add: m')
    show "pc ?s g = MHolds \<longleftrightarrow> owner (mtx ?s) = Some g" for g using i(2) [of g] o by (auto simp: m')
    show "owner (mtx ?s) = None" by (simp add: m')
    show "\<exists>g. pending ?s g" if "handoff (mtx ?s)"
    proof -
      have "waiters ?q \<noteq> []" using that q'(2) by (simp add: m')
      then obtain v vs where v: "waiters ?q = v # vs" by (cases "waiters ?q") auto
      let ?g = "waiter_fiber (wobj ?q v)"
      from i(6) [of v] v obtain t d where g: "pc s ?g = MParked v t d" by auto
      from wait.wake_front [OF i(1) v, of 0] w have "completed q' v = Some 0" by auto
      moreover have "?g \<noteq> f" using g h by auto
      ultimately have "pending ?s ?g" using g by (simp add: pending_def m')
      then show ?thesis ..
    qed
    show "waiters (mutex_waiters (mtx ?s)) = []" if "\<not> handoff (mtx ?s)" using that q'(2,3) by (simp add: m')
    show "\<exists>t d. pc ?s (waiter_fiber (wobj (mutex_waiters (mtx ?s)) v)) = MParked v t d" if "v \<in> set (waiters (mutex_waiters (mtx ?s)))" for v
      using i(6) [OF sub, of v] that h k(2) by (auto simp: m')
    show "v < wnext (mutex_waiters (mtx ?s)) \<and> waiter_fiber (wobj (mutex_waiters (mtx ?s)) v) = g" if "pc ?s g = MParked v t d" for g v t d
      using i(7) [of g v t d] that k(1,2) by (auto simp: m' split: if_splits)
  qed
qed

lemma mutex_inv_resume:
  assumes inv: "mutex_inv s" and p: "pc s f = MParked w t d" and r: "waitLocked_return w (mutex_waiters (mtx s)) = (r, q')"
  shows "mutex_inv \<lparr>mtx = (mtx s)\<lparr>mutex_waiters := q'\<rparr>, pc = (pc s)(f := (case r of None \<Rightarrow> MSelected t d | Some e \<Rightarrow> MIdle))\<rparr>"
proof -
  note i = mutex_invD [OF inv]
  let ?q = "mutex_waiters (mtx s)"
  have w: "w < wnext ?q" "waiter_fiber (wobj ?q w) = f" using i(7) [OF p] by auto
  note k = waitLocked_return_result [OF i(1) r w(1)]
  show ?thesis
  proof (rule mutex_invI)
    let ?s = "\<lparr>mtx = (mtx s)\<lparr>mutex_waiters := q'\<rparr>, pc = (pc s)(f := (case r of None \<Rightarrow> MSelected t d | Some e \<Rightarrow> MIdle))\<rparr>"
    show "queue_ok (mutex_waiters (mtx ?s))" "handoff (mtx ?s) \<Longrightarrow> owner (mtx ?s) = None" using k(1) i(3) by simp_all
    show "pc ?s g = MHolds \<longleftrightarrow> owner (mtx ?s) = Some g" for g using i(2) [of g] p by (auto split: option.splits)
    show "\<exists>g. pending ?s g" if "handoff (mtx ?s)"
    proof -
      from that i(4) obtain g where g: "pending s g" by auto
      have "pending ?s g"
      proof (cases "g = f")
        case True
        then have "completed ?q w = Some 0" using g p by (simp add: pending_def)
        then show ?thesis using k(6) True by (simp add: pending_def)
      next
        case False
        have "completed q' v = completed ?q v" if "pc s g = MParked v a b" for v a b
        proof -
          have "v \<noteq> w" using i(7) [OF that] w(2) False by blast
          then show ?thesis using k(5) [of v] by (simp add: completed_def)
        qed
        then show ?thesis using g False by (auto simp: pending_def split: mutex_pc.splits)
      qed
      then show ?thesis ..
    qed
    show "waiters (mutex_waiters (mtx ?s)) = []" if "owner (mtx ?s) = None" "\<not> handoff (mtx ?s)" using that i(5) k(2) by simp
    show "\<exists>t d. pc ?s (waiter_fiber (wobj (mutex_waiters (mtx ?s)) v)) = MParked v t d" if v: "v \<in> set (waiters (mutex_waiters (mtx ?s)))" for v
    proof -
      have "v \<in> set (waiters ?q)" "v \<noteq> w" using v k(2) i(1) by (auto simp: queue_ok_def)
      moreover from this(1) i(6) [of v] obtain a b where g: "pc s (waiter_fiber (wobj ?q v)) = MParked v a b" by blast
      moreover have "waiter_fiber (wobj ?q v) \<noteq> f" using g p \<open>v \<noteq> w\<close> by auto
      ultimately show ?thesis using k(4) by simp
    qed
    show "v < wnext (mutex_waiters (mtx ?s)) \<and> waiter_fiber (wobj (mutex_waiters (mtx ?s)) v) = g" if "pc ?s g = MParked v a b" for g v a b
      using i(7) [of g v a b] that k(3,4) by (auto split: if_splits option.splits)
  qed
qed

lemma mutex_sys_eta [simp]: "\<lparr>mtx = mtx s, pc = pc s\<rparr> = s"
  by (cases s) simp

lemma mutex_step_inv:
  assumes inv: "mutex_inv s" and step: "mutex_step s s'"
  shows "mutex_inv s'"
  using step
proof cases
  case (lock_start c t t0 now r m')
  have "mutex_inv \<lparr>mtx = m', pc = (pc s)(c_fiber c := after_round t (wait_deadline t t0) r)\<rparr>"
    by (rule mutex_inv_round [OF inv _ _ _ lock_start(4)]) (use lock_start(2) in \<open>simp_all add: pending_def\<close>)
  then show ?thesis by (simp add: lock_start(1))
next
  case (relock c t t0 now r m')
  have "owner (mtx s) = Some (c_fiber c)" using mutex_invD(2) [OF inv] relock(2) by blast
  then have "m' = mtx s" using relock(3) by (simp add: lock_round_def)
  then show ?thesis using inv by (simp add: relock(1))
next
  case (resume f w t d r q')
  then show ?thesis using mutex_inv_resume [OF inv] by simp
next
  case (lock_again c t d now r m')
  have "mutex_inv \<lparr>mtx = m', pc = (pc s)(c_fiber c := after_round t d r)\<rparr>"
    by (rule mutex_inv_round [OF inv _ _ _ lock_again(4)]) (use lock_again(2) in \<open>simp_all add: pending_def\<close>)
  then show ?thesis by (simp add: lock_again(1))
next
  case (expire w)
  note k = completeLocked_result [OF mutex_invD(1) [OF inv] refl, where w = w and e = ETIMEDOUT]
  have "completed (timeout w (mutex_waiters (mtx s))) v = Some e" if v: "completed (mutex_waiters (mtx s)) v = Some e" for v e
  proof (cases "w \<in> set (waiters (mutex_waiters (mtx s)))")
    case True
    then have "v \<noteq> w" using v queue_ok_waiting [OF mutex_invD(1) [OF inv] True] by (auto simp: completed_def)
    then show ?thesis using k(6) [OF True] v by (simp add: timeout_def)
  next
    case False
    then show ?thesis using v k(7) by (simp add: timeout_def)
  qed
  moreover have "set (waiters (timeout w (mutex_waiters (mtx s)))) \<subseteq> set (waiters (mutex_waiters (mtx s)))"
    unfolding timeout_def k(2) by (rule set_remove1_subset)
  ultimately show ?thesis unfolding expire using k(1,3,4)
    by (intro mutex_inv_shrink [OF inv]) (simp_all add: timeout_def)
next
  case (try_lock f r m')
  show ?thesis
  proof (cases "owner (mtx s) = None \<and> \<not> handoff (mtx s)")
    case True
    then have "m' = (mtx s)\<lparr>owner := Some f, handoff := False\<rparr>" "r = None" using try_lock(3) by (auto simp: try_lock_def)
    then show ?thesis using mutex_inv_acquire [OF inv, of f] True try_lock(1,2) by auto
  next
    case False
    then show ?thesis using inv try_lock(1,3) by (auto simp: try_lock_def)
  qed
next
  case (unlock f r m')
  show ?thesis
  proof (cases "pc s f = MHolds")
    case True
    then show ?thesis using mutex_inv_unlock [OF inv _ unlock(3)] unlock(1) by simp
  next
    case False
    then have "owner (mtx s) \<noteq> Some f" using mutex_invD(2) [OF inv] by blast
    then have "m' = mtx s" using unlock(3) by (simp add: unlock_def)
    moreover have "(pc s)(f := MIdle) = pc s" using unlock(2) False by auto
    ultimately show ?thesis using inv unlock(1) by simp
  qed
next
  case (cancel e n m')
  obtain q' where k: "wakeAllLocked e (mutex_waiters (mtx s)) = Some (length (waiters (mutex_waiters (mtx s))), q')" "queue_ok q'" "waiters q' = []"
    "wnext q' = wnext (mutex_waiters (mtx s))" "\<And>v. waiter_fiber (wobj q' v) = waiter_fiber (wobj (mutex_waiters (mtx s)) v)"
    "\<And>v. v \<notin> set (waiters (mutex_waiters (mtx s))) \<Longrightarrow> wobj q' v = wobj (mutex_waiters (mtx s)) v"
    "completed q' = (\<lambda>w. if w \<in> set (waiters (mutex_waiters (mtx s))) then Some e else completed (mutex_waiters (mtx s)) w)"
    by (rule wakeAllLocked_result [OF mutex_invD(1) [OF inv], of e]) (rule that)
  have old: "completed q' v = Some x" if "completed (mutex_waiters (mtx s)) v = Some x" for v x
  proof -
    have "v \<notin> set (waiters (mutex_waiters (mtx s)))"
      using that queue_ok_waiting [OF mutex_invD(1) [OF inv], of v] by (auto simp: completed_def)
    then show ?thesis using k(6) [of v] that by (simp add: completed_def split: if_splits)
  qed
  have m': "m' = (mtx s)\<lparr>mutex_waiters := q'\<rparr>" using cancel(2) k(1) by (simp add: mutex_cancelWaiters_def)
  have "set (waiters q') \<subseteq> set (waiters (mutex_waiters (mtx s)))" using k(3) by simp
  from mutex_inv_shrink [OF inv k(2) this k(4,5) old] show ?thesis by (simp add: cancel(1) m')
qed

lemma mutex_inv_start: "mutex_inv mutex_start"
  by (rule mutex_invI) (simp_all add: mutex_start_def FiberMutex_new_def queue_ok_new)

interpretation mutex: invariant_of "\<lambda>s. s = mutex_start" mutex_step mutex_inv
  by unfold_locales (auto intro: mutex_inv_start mutex_step_inv)

section \<open>Properties\<close>

text \<open>Callers of the examples: Fibers 1 and 2 under an IOManager, and Fiber 2 without one.\<close>

definition example_caller :: "fid \<Rightarrow> bool \<Rightarrow> caller" where
  "example_caller f iom = \<lparr>c_scheduler = Some 0, c_fiber = f, c_thread = 40, c_iomanager = iom\<rparr>"

definition held_mutex :: FiberMutex where
  "held_mutex = FiberMutex_new\<lparr>owner := Some 1\<rparr>"

definition contended_mutex :: FiberMutex where
  "contended_mutex = snd (lock_round (example_caller 2 True) False kFiberWaitForever 0 0 held_mutex)"

definition contended_sys :: mutex_sys where
  "contended_sys = \<lparr>mtx = contended_mutex, pc = (\<lambda>_. MIdle)(1 := MHolds, 2 := MParked 0 kFiberWaitForever 0)\<rparr>"

lemma contended_fields:
  "waiters (mutex_waiters contended_mutex) = [0]" "owner contended_mutex = Some 1" "\<not> handoff contended_mutex"
  "waiter_fiber (wobj (mutex_waiters contended_mutex) 0) = 2"
  "lock_round (example_caller 2 True) False kFiberWaitForever 0 0 held_mutex = (Waits 0 kFiberWaitForever, contended_mutex)"
  by (simp_all add: contended_mutex_def held_mutex_def FiberMutex_new_def lock_round_def example_caller_def wait_remaining_def
      waitLocked_enqueue_def WaitQueue_new_def Let_def kFiberWaitForever_def)

lemma contended_reachable: "mutex_step\<^sup>*\<^sup>* mutex_start contended_sys"
proof -
  define s1 where "s1 = \<lparr>mtx = held_mutex, pc = (\<lambda>_. MIdle)(1 := MHolds)\<rparr>"
  have "try_lock 1 (mtx mutex_start) = (None, held_mutex)"
    by (simp add: mutex_start_def FiberMutex_new_def try_lock_def held_mutex_def)
  from mutex_step.try_lock [OF _ this] have "mutex_step mutex_start s1" by (simp add: s1_def held_mutex_def mutex_start_def)
  moreover have "mutex_step s1 \<lparr>mtx = contended_mutex, pc = (pc s1)(c_fiber (example_caller 2 True) :=
      after_round kFiberWaitForever (wait_deadline kFiberWaitForever 0) (Waits 0 kFiberWaitForever))\<rparr>"
    by (rule mutex_step.lock_start [where now = 0]) (simp_all add: s1_def example_caller_def wait_deadline_def contended_fields(5) [unfolded example_caller_def])
  then have "mutex_step s1 contended_sys"
    by (simp add: contended_sys_def s1_def example_caller_def wait_deadline_def)
  ultimately show ?thesis by (rule converse_rtranclp_into_rtranclp [OF _ r_into_rtranclp])
qed

lemma contended_ok: "queue_ok (mutex_waiters contended_mutex)"
  using mutex_invD(1) [OF mutex.inv_reachable [OF refl contended_reachable]] by (simp add: contended_sys_def)

text \<open>
  C6: Whatever the Fibers, timers and cancellations do, at most one Fiber holds the mutex, the
  holder is the recorded owner, and while it is held no attempt of another Fiber succeeds.
\<close>

theorem mutex_exclusive:
  assumes "mutex_step\<^sup>*\<^sup>* mutex_start s"
  shows "(\<forall>f. pc s f = MHolds \<longleftrightarrow> ownedByCurrent f (mtx s)) \<and> (\<forall>f g. pc s f = MHolds \<longrightarrow> pc s g = MHolds \<longrightarrow> f = g) \<and>
    (\<forall>f c sel t d now. pc s f = MHolds \<longrightarrow> fst (lock_round c sel t d now (mtx s)) \<noteq> Acquired \<and> fst (try_lock (c_fiber c) (mtx s)) \<noteq> None)"
proof -
  note i = mutex_invD [OF mutex.inv_reachable [OF refl assms]]
  have "fst (lock_round c sel t d now (mtx s)) \<noteq> Acquired \<and> fst (try_lock (c_fiber c) (mtx s)) \<noteq> None" if "pc s f = MHolds" for f c sel t d now
  proof -
    have "owner (mtx s) = Some f" using i(2) that by blast
    then show ?thesis by (auto simp: lock_round_def try_lock_def split: option.split prod.split wait_start.split)
  qed
  then show ?thesis using i(2) by (auto simp: ownedByCurrent_def)
qed

theorem mutex_exclusive_witness:
  "mutex_step\<^sup>*\<^sup>* mutex_start contended_sys \<and> pc contended_sys 1 = MHolds \<and> pc contended_sys 2 \<noteq> MHolds"
  using mutex_exclusive [OF contended_reachable] contended_reachable
  by (simp add: contended_sys_def ownedByCurrent_def contended_fields)



text \<open>
  Unlocking hands the mutex to the Fiber that has waited longest: it is submitted to the
  scheduler and thread that parked it, its wait returns without an error, and until its next
  round takes the mutex, \<^verbatim>\<open>try_lock\<close> and first rounds of \<^verbatim>\<open>lock\<close> do not get it.
\<close>

theorem unlock_hands_over:
  assumes "queue_ok (mutex_waiters m)" and "owner m = Some f" and "waiters (mutex_waiters m) = w # ws"
    and "x = wobj (mutex_waiters m) w"
  shows "\<exists>m'. unlock f m = Some (None, m') \<and> waiters (mutex_waiters m') = ws \<and>
    submitted (mutex_waiters m') = submitted (mutex_waiters m) @ [(waiter_scheduler x, waiter_fiber x, waiter_thread x)] \<and>
    waitLocked_return w (mutex_waiters m') = (None, mutex_waiters m') \<and> \<not> locked m' \<and>
    (\<forall>g. try_lock g m' = (Some EBUSY, m')) \<and> (\<forall>c t d now. fst (lock_round c False t d now m') \<noteq> Acquired) \<and>
    (\<forall>c t d now. lock_round c True t d now m' = (Acquired, m'\<lparr>owner := Some (c_fiber c), handoff := False\<rparr>))"
proof -
  have w: "w \<in> set (waiters (mutex_waiters m))" using assms(3) by simp
  note c = completeLocked_queued [OF assms(1) w, of 0]
  let ?q = "snd (completeLocked w 0 (mutex_waiters m))"
  let ?m = "m\<lparr>owner := None, handoff := True, mutex_waiters := ?q\<rparr>"
  have "unlock f m = Some (None, ?m)" using wakeOneLocked_front [OF assms(1,3)] assms(2) by (simp add: unlock_def)
  moreover have "waiters ?q = ws" "submitted ?q = submitted (mutex_waiters m) @ [(waiter_scheduler x, waiter_fiber x, waiter_thread x)]"
    "waitLocked_return w ?q = (None, ?q)" using assms(3,4) c by (simp_all add: waitLocked_return_def)
  ultimately show ?thesis
    by (intro exI [of _ ?m]) (auto simp: locked_def try_lock_def lock_round_def split: option.split prod.split wait_start.split)
qed

theorem unlock_hands_over_witness:
  "queue_ok (mutex_waiters contended_mutex) \<and> owner contended_mutex = Some 1 \<and> waiters (mutex_waiters contended_mutex) = [0] \<and>
   (\<exists>m'. unlock 1 contended_mutex = Some (None, m') \<and> waiters (mutex_waiters m') = [] \<and> try_lock 1 m' = (Some EBUSY, m'))"
  using unlock_hands_over [OF contended_ok contended_fields(2,1) refl] contended_ok contended_fields by blast



lemma wakeAllLocked_submitted:
  "queue_ok q \<Longrightarrow> wakeAllLocked_loop e n q = Some (k, q') \<Longrightarrow>
     submitted q' = submitted q @ map (\<lambda>w. (waiter_scheduler (wobj q w), waiter_fiber (wobj q w), waiter_thread (wobj q w))) (waiters q)"
proof (induction "waiters q" arbitrary: q n)
  case Nil
  then show ?case by (subst (asm) wakeAllLocked_loop.simps) (simp add: wakeOneLocked_empty)
next
  case (Cons w ws)
  have q: "waiters q = w # ws" using Cons.hyps(2) by simp
  let ?q = "snd (completeLocked w e q)"
  have c: "completeLocked w e q = (True, q\<lparr>waiters := ws, wobj := (wobj q)(w := (wobj q w)\<lparr>waiter_waiting := False, waiter_error := e\<rparr>),
      submitted := submitted q @ [(waiter_scheduler (wobj q w), waiter_fiber (wobj q w), waiter_thread (wobj q w))]\<rparr>)"
    using completeLocked_queued [OF Cons.prems(1), of w e] by (simp add: q)
  have ok: "queue_ok ?q" by (rule completeLocked_result(1) [OF Cons.prems(1) refl])
  have "wakeAllLocked_loop e (Suc n) ?q = Some (k, q')"
    using Cons.prems(2) wakeOneLocked_front [OF Cons.prems(1) q, of e] by (subst (asm) wakeAllLocked_loop.simps) simp
  from Cons.hyps(1) [OF _ ok this] have "submitted q' = submitted ?q @ map (\<lambda>w. (waiter_scheduler (wobj ?q w), waiter_fiber (wobj ?q w), waiter_thread (wobj ?q w))) ws"
    by (simp add: c)
  moreover have "w \<notin> set ws" using Cons.prems(1) by (simp add: queue_ok_def q)
  ultimately show ?case by (simp add: c q cong: map_cong)
qed

text \<open>
  The contract of the queue: a list of entries, each a waiter with the submission that
  resumes it.
\<close>

definition entries :: "WaitQueue \<Rightarrow> (waiter_id \<times> nat \<times> fid \<times> int) list" where
  "entries q = map (\<lambda>w. (w, waiter_scheduler (wobj q w), waiter_fiber (wobj q w), waiter_thread (wobj q w))) (waiters q)"

text \<open>
  C22: The wait queue implements a queue of entries. Waiting appends an entry, waking removes
  the first one and submits it, draining removes all in order and counts them, completing a
  waiter removes its entry; the loops end, and every operation keeps the representation
  invariant.
\<close>

theorem wait_queue_refines:
  assumes "queue_ok q"
  shows "(\<exists>q'. wakeOneLocked e q = Some (entries q \<noteq> [], q') \<and> queue_ok q' \<and> entries q' = tl (entries q) \<and>
      submitted q' = submitted q @ map snd (take 1 (entries q))) \<and>
    (\<exists>q'. wakeAllLocked e q = Some (length (entries q), q') \<and> queue_ok q' \<and> entries q' = [] \<and>
      submitted q' = submitted q @ map snd (entries q)) \<and>
    (\<forall>w. queue_ok (snd (completeLocked w e q)) \<and> entries (snd (completeLocked w e q)) = filter (\<lambda>x. fst x \<noteq> w) (entries q)) \<and>
    (\<forall>c s t. c_scheduler c = Some s \<and> t \<noteq> 0 \<longrightarrow> (\<exists>w q'. waitLocked_enqueue c t q = (Parked w, q') \<and> queue_ok q' \<and>
      entries q' = entries q @ [(w, s, c_fiber c, c_thread c)] \<and> w \<notin> fst ` set (entries q)))"
proof (intro conjI allI impI)
  have same: "map (\<lambda>v. (v, waiter_scheduler (wobj q' v), waiter_fiber (wobj q' v), waiter_thread (wobj q' v))) vs =
      map (\<lambda>v. (v, waiter_scheduler (wobj q v), waiter_fiber (wobj q v), waiter_thread (wobj q v))) vs"
    if "\<And>v. v \<in> set vs \<Longrightarrow> wobj q' v = wobj q v" for q' vs using that by simp
  have comp: "entries (snd (completeLocked w e q)) = filter (\<lambda>x. fst x \<noteq> w) (entries q)" for w
  proof -
    note r = completeLocked_result [OF assms refl, where w = w and e = e]
    have "distinct (waiters q)" using assms by (simp add: queue_ok_def)
    then have "waiters (snd (completeLocked w e q)) = filter (\<lambda>v. v \<noteq> w) (waiters q)" using r(2) by (simp add: distinct_remove1_removeAll removeAll_filter_not_eq neq_commute)
    then show ?thesis unfolding entries_def using same [of "filter (\<lambda>v. v \<noteq> w) (waiters q)" "snd (completeLocked w e q)"] r(5)
      by (simp add: filter_map comp_def)
  qed
  show "\<exists>q'. wakeOneLocked e q = Some (entries q \<noteq> [], q') \<and> queue_ok q' \<and> entries q' = tl (entries q) \<and> submitted q' = submitted q @ map snd (take 1 (entries q))"
  proof (cases "waiters q")
    case Nil
    then show ?thesis using assms by (simp add: wakeOneLocked_empty entries_def)
  next
    case (Cons w ws)
    have "w \<notin> set ws" using assms by (simp add: queue_ok_def Cons)
    then have "filter (\<lambda>v. v \<noteq> w) ws = ws" by (auto simp: filter_id_conv)
    then have "filter (\<lambda>x. fst x \<noteq> w) (entries q) = tl (entries q)" by (simp add: entries_def Cons filter_map comp_def)
    then show ?thesis using wakeOneLocked_front [OF assms Cons, of e] comp [of w] completeLocked_queued [OF assms, of w e]
        completeLocked_result(1) [OF assms refl, of w e] Cons by (simp add: entries_def)
  qed
  show "\<exists>q'. wakeAllLocked e q = Some (length (entries q), q') \<and> queue_ok q' \<and> entries q' = [] \<and> submitted q' = submitted q @ map snd (entries q)"
  proof -
    from wait.drain_all [OF assms, of e 0] obtain q' where
      "wakeAllLocked_loop e 0 q = Some (length (waiters q), q')" "queue_ok q'" "waiters q' = []" by auto
    with wakeAllLocked_submitted [OF assms this(1)] show ?thesis by (simp add: wakeAllLocked_def entries_def comp_def)
  qed
  show "queue_ok (snd (completeLocked w e q))" for w by (rule completeLocked_result(1) [OF assms refl])
  show "entries (snd (completeLocked w e q)) = filter (\<lambda>x. fst x \<noteq> w) (entries q)" for w by (rule comp)
  show "\<exists>w q'. waitLocked_enqueue c t q = (Parked w, q') \<and> queue_ok q' \<and> entries q' = entries q @ [(w, s, c_fiber c, c_thread c)] \<and> w \<notin> fst ` set (entries q)"
    if c: "c_scheduler c = Some s \<and> t \<noteq> 0" for c s t
  proof -
    obtain w q' where p: "waitLocked_enqueue c t q = (Parked w, q')" using c by (simp add: waitLocked_enqueue_def Let_def)
    note k = enqueue_Parked [OF assms p]
    have n: "w \<notin> set (waiters q)" using assms k(2) by (auto simp: queue_ok_def)
    have x: "waiter_scheduler (wobj q' w) = s" "waiter_thread (wobj q' w) = c_thread c" using p c by (auto simp: waitLocked_enqueue_def Let_def)
    have "wobj q' v = wobj q v" if "v \<in> set (waiters q)" for v using k(6) [of v] n that by blast
    then have "entries q' = entries q @ [(w, s, c_fiber c, c_thread c)]" using same [of "waiters q" q'] by (simp add: entries_def k(4,5) x)
    moreover have "w \<notin> fst ` set (entries q)" using n by (auto simp: entries_def)
    ultimately show ?thesis using p k(1) by blast
  qed
qed

theorem wait_queue_refines_witness:
  "queue_ok (mutex_waiters contended_mutex) \<and> (\<exists>q'. wakeOneLocked 0 (mutex_waiters contended_mutex) = Some (True, q') \<and> entries q' = [])"
  using wait_queue_refines [OF contended_ok, of 0] contended_ok contended_fields by (auto simp: entries_def)

text \<open>
  A notification after a Fiber has released the mutex in \<^verbatim>\<open>wait\<close> is not lost: the Fiber
  is queued before the guard is released, so notifying all, or notifying one when nobody waited
  before, completes its wait without an error; the mutex is released and passed on.
\<close>

theorem condition_wait_notified:
  assumes "queue_ok (cv_waiters cv)" and "queue_ok (mutex_waiters m)" and "ownedByCurrent (c_fiber c) m"
    and "c_scheduler c = Some s" and "t \<noteq> 0"
  shows "\<exists>w cv' m'. cv_wait_begin c t cv m = Some (Waits w t, cv', m') \<and> \<not> locked m' \<and>
    handoff m' = (waiters (mutex_waiters m) \<noteq> []) \<and> completed (cv_waiters cv') w = None \<and>
    (\<exists>n cv''. notifyAll cv' = Some (n, cv'') \<and> completed (cv_waiters cv'') w = Some 0) \<and>
    (emptyLocked (cv_waiters cv) \<longrightarrow> (\<exists>cv''. notifyOne cv' = Some (True, cv'') \<and> completed (cv_waiters cv'') w = Some 0))"
proof -
  from wait.wake_total [OF assms(2), of 0] obtain q1 where
    q1: "wakeOneLocked 0 (mutex_waiters m) = Some (waiters (mutex_waiters m) \<noteq> [], q1)" by auto
  obtain w q where p: "waitLocked_enqueue c t (cv_waiters cv) = (Parked w, q)" using assms(4,5) by (simp add: waitLocked_enqueue_def Let_def)
  note k = enqueue_Parked [OF assms(1) p]
  let ?cv = "cv\<lparr>cv_waiters := q\<rparr>" and ?m = "m\<lparr>owner := None, handoff := waiters (mutex_waiters m) \<noteq> [], mutex_waiters := q1\<rparr>"
  have "cv_wait_begin c t cv m = Some (Waits w t, ?cv, ?m)"
    using assms(3) q1 p by (simp add: cv_wait_begin_def unlock_def ownedByCurrent_def)
  moreover from wait.drain_all [OF k(1), of 0 0] have "\<exists>n cv''. notifyAll ?cv = Some (n, cv'') \<and> completed (cv_waiters cv'') w = Some 0"
    by (auto simp: notifyAll_def wakeAllLocked_def k(4))
  moreover have "\<exists>cv''. notifyOne ?cv = Some (True, cv'') \<and> completed (cv_waiters cv'') w = Some 0" if "emptyLocked (cv_waiters cv)"
    using wait.wake_front [OF k(1), of w "[]" 0] k(4) that by (auto simp: notifyOne_def emptyLocked_def)
  ultimately show ?thesis using k(7) by (intro exI [of _ w] exI [of _ ?cv] exI [of _ ?m]) (simp add: locked_def)
qed

theorem condition_wait_notified_witness:
  "\<exists>w cv' m'. cv_wait_begin (example_caller 1 True) 7 \<lparr>cv_waiters = WaitQueue_new\<rparr> contended_mutex = Some (Waits w 7, cv', m') \<and> handoff m'"
  using condition_wait_notified [of "\<lparr>cv_waiters = WaitQueue_new\<rparr>" contended_mutex "example_caller 1 True" 0 7] queue_ok_new contended_ok contended_fields
  by (simp add: example_caller_def ownedByCurrent_def) blast

section \<open>Divergences\<close>

text \<open>
  A lock with a timeout outside an IOManager gives up with \<open>ENOTSUP\<close> after it was queued. If the
  owner unlocks in between, the mutex is reserved for a Fiber that has already left: it is not
  owned, nobody waits, and no attempt ever succeeds.
\<close>

lemma handoff_lost_without_iomanager:
  "let c = example_caller 2 False;
       m = snd (lock_round c False 10 10 0 held_mutex) in
   case unlock 1 m of
     Some (None, m) \<Rightarrow>
       (let (r, q) = waitLocked_arm c 10 0 (mutex_waiters m); m = m\<lparr>mutex_waiters := q\<rparr> in
        r = Some ENOTSUP \<and> \<not> locked m \<and> emptyLocked (mutex_waiters m) \<and> fst (try_lock 1 m) = Some EBUSY \<and> fst (try_lock 3 m) = Some EBUSY)
   | _ \<Rightarrow> False"
  by code_simp

end
