(* ===== verification/Sync_Semaphore.thy ===== *)
theory Sync_Semaphore
  imports Sync_Mutex
begin

text \<open>
  The Fiber semaphore as a transition system over the Fibers that use it, its invariant and
  its properties.
\<close>

section \<open>The semaphore as a transition system\<close>

text \<open>
  Where a Fiber is in \<^verbatim>\<open>wait(n)\<close>. The counters record what was taken and given; \<open>signal\<close> is
  used within the range of the count.
\<close>

datatype sem_pc = SIdle | SParked waiter_id u64 u64 u64 | SRetry u64 u64 u64

record sem_sys =
  sema :: FiberSemaphore
  spc :: "fid \<Rightarrow> sem_pc"
  taken :: nat
  given :: nat

fun sem_after :: "u64 \<Rightarrow> u64 \<Rightarrow> u64 \<Rightarrow> round \<Rightarrow> sem_pc" where
  "sem_after n timeout_ms deadline (Waits w r) = SParked w n timeout_ms deadline"
| "sem_after n timeout_ms deadline Acquired = SIdle"
| "sem_after n timeout_ms deadline (Failed e) = SIdle"

inductive sem_step :: "sem_sys \<Rightarrow> sem_sys \<Rightarrow> bool" where
  wait_start: "spc s (c_fiber c) = SIdle \<Longrightarrow>
    sem_wait_round c n timeout_ms (wait_deadline timeout_ms t0) now (sema s) = (r, x) \<Longrightarrow>
    sem_step s (s\<lparr>sema := x, spc := (spc s)(c_fiber c := sem_after n timeout_ms (wait_deadline timeout_ms t0) r),
      taken := taken s + (if r = Acquired then unat n else 0)\<rparr>)"
| arm: "spc s (c_fiber c) = SParked w n timeout_ms deadline \<Longrightarrow> waitLocked_arm c t w (sem_waiters (sema s)) = (Some e, q') \<Longrightarrow>
    sem_step s (s\<lparr>sema := (sema s)\<lparr>sem_waiters := q'\<rparr>, spc := (spc s)(c_fiber c := SIdle)\<rparr>)"
| resume: "spc s f = SParked w n timeout_ms deadline \<Longrightarrow> waitLocked_return w (sem_waiters (sema s)) = (r, q') \<Longrightarrow>
    sem_step s (s\<lparr>sema := (sema s)\<lparr>sem_waiters := q'\<rparr>,
      spc := (spc s)(f := (case r of None \<Rightarrow> SRetry n timeout_ms deadline | Some e \<Rightarrow> SIdle))\<rparr>)"
| retry: "spc s (c_fiber c) = SRetry n timeout_ms deadline \<Longrightarrow> sem_wait_round c n timeout_ms deadline now (sema s) = (r, x) \<Longrightarrow>
    sem_step s (s\<lparr>sema := x, spc := (spc s)(c_fiber c := sem_after n timeout_ms deadline r),
      taken := taken s + (if r = Acquired then unat n else 0)\<rparr>)"
| expire: "sem_step s (s\<lparr>sema := (sema s)\<lparr>sem_waiters := timeout w (sem_waiters (sema s))\<rparr>\<rparr>)"
| signal: "unat (sem_count (sema s)) + unat n < 2 ^ 64 \<Longrightarrow> signal n (sema s) = Some x \<Longrightarrow>
    sem_step s (s\<lparr>sema := x, given := given s + unat n\<rparr>)"
| cancel: "sem_cancelWaiters e (sema s) = Some (k, x) \<Longrightarrow> sem_step s (s\<lparr>sema := x\<rparr>)"

definition sem_start :: "u64 \<Rightarrow> sem_sys" where
  "sem_start n = \<lparr>sema = FiberSemaphore_new n, spc = (\<lambda>_. SIdle), taken = 0, given = 0\<rparr>"

definition sem_inv :: "nat \<Rightarrow> sem_sys \<Rightarrow> bool" where
  "sem_inv init s \<longleftrightarrow> queue_ok (sem_waiters (sema s)) \<and> unat (sem_count (sema s)) + taken s = init + given s \<and>
     (\<forall>w \<in> set (waiters (sem_waiters (sema s))). \<exists>n t d. spc s (waiter_fiber (wobj (sem_waiters (sema s)) w)) = SParked w n t d) \<and>
     (\<forall>f w n t d. spc s f = SParked w n t d \<longrightarrow> w < wnext (sem_waiters (sema s)) \<and> waiter_fiber (wobj (sem_waiters (sema s)) w) = f \<and>
        (w \<in> set (waiters (sem_waiters (sema s))) \<longrightarrow> sem_count (sema s) < n))"

lemma sem_invD:
  assumes "sem_inv k s"
  shows "queue_ok (sem_waiters (sema s))" and "unat (sem_count (sema s)) + taken s = k + given s"
    and "w \<in> set (waiters (sem_waiters (sema s))) \<Longrightarrow> \<exists>n t d. spc s (waiter_fiber (wobj (sem_waiters (sema s)) w)) = SParked w n t d"
    and "spc s f = SParked w n t d \<Longrightarrow> w < wnext (sem_waiters (sema s)) \<and> waiter_fiber (wobj (sem_waiters (sema s)) w) = f \<and>
       (w \<in> set (waiters (sem_waiters (sema s))) \<longrightarrow> sem_count (sema s) < n)"
  using assms unfolding sem_inv_def by blast+

lemma sem_invI:
  assumes "queue_ok (sem_waiters (sema s))" and "unat (sem_count (sema s)) + taken s = k + given s"
    and "\<And>w. w \<in> set (waiters (sem_waiters (sema s))) \<Longrightarrow> \<exists>n t d. spc s (waiter_fiber (wobj (sem_waiters (sema s)) w)) = SParked w n t d"
    and "\<And>f w n t d. spc s f = SParked w n t d \<Longrightarrow> w < wnext (sem_waiters (sema s)) \<and> waiter_fiber (wobj (sem_waiters (sema s)) w) = f \<and>
       (w \<in> set (waiters (sem_waiters (sema s))) \<longrightarrow> sem_count (sema s) < n)"
  shows "sem_inv k s"
  using assms unfolding sem_inv_def by blast

text \<open>
  One Fiber moves and the queue shrinks: what is left in the queue belongs to other Fibers.
\<close>

lemma sem_inv_shrink:
  assumes inv: "sem_inv k s" and x: "queue_ok (sem_waiters x)" "wnext (sem_waiters x) = wnext (sem_waiters (sema s))"
      "\<And>v. waiter_fiber (wobj (sem_waiters x) v) = waiter_fiber (wobj (sem_waiters (sema s)) v)"
      "\<And>v. v \<in> set (waiters (sem_waiters x)) \<Longrightarrow> v \<in> set (waiters (sem_waiters (sema s))) \<and> sem_count x \<le> sem_count (sema s)"
    and bal: "unat (sem_count x) + tk = k + gv"
    and g1: "\<And>v. v \<in> set (waiters (sem_waiters x)) \<Longrightarrow> g (waiter_fiber (wobj (sem_waiters (sema s)) v)) = spc s (waiter_fiber (wobj (sem_waiters (sema s)) v))"
    and g2: "\<And>h v n t d. g h = SParked v n t d \<Longrightarrow> spc s h = SParked v n t d"
  shows "sem_inv k (s\<lparr>sema := x, spc := g, taken := tk, given := gv\<rparr>)"
proof (rule sem_invI)
  note i = sem_invD [OF inv]
  let ?s = "s\<lparr>sema := x, spc := g, taken := tk, given := gv\<rparr>"
  show "queue_ok (sem_waiters (sema ?s))" "unat (sem_count (sema ?s)) + taken ?s = k + given ?s" using x(1) bal by simp_all
  show "\<exists>n t d. spc ?s (waiter_fiber (wobj (sem_waiters (sema ?s)) w)) = SParked w n t d" if "w \<in> set (waiters (sem_waiters (sema ?s)))" for w
    using i(3) [of w] x(3,4) g1 [of w] that by auto
  show "w < wnext (sem_waiters (sema ?s)) \<and> waiter_fiber (wobj (sem_waiters (sema ?s)) w) = h \<and>
       (w \<in> set (waiters (sem_waiters (sema ?s))) \<longrightarrow> sem_count (sema ?s) < n)" if "spc ?s h = SParked w n t d" for h w n t d
  proof -
    have "spc s h = SParked w n t d" using that g2 by simp
    from i(4) [OF this] show ?thesis using x(2,3,4) by (auto intro: le_less_trans)
  qed
qed

text \<open>A round of a Fiber that is not parked.\<close>

lemma sem_inv_round:
  assumes inv: "sem_inv k s" and f: "\<And>w n t d. spc s (c_fiber c) \<noteq> SParked w n t d" and r: "sem_wait_round c n t d now (sema s) = (r, x)"
  shows "sem_inv k (s\<lparr>sema := x, spc := (spc s)(c_fiber c := sem_after n t d r), taken := taken s + (if r = Acquired then unat n else 0)\<rparr>)"
proof -
  note i = sem_invD [OF inv]
  have other: "waiter_fiber (wobj (sem_waiters (sema s)) v) \<noteq> c_fiber c" if "v \<in> set (waiters (sem_waiters (sema s)))" for v
    using i(3) [OF that] f by metis
  have keep: "sem_inv k (s\<lparr>sema := x, spc := (spc s)(c_fiber c := SIdle), taken := tk\<rparr>)"
    if x: "sem_waiters x = sem_waiters (sema s)" "sem_count x \<le> sem_count (sema s)" "unat (sem_count x) + tk = k + given s" for tk
  proof -
    have "sem_inv k (s\<lparr>sema := x, spc := (spc s)(c_fiber c := SIdle), taken := tk, given := given s\<rparr>)"
      using x i(1) other by (intro sem_inv_shrink [OF inv]) (auto split: if_splits)
    then show ?thesis by simp
  qed
  consider (zero) "n = 0" | (take) "n \<noteq> 0" "n \<le> sem_count (sema s)" | (wait) "n \<noteq> 0" "sem_count (sema s) < n"
    by (cases "n = 0"; cases "n \<le> sem_count (sema s)") (simp_all add: not_le)
  then show ?thesis
  proof cases
    case zero
    then have "r = Acquired" "x = sema s" using r by (auto simp: sem_wait_round_def)
    then show ?thesis using keep [of "taken s"] i(2) zero by simp
  next
    case take
    then have "r = Acquired" "x = (sema s)\<lparr>sem_count := sem_count (sema s) - n\<rparr>" using r by (auto simp: sem_wait_round_def)
    moreover have "unat (sem_count (sema s) - n) = unat (sem_count (sema s)) - unat n" using take(2) by (rule unat_sub)
    ultimately show ?thesis using keep [of "taken s + unat n"] i(2) take(2) by (simp add: word_le_nat_alt)
  next
    case wait
    then have nle: "\<not> n \<le> sem_count (sema s)" by (simp add: not_le)
    show ?thesis
    proof (cases "\<exists>w rem. r = Waits w rem")
      case False
      then have "sem_after n t d r = SIdle" "x = sema s" "r \<noteq> Acquired"
        using r wait(1) nle by (auto simp: sem_wait_round_def dest: enqueue_Failed split: option.splits prod.splits wait_start.splits)
      then show ?thesis using keep [of "taken s"] i(2) by simp
    next
      case True
      then obtain w rem q' where w: "r = Waits w rem" "waitLocked_enqueue c rem (sem_waiters (sema s)) = (Parked w, q')"
        "x = (sema s)\<lparr>sem_waiters := q'\<rparr>"
        using r wait(1) nle by (auto simp: sem_wait_round_def split: option.splits prod.splits wait_start.splits)
      note e = enqueue_Parked [OF i(1) w(2)]
      have old: "v \<noteq> w" if "v < wnext (sem_waiters (sema s))" for v using that e(2) by simp
      show ?thesis
      proof (rule sem_invI)
        let ?s = "s\<lparr>sema := x, spc := (spc s)(c_fiber c := sem_after n t d r), taken := taken s + (if r = Acquired then unat n else 0)\<rparr>"
        show "queue_ok (sem_waiters (sema ?s))" "unat (sem_count (sema ?s)) + taken ?s = k + given ?s" using e(1) i(2) by (simp_all add: w)
        show "\<exists>n t d. spc ?s (waiter_fiber (wobj (sem_waiters (sema ?s)) v)) = SParked v n t d" if v: "v \<in> set (waiters (sem_waiters (sema ?s)))" for v
        proof (cases "v = w")
          case True
          then show ?thesis using e(5) by (simp add: w(1,3))
        next
          case False
          then have "v \<in> set (waiters (sem_waiters (sema s)))" using v e(4) by (simp add: w(3))
          with i(3) [of v] other [of v] e(6) [OF False] show ?thesis by (simp add: w(3))
        qed
        show "v < wnext (sem_waiters (sema ?s)) \<and> waiter_fiber (wobj (sem_waiters (sema ?s)) v) = h \<and>
            (v \<in> set (waiters (sem_waiters (sema ?s))) \<longrightarrow> sem_count (sema ?s) < n')" if h: "spc ?s h = SParked v n' t' d'" for h v n' t' d'
        proof (cases "h = c_fiber c")
          case True
          then show ?thesis using h e(3,5) wait(2) by (simp add: w(1,3))
        next
          case False
          then have "spc s h = SParked v n' t' d'" using h by simp
          note a = i(4) [OF this]
          then have "v \<noteq> w" using old by blast
          then show ?thesis using a e(3,4) e(6) [of v] e(2) by (simp add: w(3))
        qed
      qed
    qed
  qed
qed

text \<open>Steps that complete one waiter, of the Fiber that moves or of nobody.\<close>

lemma sem_inv_complete:
  assumes inv: "sem_inv k s" and q': "queue_ok q'" "waiters q' = remove1 w (waiters (sem_waiters (sema s)))"
      "wnext q' = wnext (sem_waiters (sema s))" "\<And>v. waiter_fiber (wobj q' v) = waiter_fiber (wobj (sem_waiters (sema s)) v)"
    and g: "g = spc s \<or> spc s f = SParked w n t d \<and> g = (spc s)(f := p) \<and> (\<forall>v n t d. p \<noteq> SParked v n t d)"
  shows "sem_inv k (s\<lparr>sema := (sema s)\<lparr>sem_waiters := q'\<rparr>, spc := g\<rparr>)"
proof -
  note i = sem_invD [OF inv]
  have d: "distinct (waiters (sem_waiters (sema s)))" using i(1) by (simp add: queue_ok_def)
  have v: "v \<in> set (waiters (sem_waiters (sema s))) \<and> v \<noteq> w" if "v \<in> set (waiters q')" for v
    using that d by (simp add: q'(2))
  have "sem_inv k (s\<lparr>sema := (sema s)\<lparr>sem_waiters := q'\<rparr>, spc := g, taken := taken s, given := given s\<rparr>)"
  proof (rule sem_inv_shrink [OF inv])
    show "queue_ok (sem_waiters ((sema s)\<lparr>sem_waiters := q'\<rparr>))" using q'(1) by simp
    show "wnext (sem_waiters ((sema s)\<lparr>sem_waiters := q'\<rparr>)) = wnext (sem_waiters (sema s))" using q'(3) by simp
    show "waiter_fiber (wobj (sem_waiters ((sema s)\<lparr>sem_waiters := q'\<rparr>)) v) = waiter_fiber (wobj (sem_waiters (sema s)) v)" for v
      by (simp add: q'(4))
    show "v \<in> set (waiters (sem_waiters (sema s))) \<and> sem_count ((sema s)\<lparr>sem_waiters := q'\<rparr>) \<le> sem_count (sema s)"
      if "v \<in> set (waiters (sem_waiters ((sema s)\<lparr>sem_waiters := q'\<rparr>)))" for v using v [of v] that by simp
    show "unat (sem_count ((sema s)\<lparr>sem_waiters := q'\<rparr>)) + taken s = k + given s" using i(2) by simp
    show "g (waiter_fiber (wobj (sem_waiters (sema s)) v)) = spc s (waiter_fiber (wobj (sem_waiters (sema s)) v))"
      if "v \<in> set (waiters (sem_waiters ((sema s)\<lparr>sem_waiters := q'\<rparr>)))" for v
    proof -
      have "v \<in> set (waiters (sem_waiters (sema s)))" "v \<noteq> w" using v [of v] that by simp_all
      then show ?thesis using g i(3) [of v] by (auto split: if_splits)
    qed
    show "spc s h = SParked v n t d" if "g h = SParked v n t d" for h v n t d using g that by (auto split: if_splits)
  qed
  then show ?thesis by simp
qed

text \<open>Steps that wake everybody.\<close>

lemma sem_inv_drain:
  assumes inv: "sem_inv k s" and w: "wakeAllLocked e (sem_waiters (sema s)) = Some (j, q')"
    and c: "unat c + taken s = k + gv"
  shows "sem_inv k (s\<lparr>sema := (sema s)\<lparr>sem_count := c, sem_waiters := q'\<rparr>, given := gv\<rparr>)"
proof -
  note i = sem_invD [OF inv]
  obtain q where q: "wakeAllLocked e (sem_waiters (sema s)) = Some (length (waiters (sem_waiters (sema s))), q)" "queue_ok q" "waiters q = []"
    "wnext q = wnext (sem_waiters (sema s))" "\<And>v. waiter_fiber (wobj q v) = waiter_fiber (wobj (sem_waiters (sema s)) v)"
    "\<And>v. v \<notin> set (waiters (sem_waiters (sema s))) \<Longrightarrow> wobj q v = wobj (sem_waiters (sema s)) v"
    "completed q = (\<lambda>w. if w \<in> set (waiters (sem_waiters (sema s))) then Some e else completed (sem_waiters (sema s)) w)"
    by (rule wakeAllLocked_result [OF i(1), of e]) (rule that)
  have "q' = q" using w q(1) by simp
  then have "sem_inv k (s\<lparr>sema := (sema s)\<lparr>sem_count := c, sem_waiters := q'\<rparr>, spc := spc s, taken := taken s, given := gv\<rparr>)"
    using q(2-5) c by (intro sem_inv_shrink [OF inv]) simp_all
  then show ?thesis by simp
qed

lemma sem_step_inv:
  assumes inv: "sem_inv k s" and step: "sem_step s s'"
  shows "sem_inv k s'"
  using step
proof cases
  case (wait_start c n t t0 now r x)
  then show ?thesis using sem_inv_round [OF inv _ wait_start(3)] by simp
next
  case (arm c w n t d t' e q')
  then have "q' = snd (completeLocked w ENOTSUP (sem_waiters (sema s)))" by (auto simp: waitLocked_arm_def split: if_splits)
  note r = completeLocked_result [OF sem_invD(1) [OF inv] this]
  show ?thesis unfolding arm(1) by (rule sem_inv_complete [OF inv r(1-4)]) (use arm(2) in auto)
next
  case (resume f w n t d r q')
  note k = waitLocked_return_result [OF sem_invD(1) [OF inv] resume(3) conjunct1 [OF sem_invD(4) [OF inv resume(2)]]]
  show ?thesis unfolding resume(1) by (rule sem_inv_complete [OF inv k(1-4), where f = f and n = n and t = t and d = d and p = "case r of None \<Rightarrow> SRetry n t d | Some e \<Rightarrow> SIdle"])
      (use resume(2) in \<open>simp split: option.split\<close>)
next
  case (retry c n t d now r x)
  then show ?thesis using sem_inv_round [OF inv _ retry(3)] by simp
next
  case (expire w)
  note r = completeLocked_result [OF sem_invD(1) [OF inv] refl, where w = w and e = ETIMEDOUT, folded timeout_def]
  have "sem_inv k (s\<lparr>sema := (sema s)\<lparr>sem_waiters := timeout w (sem_waiters (sema s))\<rparr>, spc := spc s\<rparr>)"
    by (rule sem_inv_complete [OF inv r(1-4)]) simp
  then show ?thesis by (simp add: expire)
next
  case (signal n x)
  show ?thesis
  proof (cases "n = 0")
    case True
    then have "x = sema s" using signal(3) by (simp add: signal_def)
    then have "s\<lparr>sema := x, given := given s + unat n\<rparr> = s" using True by simp
    then show ?thesis using inv by (simp add: signal(1))
  next
    case False
    then obtain j q' where w: "wakeAllLocked 0 (sem_waiters (sema s)) = Some (j, q')"
      and x: "x = (sema s)\<lparr>sem_count := sem_count (sema s) + n, sem_waiters := q'\<rparr>"
      using signal(3) by (auto simp: signal_def)
    have "unat (sem_count (sema s) + n) = unat (sem_count (sema s)) + unat n"
      using signal(2) by (subst unat_plus_if_size) (simp add: word_size)
    then show ?thesis using sem_inv_drain [OF inv w] sem_invD(2) [OF inv] unfolding signal(1) x by simp
  qed
next
  case (cancel e j x)
  then obtain q' where w: "wakeAllLocked e (sem_waiters (sema s)) = Some (j, q')" and x: "x = (sema s)\<lparr>sem_waiters := q'\<rparr>"
    by (auto simp: sem_cancelWaiters_def)
  have "sem_inv k (s\<lparr>sema := (sema s)\<lparr>sem_count := sem_count (sema s), sem_waiters := q'\<rparr>, given := given s\<rparr>)"
    by (rule sem_inv_drain [OF inv w sem_invD(2) [OF inv]])
  then show ?thesis unfolding cancel(1) x by simp
qed

lemma sem_inv_start: "sem_inv (unat n) (sem_start n)"
  by (rule sem_invI) (simp_all add: sem_start_def FiberSemaphore_new_def queue_ok_new)

interpretation semaphore: invariant_of "\<lambda>s. s = sem_start n" sem_step "sem_inv (unat n)" for n
  by unfold_locales (auto intro: sem_inv_start sem_step_inv)

section \<open>Properties of the semaphore\<close>


text \<open>
  C24: No wake-up is lost: a Fiber that is still queued asks for more than the count, so
  whenever the count suffices for a waiting Fiber, that Fiber has been woken.
\<close>

theorem semaphore_no_lost_wakeup:
  assumes "sem_step\<^sup>*\<^sup>* (sem_start n) s" and "w \<in> set (waiters (sem_waiters (sema s)))"
  shows "\<exists>f m t d. spc s f = SParked w m t d \<and> waiter_fiber (wobj (sem_waiters (sema s)) w) = f \<and> sem_count (sema s) < m"
proof -
  note i = sem_invD [OF semaphore.inv_reachable [OF refl assms(1)]]
  from i(3) [OF assms(2)] obtain m t d where p: "spc s (waiter_fiber (wobj (sem_waiters (sema s)) w)) = SParked w m t d" by blast
  with i(4) [OF p] assms(2) show ?thesis by blast
qed

definition example_sem :: sem_sys where
  "example_sem = (sem_start 3)\<lparr>sema := snd (sem_wait_round (example_caller 1 True) 5 kFiberWaitForever 0 0 (FiberSemaphore_new 3)),
     spc := (\<lambda>_. SIdle)(1 := SParked 0 5 kFiberWaitForever 0)\<rparr>"

lemma example_sem_reachable: "sem_step\<^sup>*\<^sup>* (sem_start 3) example_sem"
proof -
  let ?c = "example_caller 1 True"
  obtain x where x: "sem_wait_round ?c 5 kFiberWaitForever (wait_deadline kFiberWaitForever 0) 0 (sema (sem_start 3)) = (Waits 0 kFiberWaitForever, x)"
    "x = snd (sem_wait_round ?c 5 kFiberWaitForever 0 0 (FiberSemaphore_new 3))"
    by (simp add: sem_wait_round_def sem_start_def FiberSemaphore_new_def wait_remaining_def waitLocked_enqueue_def example_caller_def
        WaitQueue_new_def Let_def kFiberWaitForever_def wait_deadline_def)
  have "sem_step (sem_start 3) example_sem"
    using wait_start [OF _ x(1)] by (simp add: example_sem_def x(2) sem_start_def example_caller_def wait_deadline_def)
  then show ?thesis ..
qed


theorem semaphore_no_lost_wakeup_witness:
  "sem_step\<^sup>*\<^sup>* (sem_start 3) example_sem \<and> 0 \<in> set (waiters (sem_waiters (sema example_sem))) \<and>
   (\<exists>f m t d. spc example_sem f = SParked 0 m t d \<and> sem_count (sema example_sem) < m)"
proof -
  have "0 \<in> set (waiters (sem_waiters (sema example_sem)))"
    by (simp add: example_sem_def sem_wait_round_def FiberSemaphore_new_def wait_remaining_def waitLocked_enqueue_def example_caller_def
        WaitQueue_new_def Let_def kFiberWaitForever_def)
  then show ?thesis using semaphore_no_lost_wakeup [OF example_sem_reachable] example_sem_reachable by blast
qed

section \<open>Divergences of the wait queue\<close>

text \<open>
  The branch for a Fiber that is resumed while it still waits completes the waiter with
  \<open>ECANCELED\<close>, but the result was read before: the wait reports success.
\<close>

lemma interrupted_wait_succeeds:
  assumes "queue_ok q" and "w \<in> set (waiters q)"
  shows "fst (waitLocked_return w q) = None \<and> completed (snd (waitLocked_return w q)) w = Some ECANCELED"
  using queue_ok_waiting [OF assms] completeLocked_result(6) [OF assms(1) refl assms(2), of ECANCELED]
  by (simp add: waitLocked_return_def Let_def)

end
