(* ===== verification/Fd_Manager.thy ===== *)
theory Fd_Manager
  imports Pulsar_Prelude
begin

text \<open>
  Model of \<^verbatim>\<open>fd_manager.hpp\<close> and \<^verbatim>\<open>fd_manager.cpp\<close>: the context the runtime keeps of a file
  descriptor (is it a socket, is it non-blocking for the runtime and for the user, its
  timeouts) and the table of contexts. What the kernel knows of a descriptor is an explicit
  state. The lookup under the read lock and the creation under the write lock are separate
  definitions. Then the table is shown to implement the interface of a map with on-demand
  creation.
\<close>

section \<open>The kernel's view of descriptors\<close>

text \<open>
  \<open>fd_stat\<close> is the answer of \<^verbatim>\<open>fstat\<close>: \<open>None\<close> is an error, otherwise whether it is a socket;
  \<open>fd_flags\<close> are the status flags that \<^verbatim>\<open>F_GETFL\<close> and \<^verbatim>\<open>F_SETFL\<close> access.
\<close>

record fd_kernel =
  fd_stat :: "int \<Rightarrow> bool option"
  fd_flags :: "int \<Rightarrow> u32"

definition O_NONBLOCK :: u32 where
  "O_NONBLOCK = 0x800"

section \<open>Contexts\<close>

record FdCtx =
  m_isInit :: bool
  m_isSocket :: bool
  m_sysNonblock :: bool
  m_userNonblock :: bool
  m_isClosed :: bool
  m_fd :: int
  m_recvTimeout :: u64
  m_sendTimeout :: u64

definition FdCtx_init :: "fd_kernel \<Rightarrow> FdCtx \<Rightarrow> bool \<times> fd_kernel \<times> FdCtx" where
  "FdCtx_init k c =
     (if m_isInit c then (True, k, c)
      else
        (let c = c\<lparr>m_recvTimeout := - 1, m_sendTimeout := - 1\<rparr>;
             c = (case fd_stat k (m_fd c) of
                    None \<Rightarrow> c\<lparr>m_isInit := False, m_isSocket := False\<rparr>
                  | Some sock \<Rightarrow> c\<lparr>m_isInit := True, m_isSocket := sock\<rparr>);
             flags = fd_flags k (m_fd c);
             k = (if m_isSocket c \<and> flags AND O_NONBLOCK = 0
                  then k\<lparr>fd_flags := (fd_flags k)(m_fd c := flags OR O_NONBLOCK)\<rparr> else k);
             c = c\<lparr>m_sysNonblock := m_isSocket c, m_userNonblock := False, m_isClosed := False\<rparr> in
         (m_isInit c, k, c)))"

definition FdCtx_new :: "int \<Rightarrow> fd_kernel \<Rightarrow> fd_kernel \<times> FdCtx" where
  "FdCtx_new fd k =
     snd (FdCtx_init k \<lparr>m_isInit = False, m_isSocket = False, m_sysNonblock = False, m_userNonblock = False,
       m_isClosed = False, m_fd = fd, m_recvTimeout = - 1, m_sendTimeout = - 1\<rparr>)"

text \<open>The option types that select a timeout.\<close>

definition SO_RCVTIMEO :: int where "SO_RCVTIMEO = 20"
definition SO_SNDTIMEO :: int where "SO_SNDTIMEO = 21"

definition setTimeout :: "int \<Rightarrow> u64 \<Rightarrow> FdCtx \<Rightarrow> FdCtx" where
  "setTimeout type v c = (if type = SO_RCVTIMEO then c\<lparr>m_recvTimeout := v\<rparr> else c\<lparr>m_sendTimeout := v\<rparr>)"

definition getTimeout :: "int \<Rightarrow> FdCtx \<Rightarrow> u64" where
  "getTimeout type c = (if type = SO_RCVTIMEO then m_recvTimeout c else m_sendTimeout c)"

section \<open>The table\<close>

text \<open>
  Contexts are shared objects, so the table holds their addresses; a Fiber may use a context
  that has left the table.
\<close>

type_synonym fctx_id = nat

record FdManager =
  m_datas :: "fctx_id option list"
  fctx :: "fctx_id \<Rightarrow> FdCtx"
  fctx_next :: fctx_id

definition FdManager_new :: FdManager where
  "FdManager_new = \<lparr>m_datas = replicate 64 None,
     fctx = (\<lambda>_. \<lparr>m_isInit = False, m_isSocket = False, m_sysNonblock = False, m_userNonblock = False,
       m_isClosed = False, m_fd = 0, m_recvTimeout = 0, m_sendTimeout = 0\<rparr>), fctx_next = 0\<rparr>"

text \<open>\<^verbatim>\<open>resize\<close> of a vector of pointers.\<close>

definition resize_ptrs :: "nat \<Rightarrow> 'a option list \<Rightarrow> 'a option list" where
  "resize_ptrs n xs = take n xs @ replicate (n - length xs) None"

text \<open>
  The part of \<^verbatim>\<open>get\<close> under the read lock: \<open>Some r\<close> is a return, \<open>None\<close> goes on to create. A
  negative descriptor other than \<open>-1\<close> is an index out of range.
\<close>

definition get_lookup :: "int \<Rightarrow> bool \<Rightarrow> FdManager \<Rightarrow> fctx_id option option result" where
  "get_lookup fd auto_create d =
     (if fd = - 1 then Inr (Some None)
      else if int (length (m_datas d)) \<le> fd then Inr (if \<not> auto_create then Some None else None)
      else if fd < 0 then Inl (Undefined ''m_datas[fd]'')
      else
        (let p = m_datas d ! nat fd in
         Inr (if p \<noteq> None \<or> \<not> auto_create then Some p else None)))"

definition get_create :: "int \<Rightarrow> fd_kernel \<Rightarrow> FdManager \<Rightarrow> (fctx_id \<times> fd_kernel \<times> FdManager) result" where
  "get_create fd k d =
     (if fd < 0 then Inl (Undefined ''m_datas[fd]'')
      else
        (let (k, c) = FdCtx_new fd k;
             p = fctx_next d;
             ds = (if fd \<ge> int (length (m_datas d)) then resize_ptrs (nat (fd * 3 div 2)) (m_datas d) else m_datas d) in
         if nat fd < length ds
         then Inr (p, k, d\<lparr>m_datas := ds[nat fd := Some p], fctx := (fctx d)(p := c), fctx_next := Suc p\<rparr>)
         else Inl (Undefined ''m_datas[fd]'')))"

definition FdManager_get ::
  "int \<Rightarrow> bool \<Rightarrow> fd_kernel \<Rightarrow> FdManager \<Rightarrow> (fctx_id option \<times> fd_kernel \<times> FdManager) result" where
  "FdManager_get fd auto_create k d =
     bind_res (get_lookup fd auto_create d) (\<lambda>r.
       case r of
         Some p \<Rightarrow> Inr (p, k, d)
       | None \<Rightarrow> bind_res (get_create fd k d) (\<lambda>(p, k, d). Inr (Some p, k, d)))"

definition FdManager_del :: "int \<Rightarrow> FdManager \<Rightarrow> FdManager result" where
  "FdManager_del fd d =
     (if int (length (m_datas d)) \<le> fd then Inr d
      else if fd < 0 then Inl (Undefined ''m_datas[fd]'')
      else Inr (d\<lparr>m_datas := (m_datas d)[nat fd := None]\<rparr>))"

section \<open>Interface: a table with on-demand creation\<close>

text \<open>
  What the hooks rely on: a look-up of a created descriptor finds the context that was
  created for it until it is deleted, and other descriptors are not disturbed.
\<close>

locale context_table =
  fixes ok :: "'t \<Rightarrow> bool"
    and find :: "'t \<Rightarrow> int \<Rightarrow> 'c option"
    and create :: "int \<Rightarrow> 't \<Rightarrow> ('c \<times> 't) option"
    and del :: "int \<Rightarrow> 't \<Rightarrow> 't option"
  assumes create_total: "ok t \<Longrightarrow> 0 \<le> fd \<Longrightarrow> \<exists>c t'. create fd t = Some (c, t')"
    and create_find: "ok t \<Longrightarrow> create fd t = Some (c, t') \<Longrightarrow> find t' fd' = (if fd' = fd then Some c else find t fd')"
    and create_ok: "ok t \<Longrightarrow> create fd t = Some (c, t') \<Longrightarrow> ok t'"
    and del_total: "ok t \<Longrightarrow> 0 \<le> fd \<Longrightarrow> \<exists>t'. del fd t = Some t'"
    and del_find: "ok t \<Longrightarrow> del fd t = Some t' \<Longrightarrow> find t' fd' = (if fd' = fd then None else find t fd')"
    and del_ok: "ok t \<Longrightarrow> del fd t = Some t' \<Longrightarrow> ok t'"
begin

definition get :: "int \<Rightarrow> 't \<Rightarrow> ('c \<times> 't) option" where
  "get fd t = (case find t fd of Some c \<Rightarrow> Some (c, t) | None \<Rightarrow> create fd t)"

lemma get_idempotent:
  assumes "ok t" and "get fd t = Some (c, t')"
  shows "get fd t' = Some (c, t') \<and> find t' fd = Some c \<and> ok t' \<and> (\<forall>fd'. fd' \<noteq> fd \<longrightarrow> find t' fd' = find t fd')"
  using assms create_find create_ok by (auto simp: get_def split: option.splits)

lemma get_after_del:
  assumes "ok t" and "get fd t = Some (c, t1)" and "del fd t1 = Some t2"
  shows "find t2 fd = None \<and> ok t2 \<and> (\<forall>fd'. fd' \<noteq> fd \<longrightarrow> find t2 fd' = find t fd')"
  using get_idempotent [OF assms(1,2)] assms(3) del_find del_ok by auto

end

section \<open>The table implements the interface\<close>

text \<open>
  The table never gets shorter than its first 64 entries, and each context it holds was
  created for the descriptor it is stored under: the runtime treats as non-blocking exactly
  what is a socket.
\<close>

definition table_ok :: "FdManager \<Rightarrow> bool" where
  "table_ok d \<longleftrightarrow> 64 \<le> length (m_datas d) \<and>
     (\<forall>i < length (m_datas d). \<forall>p. m_datas d ! i = Some p \<longrightarrow>
        p < fctx_next d \<and> m_fd (fctx d p) = int i \<and> m_sysNonblock (fctx d p) = m_isSocket (fctx d p))"

definition table_find :: "FdManager \<Rightarrow> int \<Rightarrow> fctx_id option" where
  "table_find d fd = (if 0 \<le> fd \<and> nat fd < length (m_datas d) then m_datas d ! nat fd else None)"

lemma FdCtx_new_fields:
  assumes "FdCtx_new fd k = (k', c)"
  shows "m_fd c = fd" "m_isSocket c \<longleftrightarrow> fd_stat k fd = Some True" "m_sysNonblock c = m_isSocket c" "\<not> m_userNonblock c" "\<not> m_isClosed c"
    "m_recvTimeout c = - 1" "m_sendTimeout c = - 1"
    "fd_flags k' = (if m_isSocket c then (fd_flags k)(fd := fd_flags k fd OR O_NONBLOCK) else fd_flags k)" "fd_stat k' = fd_stat k"
proof -
  have or: "x OR O_NONBLOCK = x" if "x AND O_NONBLOCK \<noteq> 0" for x
  proof -
    have n: "O_NONBLOCK = 2 ^ 11" by (simp add: O_NONBLOCK_def)
    have "bit x 11" using that unfolding n and_exp_eq_0_iff_not_bit by simp
    then show ?thesis unfolding n by (intro bit_eqI) (auto simp only: bit_or_iff bit_exp_iff)
  qed
  show "m_fd c = fd" "m_isSocket c \<longleftrightarrow> fd_stat k fd = Some True" "m_sysNonblock c = m_isSocket c" "\<not> m_userNonblock c" "\<not> m_isClosed c"
    "m_recvTimeout c = - 1" "m_sendTimeout c = - 1" "fd_stat k' = fd_stat k"
    using assms by (auto simp: FdCtx_new_def FdCtx_init_def Let_def split: option.splits if_splits)
  show "fd_flags k' = (if m_isSocket c then (fd_flags k)(fd := fd_flags k fd OR O_NONBLOCK) else fd_flags k)"
    using assms or by (auto simp: FdCtx_new_def FdCtx_init_def Let_def fun_eq_iff split: option.splits if_splits)
qed

lemma resize_ptrs_nth: "n \<ge> length xs \<Longrightarrow> i < n \<Longrightarrow> resize_ptrs n xs ! i = (if i < length xs then xs ! i else None)"
  by (simp add: resize_ptrs_def nth_append)

lemma length_resize_ptrs [simp]: "length (resize_ptrs n xs) = n"
  by (simp add: resize_ptrs_def)

text \<open>The table after growing it for \<open>fd\<close>.\<close>

lemma grown_table:
  assumes "64 \<le> length ds" and "0 \<le> fd" and "es = (if fd \<ge> int (length ds) then resize_ptrs (nat (fd * 3 div 2)) ds else ds)"
  shows "nat fd < length es" and "length ds \<le> length es" and "i < length es \<Longrightarrow> es ! i = (if i < length ds then ds ! i else None)"
proof -
  have "nat fd < length es \<and> length ds \<le> length es \<and> (i < length es \<longrightarrow> es ! i = (if i < length ds then ds ! i else None))"
  proof (cases "fd \<ge> int (length ds)")
    case True
    then have "int (length ds) \<le> fd * 3 div 2" "fd < fd * 3 div 2" using assms(1) by linarith+
    then have "length ds \<le> nat (fd * 3 div 2)" "nat fd < nat (fd * 3 div 2)" using assms(2) by linarith+
    then show ?thesis using True by (simp add: assms(3) resize_ptrs_nth)
  next
    case False
    then show ?thesis using assms(2) by (auto simp: assms(3))
  qed
  then show "nat fd < length es" "length ds \<le> length es" "i < length es \<Longrightarrow> es ! i = (if i < length ds then ds ! i else None)" by blast+
qed

lemma get_create_result:
  assumes ok: "table_ok d" and fd: "0 \<le> fd" and c: "FdCtx_new fd k = (k', c)"
  obtains d' where "get_create fd k d = Inr (fctx_next d, k', d')" "table_ok d'"
    "\<And>fd'. table_find d' fd' = (if fd' = fd then Some (fctx_next d) else table_find d fd')" "fctx d' = (fctx d)(fctx_next d := c)"
proof -
  define es where "es = (if fd \<ge> int (length (m_datas d)) then resize_ptrs (nat (fd * 3 div 2)) (m_datas d) else m_datas d)"
  have len: "64 \<le> length (m_datas d)" using ok by (simp add: table_ok_def)
  note g = grown_table [OF len fd es_def]
  let ?d = "d\<lparr>m_datas := es[nat fd := Some (fctx_next d)], fctx := (fctx d)(fctx_next d := c), fctx_next := Suc (fctx_next d)\<rparr>"
  have run: "get_create fd k d = Inr (fctx_next d, k', ?d)"
    using fd g(1) by (simp add: get_create_def c es_def [symmetric] Let_def)
  have old: "m_datas d ! i = Some p \<and> i < length (m_datas d)" if "i < length es" "i \<noteq> nat fd" "es[nat fd := Some (fctx_next d)] ! i = Some p" for i p
    using that g(3) [OF that(1)] by (auto split: if_splits)
  have "table_ok ?d"
    unfolding table_ok_def
  proof (intro conjI allI impI)
    show "64 \<le> length (m_datas ?d)" using len g(2) by simp
    fix i p assume i: "i < length (m_datas ?d)" "m_datas ?d ! i = Some p"
    show "p < fctx_next ?d" "m_fd (fctx ?d p) = int i" "m_sysNonblock (fctx ?d p) = m_isSocket (fctx ?d p)"
      using old [of i p] i ok FdCtx_new_fields(1,3) [OF c] fd g(1)
      by (cases "i = nat fd"; force simp: table_ok_def)+
  qed
  moreover have "table_find ?d fd' = (if fd' = fd then Some (fctx_next d) else table_find d fd')" for fd'
  proof (cases "0 \<le> fd' \<and> nat fd' < length es")
    case True
    then have "fd' = fd \<longleftrightarrow> nat fd' = nat fd" using fd by linarith
    then show ?thesis using True g(1) g(3) [of "nat fd'"] by (auto simp: table_find_def nth_list_update)
  next
    case False
    then have "fd' \<noteq> fd" using fd g(1) by auto
    then show ?thesis using False g(2) by (auto simp: table_find_def)
  qed
  ultimately show ?thesis using that [OF run] by simp
qed

lemma del_result:
  assumes ok: "table_ok d" and fd: "0 \<le> fd"
  obtains d' where "FdManager_del fd d = Inr d'" "table_ok d'" "\<And>fd'. table_find d' fd' = (if fd' = fd then None else table_find d fd')"
    "fctx d' = fctx d"
proof (cases "int (length (m_datas d)) \<le> fd")
  case True
  then show ?thesis using ok by (intro that [of d]) (auto simp: FdManager_del_def table_find_def)
next
  case False
  let ?d = "d\<lparr>m_datas := (m_datas d)[nat fd := None]\<rparr>"
  have i: "nat fd < length (m_datas d)" using False fd by simp
  have "table_ok ?d" using ok i by (auto simp: table_ok_def nth_list_update split: if_splits)
  moreover have "table_find ?d fd' = (if fd' = fd then None else table_find d fd')" for fd'
  proof (cases "0 \<le> fd'")
    case True
    then have "fd' = fd \<longleftrightarrow> nat fd' = nat fd" using fd by linarith
    then show ?thesis using True i by (auto simp: table_find_def nth_list_update)
  next
    case False
    then show ?thesis using fd by (auto simp: table_find_def)
  qed
  ultimately show ?thesis using False fd by (intro that [of ?d]) (simp_all add: FdManager_del_def)
qed

definition table_create :: "int \<Rightarrow> fd_kernel \<times> FdManager \<Rightarrow> (fctx_id \<times> fd_kernel \<times> FdManager) option" where
  "table_create fd s = (if fd < 0 then None else case get_create fd (fst s) (snd s) of Inr r \<Rightarrow> Some r | Inl _ \<Rightarrow> None)"

definition table_del :: "int \<Rightarrow> fd_kernel \<times> FdManager \<Rightarrow> (fd_kernel \<times> FdManager) option" where
  "table_del fd s = (if fd < 0 then None else case FdManager_del fd (snd s) of Inr d \<Rightarrow> Some (fst s, d) | Inl _ \<Rightarrow> None)"

interpretation fds: context_table "\<lambda>s. table_ok (snd s)" "\<lambda>s. table_find (snd s)" table_create table_del
proof
  fix t :: "fd_kernel \<times> FdManager" and fd fd' :: int and c t'
  assume ok: "table_ok (snd t)"
  obtain k d where t: "t = (k, d)" by (cases t)
  have d: "table_ok d" using ok by (simp add: t)
  obtain k' x where x: "FdCtx_new fd k = (k', x)" by (cases "FdCtx_new fd k")
  {
    assume "0 \<le> fd"
    obtain d' where "get_create fd k d = Inr (fctx_next d, k', d')" using get_create_result [OF d \<open>0 \<le> fd\<close> x] by metis
    then show "\<exists>c t'. table_create fd t = Some (c, t')" using \<open>0 \<le> fd\<close> by (simp add: table_create_def t)
    obtain d' where "FdManager_del fd d = Inr d'" using del_result [OF d \<open>0 \<le> fd\<close>] by metis
    then show "\<exists>t'. table_del fd t = Some t'" using \<open>0 \<le> fd\<close> by (simp add: table_del_def t)
  next
    assume a: "table_create fd t = Some (c, t')"
    then have fd: "0 \<le> fd" by (auto simp: table_create_def split: if_splits)
    obtain d' where "get_create fd k d = Inr (fctx_next d, k', d')" "table_ok d'"
      "\<And>fd'. table_find d' fd' = (if fd' = fd then Some (fctx_next d) else table_find d fd')"
      using get_create_result [OF d fd x] by metis
    with a fd show "table_find (snd t') fd' = (if fd' = fd then Some c else table_find (snd t) fd')" "table_ok (snd t')"
      by (auto simp: table_create_def t)
  next
    assume a: "table_del fd t = Some t'"
    then have fd: "0 \<le> fd" by (auto simp: table_del_def split: if_splits)
    obtain d' where "FdManager_del fd d = Inr d'" "table_ok d'" "\<And>fd'. table_find d' fd' = (if fd' = fd then None else table_find d fd')"
      using del_result [OF d fd] by metis
    with a fd show "table_find (snd t') fd' = (if fd' = fd then None else table_find (snd t) fd')" "table_ok (snd t')"
      by (auto simp: table_del_def t)
  }
qed

lemma FdManager_get_table:
  assumes "table_ok d" and "0 \<le> fd"
  shows "FdManager_get fd True k d = (case fds.get fd (k, d) of Some (p, k', d') \<Rightarrow> Inr (Some p, k', d') | None \<Rightarrow> Inl (Undefined ''m_datas[fd]''))"
    and "FdManager_get fd False k d = Inr (table_find d fd, k, d)"
proof -
  obtain k' x where x: "FdCtx_new fd k = (k', x)" by (cases "FdCtx_new fd k")
  from get_create_result [OF assms x] obtain d' where c: "get_create fd k d = Inr (fctx_next d, k', d')" by metis
  then have "table_create fd (k, d) = Some (fctx_next d, k', d')" using assms(2) by (simp add: table_create_def)
  then show "FdManager_get fd True k d = (case fds.get fd (k, d) of Some (p, k', d') \<Rightarrow> Inr (Some p, k', d') | None \<Rightarrow> Inl (Undefined ''m_datas[fd]''))"
    using assms c by (auto simp: FdManager_get_def get_lookup_def fds.get_def table_find_def Let_def split: option.split)
  show "FdManager_get fd False k d = Inr (table_find d fd, k, d)"
    using assms by (auto simp: FdManager_get_def get_lookup_def table_find_def Let_def)
qed

lemma table_ok_new: "table_ok FdManager_new"
  by (simp add: table_ok_def FdManager_new_def)

section \<open>Properties\<close>

text \<open>
  C25: The descriptor table behaves as a map with creation on demand. For every non-negative
  descriptor \<^verbatim>\<open>get\<close> with creation succeeds; a second \<^verbatim>\<open>get\<close> finds the same context; the
  context belongs to the descriptor, and the runtime regards it as non-blocking exactly if it
  is a socket; \<^verbatim>\<open>del\<close> removes it; no operation disturbs another descriptor, also when the
  table has to grow.
\<close>

theorem fd_table_refines:
  assumes "table_ok d" and "0 \<le> fd"
  shows "\<exists>p k' d'. FdManager_get fd True k d = Inr (Some p, k', d') \<and> table_ok d' \<and>
    FdManager_get fd True k' d' = Inr (Some p, k', d') \<and> FdManager_get fd False k' d' = Inr (Some p, k', d') \<and>
    m_fd (fctx d' p) = fd \<and> m_sysNonblock (fctx d' p) = m_isSocket (fctx d' p) \<and>
    (\<forall>fd'. 0 \<le> fd' \<and> fd' \<noteq> fd \<longrightarrow> FdManager_get fd' False k' d' = Inr (table_find d fd', k', d')) \<and>
    (\<exists>d''. FdManager_del fd d' = Inr d'' \<and> table_ok d'' \<and> FdManager_get fd False k' d'' = Inr (None, k', d'') \<and>
       (\<forall>fd'. 0 \<le> fd' \<and> fd' \<noteq> fd \<longrightarrow> FdManager_get fd' False k' d'' = Inr (table_find d fd', k', d'')))"
proof -
  obtain p k' d' where g: "fds.get fd (k, d) = Some (p, k', d')"
    using fds.create_total [of "(k, d)" fd] assms by (cases "table_find d fd") (auto simp: fds.get_def)
  note i = fds.get_idempotent [OF _ g]
  have ok: "table_ok d'" and f: "table_find d' fd = Some p" and g2: "fds.get fd (k', d') = Some (p, k', d')"
    and o: "\<And>fd'. fd' \<noteq> fd \<Longrightarrow> table_find d' fd' = table_find d fd'" using i assms by auto
  have "m_fd (fctx d' p) = fd \<and> m_sysNonblock (fctx d' p) = m_isSocket (fctx d' p)"
    using ok f assms(2) by (auto simp: table_ok_def table_find_def split: if_splits)
  moreover from del_result [OF ok assms(2)] obtain d'' where
    "FdManager_del fd d' = Inr d''" "table_ok d''" "\<And>fd'. table_find d'' fd' = (if fd' = fd then None else table_find d' fd')" by metis
  ultimately show ?thesis
    using FdManager_get_table [OF assms, of k] FdManager_get_table [OF ok assms(2), of k'] g g2 f ok o
      FdManager_get_table(2) [OF ok] FdManager_get_table(2) [OF \<open>table_ok d''\<close>] assms(2)
    by (intro exI [of _ p] exI [of _ k'] exI [of _ d']) auto
qed

theorem fd_table_refines_witness:
  "table_ok FdManager_new \<and>
   (\<exists>p k' d'. FdManager_get 100 True \<lparr>fd_stat = (\<lambda>_. Some True), fd_flags = (\<lambda>_. 0)\<rparr> FdManager_new = Inr (Some p, k', d') \<and> m_fd (fctx d' p) = 100)"
  using fd_table_refines [OF table_ok_new, of 100 "\<lparr>fd_stat = (\<lambda>_. Some True), fd_flags = (\<lambda>_. 0)\<rparr>"] table_ok_new by auto

end
