(* ===== verification/IOManager.thy ===== *)
theory IOManager
  imports Scheduler Timer
begin

text \<open>
  Model of \<^verbatim>\<open>iomanager.hpp\<close> and \<^verbatim>\<open>iomanager.cpp\<close>: the contexts of descriptors with their
  registered events, registration, deletion and cancellation, the handling of ready events and
  of expired timers in the idle loop, the condition to stop, and the pool of blocking threads
  with \<^verbatim>\<open>asyncBlocking\<close>. The answer of each \<^verbatim>\<open>epoll_ctl\<close> is an argument; the interest list of
  the kernel is updated by the calls that succeed. Each definition is one critical section or
  the code between two of them.
\<close>

section \<open>Events and contexts\<close>

type_synonym Event = u32

definition NONE :: Event where "NONE = 0"
definition READ :: Event where "READ = 1"
definition WRITE :: Event where "WRITE = 4"

definition EPOLLIN :: u32 where "EPOLLIN = 1"
definition EPOLLOUT :: u32 where "EPOLLOUT = 4"
definition EPOLLERR :: u32 where "EPOLLERR = 8"
definition EPOLLHUP :: u32 where "EPOLLHUP = 16"
definition EPOLLET :: u32 where "EPOLLET = 0x80000000"

lemmas event_defs = NONE_def READ_def WRITE_def EPOLLIN_def EPOLLOUT_def EPOLLERR_def EPOLLHUP_def EPOLLET_def

record EventContext =
  ec_scheduler :: "nat option"
  ec_fiber :: "fid option"
  ec_cb :: "callback option"
  ec_thread :: int

definition EventContext_new :: EventContext where
  "EventContext_new = \<lparr>ec_scheduler = None, ec_fiber = None, ec_cb = None, ec_thread = - 1\<rparr>"

record FdContext =
  fc_read :: EventContext
  fc_write :: EventContext
  fc_fd :: nat
  fc_events :: Event

definition FdContext_new :: "nat \<Rightarrow> FdContext" where
  "FdContext_new fd = \<lparr>fc_read = EventContext_new, fc_write = EventContext_new, fc_fd = fd, fc_events = NONE\<rparr>"

definition getEveContext :: "Event \<Rightarrow> FdContext \<Rightarrow> EventContext result" where
  "getEveContext event c =
     (if event = READ then Inr (fc_read c)
      else if event = WRITE then Inr (fc_write c)
      else Inl (Panic ''getContext error: unknow event''))"

definition putEveContext :: "Event \<Rightarrow> EventContext \<Rightarrow> FdContext \<Rightarrow> FdContext" where
  "putEveContext event x c = (if event = READ then c\<lparr>fc_read := x\<rparr> else c\<lparr>fc_write := x\<rparr>)"

definition resetEveContext :: "EventContext \<Rightarrow> EventContext" where
  "resetEveContext x = x\<lparr>ec_scheduler := None, ec_fiber := None, ec_cb := None, ec_thread := - 1\<rparr>"

text \<open>A call of \<^verbatim>\<open>Scheduler::scheduler\<close>: the scheduler, the callback or Fiber, the thread.\<close>

datatype io_task = RunCb callback | RunFiber "fid option"

type_synonym submission = "nat \<times> io_task \<times> int"

definition triggerEvent :: "Event \<Rightarrow> FdContext \<Rightarrow> (submission \<times> FdContext) result" where
  "triggerEvent event c =
     bind_res (CondPanic (fc_events c AND event \<noteq> 0) ''event hasn't been registed'') (\<lambda>_.
       let c = c\<lparr>fc_events := fc_events c AND NOT event\<rparr> in
       bind_res (getEveContext event c) (\<lambda>x.
         case ec_scheduler x of
           None \<Rightarrow> Inl (Undefined ''null scheduler'')
         | Some s \<Rightarrow>
             Inr ((s, case ec_cb x of Some cb \<Rightarrow> RunCb cb | None \<Rightarrow> RunFiber (ec_fiber x), ec_thread x),
                  putEveContext event (resetEveContext x) c)))"

section \<open>The manager\<close>

text \<open>
  The vector of contexts, the contexts by address, the interest list of the kernel, the
  counters, and the submissions made, in order.
\<close>

type_synonym ctx_id = nat

record IOManager =
  fdContexts :: "ctx_id list"
  ctx_of :: "ctx_id \<Rightarrow> FdContext"
  ctx_next :: ctx_id
  interest :: "nat \<Rightarrow> (u32 \<times> ctx_id) option"
  pendingEventCnt :: u64
  pendingBlockingTasks :: u64
  io_submitted :: "submission list"

definition upd_ctx :: "ctx_id \<Rightarrow> FdContext \<Rightarrow> IOManager \<Rightarrow> IOManager" where
  "upd_ctx p c m = m\<lparr>ctx_of := (ctx_of m)(p := c)\<rparr>"

definition contextResize :: "nat \<Rightarrow> IOManager \<Rightarrow> IOManager" where
  "contextResize sz m =
     (let old = take sz (fdContexts m);
          k = ctx_next m;
          n = sz - length old in
      m\<lparr>fdContexts := old @ [k..<k + n],
        ctx_of := (\<lambda>p. if k \<le> p \<and> p < k + n then FdContext_new (length old + (p - k)) else ctx_of m p),
        ctx_next := k + n\<rparr>)"

definition IOManager_new :: IOManager where
  "IOManager_new =
     contextResize 32 \<lparr>fdContexts = [], ctx_of = (\<lambda>_. FdContext_new 0), ctx_next = 0, interest = Map.empty,
       pendingEventCnt = 0, pendingBlockingTasks = 0, io_submitted = []\<rparr>"

section \<open>Registration\<close>

text \<open>
  Who calls: its scheduler, its thread, its Fiber and whether that Fiber is running.
\<close>

record io_caller =
  io_scheduler :: "nat option"
  io_thread :: int
  io_fiber :: fid
  io_running :: bool

text \<open>The look-up under the read lock; \<open>None\<close> goes on to the write lock.\<close>

definition addEvent_lookup :: "int \<Rightarrow> IOManager \<Rightarrow> ctx_id option result" where
  "addEvent_lookup fd m =
     (if int (length (fdContexts m)) > fd
      then if fd < 0 then Inl (Undefined ''fdContexts_[fd]'') else Inr (Some (fdContexts m ! nat fd))
      else Inr None)"

definition addEvent_grow :: "int \<Rightarrow> IOManager \<Rightarrow> (ctx_id \<times> IOManager) result" where
  "addEvent_grow fd m =
     (let m = contextResize (nat (fd * 3 div 2)) m in
      if 0 \<le> fd \<and> nat fd < length (fdContexts m) then Inr (fdContexts m ! nat fd, m)
      else Inl (Undefined ''fdContexts_[fd]''))"

datatype epoll_op = EPOLL_CTL_ADD | EPOLL_CTL_MOD | EPOLL_CTL_DEL

definition epoll_ctl :: "epoll_op \<Rightarrow> nat \<Rightarrow> u32 \<Rightarrow> ctx_id \<Rightarrow> IOManager \<Rightarrow> IOManager" where
  "epoll_ctl op fd ev p m =
     m\<lparr>interest := (interest m)(fd := (case op of EPOLL_CTL_DEL \<Rightarrow> None | _ \<Rightarrow> Some (ev, p)))\<rparr>"

text \<open>The rest of \<^verbatim>\<open>addEvent\<close>, under the lock of the context.\<close>

definition addEvent_register ::
  "bool \<Rightarrow> io_caller \<Rightarrow> ctx_id \<Rightarrow> int \<Rightarrow> Event \<Rightarrow> callback option \<Rightarrow> IOManager \<Rightarrow> (int \<times> IOManager) result" where
  "addEvent_register ep_ok cl p fd event cb m =
     (let c = ctx_of m p in
      bind_res (CondPanic (fc_events c AND event = 0) ''event is already registered for fd'') (\<lambda>_.
        let op = (if fc_events c \<noteq> 0 then EPOLL_CTL_MOD else EPOLL_CTL_ADD) in
        if \<not> ep_ok then Inr (- 1, m)
        else
          (let m = epoll_ctl op (nat fd) (EPOLLET OR fc_events c OR event) p m;
               m = m\<lparr>pendingEventCnt := pendingEventCnt m + 1\<rparr>;
               c = c\<lparr>fc_events := fc_events c OR event\<rparr> in
           bind_res (getEveContext event c) (\<lambda>x.
             bind_res (CondPanic (ec_scheduler x = None \<and> ec_fiber x = None \<and> ec_cb x = None) ''event_ctx is nullptr'') (\<lambda>_.
               let x = x\<lparr>ec_scheduler := io_scheduler cl, ec_thread := io_thread cl\<rparr> in
               case cb of
                 Some f \<Rightarrow> Inr (0, upd_ctx p (putEveContext event (x\<lparr>ec_cb := Some f\<rparr>) c) m)
               | None \<Rightarrow>
                   bind_res (CondPanic (io_running cl) ''I/O waiter Fiber is not running'') (\<lambda>_.
                     Inr (0, upd_ctx p (putEveContext event (x\<lparr>ec_fiber := Some (io_fiber cl)\<rparr>) c) m)))))))"

definition addEvent ::
  "bool \<Rightarrow> io_caller \<Rightarrow> int \<Rightarrow> Event \<Rightarrow> callback option \<Rightarrow> IOManager \<Rightarrow> (int \<times> IOManager) result" where
  "addEvent ep_ok cl fd event cb m =
     bind_res (addEvent_lookup fd m) (\<lambda>r.
       case r of
         Some p \<Rightarrow> addEvent_register ep_ok cl p fd event cb m
       | None \<Rightarrow> bind_res (addEvent_grow fd m) (\<lambda>(p, m). addEvent_register ep_ok cl p fd event cb m))"

text \<open>The look-up the other operations begin with: \<open>None\<close> is the return of \<^verbatim>\<open>false\<close>.\<close>

definition find_ctx :: "int \<Rightarrow> IOManager \<Rightarrow> ctx_id option result" where
  "find_ctx fd m =
     (if int (length (fdContexts m)) \<le> fd then Inr None
      else if fd < 0 then Inl (Undefined ''fdContexts_[fd]'')
      else Inr (Some (fdContexts m ! nat fd)))"

text \<open>
  \<^verbatim>\<open>delEvent\<close>, \<^verbatim>\<open>cancelEvent\<close> and \<^verbatim>\<open>cancelAll\<close>: what each does under the lock of the
  context, then the whole operation.
\<close>

definition delEvent_at :: "bool \<Rightarrow> ctx_id \<Rightarrow> int \<Rightarrow> Event \<Rightarrow> IOManager \<Rightarrow> (bool \<times> IOManager) result" where
  "delEvent_at ep_ok p fd event m =
     (let c = ctx_of m p in
      if fc_events c AND event = 0 then Inr (False, m)
      else
        (let new_events = fc_events c AND NOT event;
             op = (if new_events \<noteq> 0 then EPOLL_CTL_MOD else EPOLL_CTL_DEL) in
         if \<not> ep_ok then Inr (False, m)
         else
           (let m = epoll_ctl op (nat fd) (EPOLLET OR new_events) p m;
                m = m\<lparr>pendingEventCnt := pendingEventCnt m - 1\<rparr>;
                c = c\<lparr>fc_events := new_events\<rparr> in
            bind_res (getEveContext event c) (\<lambda>x.
              Inr (True, upd_ctx p (putEveContext event (resetEveContext x) c) m)))))"

definition delEvent :: "bool \<Rightarrow> int \<Rightarrow> Event \<Rightarrow> IOManager \<Rightarrow> (bool \<times> IOManager) result" where
  "delEvent ep_ok fd event m =
     bind_res (find_ctx fd m) (\<lambda>r.
       case r of None \<Rightarrow> Inr (False, m) | Some p \<Rightarrow> delEvent_at ep_ok p fd event m)"

text \<open>\<^verbatim>\<open>triggerEvent\<close> on a context of the manager, and the decrement that follows it.\<close>

definition trigger :: "ctx_id \<Rightarrow> Event \<Rightarrow> IOManager \<Rightarrow> IOManager result" where
  "trigger p event m =
     bind_res (triggerEvent event (ctx_of m p)) (\<lambda>(s, c).
       Inr ((upd_ctx p c m)\<lparr>io_submitted := io_submitted m @ [s], pendingEventCnt := pendingEventCnt m - 1\<rparr>))"

definition cancelEvent_at :: "bool \<Rightarrow> ctx_id \<Rightarrow> int \<Rightarrow> Event \<Rightarrow> IOManager \<Rightarrow> (bool \<times> IOManager) result" where
  "cancelEvent_at ep_ok p fd event m =
     (let c = ctx_of m p in
      if fc_events c AND event = 0 then Inr (False, m)
      else
        (let new_events = fc_events c AND NOT event;
             op = (if new_events \<noteq> 0 then EPOLL_CTL_MOD else EPOLL_CTL_DEL) in
         if \<not> ep_ok then Inr (False, m)
         else
           bind_res (trigger p event (epoll_ctl op (nat fd) (EPOLLET OR new_events) p m)) (\<lambda>m.
             Inr (True, m))))"

definition cancelEvent :: "bool \<Rightarrow> int \<Rightarrow> Event \<Rightarrow> IOManager \<Rightarrow> (bool \<times> IOManager) result" where
  "cancelEvent ep_ok fd event m =
     bind_res (find_ctx fd m) (\<lambda>r.
       case r of None \<Rightarrow> Inr (False, m) | Some p \<Rightarrow> cancelEvent_at ep_ok p fd event m)"

definition trigger_if :: "bool \<Rightarrow> ctx_id \<Rightarrow> Event \<Rightarrow> IOManager \<Rightarrow> IOManager result" where
  "trigger_if b p event m = (if b then trigger p event m else Inr m)"

definition cancelAll_at :: "bool \<Rightarrow> ctx_id \<Rightarrow> int \<Rightarrow> IOManager \<Rightarrow> (bool \<times> IOManager) result" where
  "cancelAll_at ep_ok p fd m =
     (if fc_events (ctx_of m p) = 0 then Inr (False, m)
      else if \<not> ep_ok then Inr (False, m)
      else
        (let m = epoll_ctl EPOLL_CTL_DEL (nat fd) 0 p m in
         bind_res (trigger_if (fc_events (ctx_of m p) AND READ \<noteq> 0) p READ m) (\<lambda>m.
           bind_res (trigger_if (fc_events (ctx_of m p) AND WRITE \<noteq> 0) p WRITE m) (\<lambda>m.
             bind_res (CondPanic (fc_events (ctx_of m p) = 0) ''fd not totally clear'') (\<lambda>_. Inr (True, m))))))"

definition cancelAll :: "bool \<Rightarrow> int \<Rightarrow> IOManager \<Rightarrow> (bool \<times> IOManager) result" where
  "cancelAll ep_ok fd m =
     bind_res (find_ctx fd m) (\<lambda>r.
       case r of None \<Rightarrow> Inr (False, m) | Some p \<Rightarrow> cancelAll_at ep_ok p fd m)"

section \<open>The idle loop\<close>

text \<open>One entry of the result of \<^verbatim>\<open>epoll_wait\<close> that is not the tickle pipe.\<close>

definition real_events :: "u32 \<Rightarrow> FdContext \<Rightarrow> u32" where
  "real_events ev c =
     (let ev = (if ev AND (EPOLLERR OR EPOLLHUP) \<noteq> 0 then ev OR ((EPOLLIN OR EPOLLOUT) AND fc_events c) else ev) in
      (if ev AND EPOLLIN \<noteq> 0 then READ else NONE) OR (if ev AND EPOLLOUT \<noteq> 0 then WRITE else NONE))"

definition handle_ready :: "bool \<Rightarrow> u32 \<Rightarrow> ctx_id \<Rightarrow> IOManager \<Rightarrow> IOManager result" where
  "handle_ready ep_ok ev p m =
     (let c = ctx_of m p;
          real = real_events ev c in
      if fc_events c AND real = NONE then Inr m
      else
        (let left_events = fc_events c AND NOT real;
             op = (if left_events \<noteq> 0 then EPOLL_CTL_MOD else EPOLL_CTL_DEL) in
         if \<not> ep_ok then Inr m
         else
           (let m = epoll_ctl op (fc_fd c) (EPOLLET OR left_events) p m in
            bind_res (trigger_if (real AND READ \<noteq> 0) p READ m) (\<lambda>m.
              trigger_if (real AND WRITE \<noteq> 0) p WRITE m))))"

text \<open>
  The time to wait, a 64-bit word, and the milliseconds \<^verbatim>\<open>epoll_wait\<close> is called with:
  \<open>(int)next_timeout\<close> is the low half of the word read as a signed number.
\<close>

definition low_int :: "u64 \<Rightarrow> int" where
  "low_int w = sint (ucast w :: u32)"

definition clamp_timeout :: "u64 \<Rightarrow> u64" where
  "clamp_timeout next_timeout =
     (if next_timeout \<noteq> - 1 then word_of_int (min (low_int next_timeout) 5000) else 5000)"

text \<open>
  The loop around \<^verbatim>\<open>epoll_wait\<close> over the results and error numbers of its calls; the
  milliseconds of each call are collected. \<open>None\<close>: the last call has not returned.
\<close>

fun idle_wait :: "(int \<times> errno) list \<Rightarrow> u64 \<Rightarrow> int list \<times> int option" where
  "idle_wait [] next_timeout = ([low_int (clamp_timeout next_timeout)], None)"
| "idle_wait ((ret, err) # rs) next_timeout =
     (let next_timeout = clamp_timeout next_timeout in
      if ret < 0 \<and> err = EINTR
      then (let (ms, r) = idle_wait rs next_timeout in (low_int next_timeout # ms, r))
      else ([low_int next_timeout], Some ret))"

text \<open>The callbacks of the expired timers are submitted without a thread.\<close>

definition idle_timers ::
  "clock \<Rightarrow> nat \<Rightarrow> TimerManager \<Rightarrow> IOManager \<Rightarrow> (TimerManager \<times> IOManager) result option" where
  "idle_timers clk self tm m =
     map_option (\<lambda>r. bind_res r (\<lambda>(cbs, tm).
       Inr (tm, m\<lparr>io_submitted := io_submitted m @ map (\<lambda>cb. (self, RunCb cb, - 1)) cbs\<rparr>))) (listExpiredCb clk [] tm)"

text \<open>The entries of one \<^verbatim>\<open>epoll_wait\<close>, with the answer of the \<^verbatim>\<open>epoll_ctl\<close> each may lead to.\<close>

datatype epoll_entry = Tickled | Ready u32 ctx_id bool

fun idle_events :: "epoll_entry list \<Rightarrow> IOManager \<Rightarrow> IOManager result" where
  "idle_events [] m = Inr m"
| "idle_events (Tickled # es) m = idle_events es m"
| "idle_events (Ready ev p ep_ok # es) m = bind_res (handle_ready ep_ok ev p m) (\<lambda>m. idle_events es m)"

definition io_stopping :: "clock \<Rightarrow> Scheduler \<Rightarrow> TimerManager \<Rightarrow> IOManager \<Rightarrow> bool \<times> u64 \<times> TimerManager" where
  "io_stopping clk s tm m =
     (let (timeout, tm) = getNextTimer clk tm in
      (timeout = - 1 \<and> pendingEventCnt m = 0 \<and> pendingBlockingTasks m = 0 \<and> stopping s, timeout, tm))"

text \<open>
  One round of \<^verbatim>\<open>idle\<close> after \<^verbatim>\<open>epoll_wait\<close>, up to the \<^verbatim>\<open>yield\<close>: the worker becomes active, expired
  timers and ready events are submitted, and the worker becomes idle again.
\<close>

definition idle_round ::
  "clock \<Rightarrow> sched_locals \<Rightarrow> nat \<Rightarrow> epoll_entry list \<Rightarrow> Scheduler \<Rightarrow> TimerManager \<Rightarrow> IOManager \<Rightarrow>
   (Scheduler \<times> TimerManager \<times> IOManager) result option" where
  "idle_round clk l self es s tm m =
     (case setCurrentWorkerActive l True s of
        Inl e \<Rightarrow> Some (Inl e)
      | Inr s \<Rightarrow>
          map_option (\<lambda>r. bind_res r (\<lambda>(tm, m).
            bind_res (idle_events es m) (\<lambda>m.
              bind_res (setCurrentWorkerActive l False s) (\<lambda>s. Inr (s, tm, m))))) (idle_timers clk self tm m))"

text \<open>\<^verbatim>\<open>tickle\<close> writes to the pipe if a worker is idle; \<open>rt\<close> is the result of \<^verbatim>\<open>write\<close>.\<close>

definition io_tickle :: "bool \<Rightarrow> int \<Rightarrow> bool result" where
  "io_tickle has_idle rt =
     (if \<not> has_idle then Inr False
      else bind_res (CondPanic (rt = 1) ''write pipe error'') (\<lambda>_. Inr True))"

definition OnTimerInsertedAtFront :: "bool \<Rightarrow> int \<Rightarrow> bool result" where
  "OnTimerInsertedAtFront has_idle rt = io_tickle has_idle rt"

section \<open>Blocking tasks\<close>

record BlockingThreadPool =
  pool_workers :: nat
  pool_tasks :: "callback list"
  pool_stop :: bool

definition BlockingThreadPool_new :: "nat \<Rightarrow> BlockingThreadPool" where
  "BlockingThreadPool_new threads =
     \<lparr>pool_workers = (if threads = 0 then 1 else threads), pool_tasks = [], pool_stop = False\<rparr>"

definition pool_submit :: "callback \<Rightarrow> BlockingThreadPool \<Rightarrow> BlockingThreadPool" where
  "pool_submit task b = (if pool_stop b then b else b\<lparr>pool_tasks := pool_tasks b @ [task]\<rparr>)"

text \<open>A worker of the pool: it waits, ends, or takes the first task.\<close>

datatype pool_action = Pool_wait | Pool_end | Pool_run callback

definition pool_take :: "BlockingThreadPool \<Rightarrow> pool_action \<times> BlockingThreadPool" where
  "pool_take b =
     (if \<not> (pool_stop b \<or> pool_tasks b \<noteq> []) then (Pool_wait, b)
      else if pool_stop b \<and> pool_tasks b = [] then (Pool_end, b)
      else (Pool_run (hd (pool_tasks b)), b\<lparr>pool_tasks := tl (pool_tasks b)\<rparr>))"

text \<open>\<^verbatim>\<open>stop\<close> up to the joins, which wait for the workers to end.\<close>

definition pool_halt :: "BlockingThreadPool \<Rightarrow> BlockingThreadPool" where
  "pool_halt b = (if pool_stop b then b else b\<lparr>pool_stop := True\<rparr>)"

text \<open>\<^verbatim>\<open>submitBlocking\<close>: the pool takes the task, or the caller runs it (\<open>Some\<close>).\<close>

definition submitBlocking :: "callback \<Rightarrow> BlockingThreadPool option \<Rightarrow> callback option \<times> BlockingThreadPool option" where
  "submitBlocking task b =
     (case b of Some b \<Rightarrow> (None, Some (pool_submit task b)) | None \<Rightarrow> (Some task, None))"

text \<open>
  \<^verbatim>\<open>asyncBlocking\<close>: outside a Fiber the function runs in place (\<open>None\<close>). Otherwise: what
  the Fiber does before the \<^verbatim>\<open>yield\<close>, what the pool thread does with the result or the
  exception of the function and then with the counter, and what the resumed Fiber does.
\<close>

record 'r async_state =
  as_result :: 'r
  as_errno :: errno
  as_ex :: "exn option"

definition async_begin ::
  "u64 \<Rightarrow> callback \<Rightarrow> 'r \<Rightarrow> BlockingThreadPool \<Rightarrow> IOManager \<Rightarrow>
   ('r async_state \<times> BlockingThreadPool \<times> IOManager) option" where
  "async_begin cur_id task r0 b m =
     (if cur_id = 0 then None
      else Some (\<lparr>as_result = r0, as_errno = 0, as_ex = None\<rparr>, pool_submit task b,
                 m\<lparr>pendingBlockingTasks := pendingBlockingTasks m + 1\<rparr>))"

definition async_run ::
  "exn + 'r \<Rightarrow> errno \<Rightarrow> nat \<Rightarrow> fid \<Rightarrow> int \<Rightarrow> 'r async_state \<Rightarrow> IOManager \<Rightarrow> 'r async_state \<times> IOManager" where
  "async_run outcome err self cur thread_id st m =
     (case outcome of
        Inl ex \<Rightarrow> st\<lparr>as_ex := Some ex\<rparr>
      | Inr r \<Rightarrow> st\<lparr>as_result := r, as_errno := err\<rparr>,
      m\<lparr>io_submitted := io_submitted m @ [(self, RunFiber (Some cur), thread_id)]\<rparr>)"

definition async_release :: "IOManager \<Rightarrow> IOManager" where
  "async_release m = m\<lparr>pendingBlockingTasks := pendingBlockingTasks m - 1\<rparr>"

definition async_end :: "'r async_state \<Rightarrow> exn + ('r \<times> errno)" where
  "async_end st = (case as_ex st of Some ex \<Rightarrow> Inl ex | None \<Rightarrow> Inr (as_result st, as_errno st))"

end
