(* ===== verification/IOManager_Safety.thy ===== *)
theory IOManager_Safety
  imports IOManager
begin

text \<open>
  The I/O manager as a transition system over its critical sections: the accounting of
  waiters, the agreement with the interest list of the kernel, and what the idle loop, the
  condition to stop and the pool of blocking threads promise.
\<close>

section \<open>Waiters\<close>

text \<open>
  What a registered event waits to submit, the waiters of a context and of the manager.
\<close>

type_synonym wtask = "nat option \<times> io_task \<times> int"

definition waiter :: "EventContext \<Rightarrow> wtask" where
  "waiter x = (ec_scheduler x, case ec_cb x of Some cb \<Rightarrow> RunCb cb | None \<Rightarrow> RunFiber (ec_fiber x), ec_thread x)"

definition tag :: "submission \<Rightarrow> wtask" where
  "tag s = (Some (fst s), snd s)"

definition ctx_waiters :: "FdContext \<Rightarrow> wtask multiset" where
  "ctx_waiters c =
     (if fc_events c AND READ \<noteq> 0 then {#waiter (fc_read c)#} else {#}) +
     (if fc_events c AND WRITE \<noteq> 0 then {#waiter (fc_write c)#} else {#})"

definition waiting :: "IOManager \<Rightarrow> wtask multiset" where
  "waiting m = (\<Sum>p<ctx_next m. ctx_waiters (ctx_of m p))"

definition slot_ok :: "bool \<Rightarrow> EventContext \<Rightarrow> bool" where
  "slot_ok b x \<longleftrightarrow> (if b then (ec_fiber x = None) \<noteq> (ec_cb x = None) else x = EventContext_new)"

definition ctx_ok :: "FdContext \<Rightarrow> bool" where
  "ctx_ok c \<longleftrightarrow> fc_events c \<in> {0, 1, 4, 5} \<and>
     slot_ok (fc_events c AND READ \<noteq> 0) (fc_read c) \<and> slot_ok (fc_events c AND WRITE \<noteq> 0) (fc_write c)"

definition slot :: "Event \<Rightarrow> FdContext \<Rightarrow> EventContext" where
  "slot e c = (if e = READ then fc_read c else fc_write c)"

definition cleared :: "Event \<Rightarrow> FdContext \<Rightarrow> FdContext" where
  "cleared e c = putEveContext e EventContext_new (c\<lparr>fc_events := fc_events c AND NOT e\<rparr>)"

lemma resetEveContext_new [simp]: "resetEveContext x = EventContext_new"
  by (simp add: resetEveContext_def EventContext_new_def)

lemma getEveContext_Inr:
  "getEveContext e c = Inr x \<longleftrightarrow> e \<in> {READ, WRITE} \<and> x = slot e c"
  by (auto simp: getEveContext_def slot_def event_defs)

lemma slot_events [simp]: "slot e (c\<lparr>fc_events := v\<rparr>) = slot e c"
  by (simp add: slot_def)

lemma cleared_fd [simp]: "fc_fd (cleared e c) = fc_fd c"
  by (simp add: cleared_def putEveContext_def)

lemma cleared_events [simp]: "fc_events (cleared e c) = fc_events c AND NOT e"
  by (simp add: cleared_def putEveContext_def)

lemma ctx_ok_cleared: "ctx_ok c \<Longrightarrow> e \<in> {READ, WRITE} \<Longrightarrow> ctx_ok (cleared e c)"
  by (auto simp: ctx_ok_def slot_ok_def cleared_def putEveContext_def event_defs)

lemma ctx_waiters_cleared:
  "ctx_ok c \<Longrightarrow> e \<in> {READ, WRITE} \<Longrightarrow> fc_events c AND e \<noteq> 0 \<Longrightarrow>
   ctx_waiters c = add_mset (waiter (slot e c)) (ctx_waiters (cleared e c))"
  by (auto simp: ctx_ok_def slot_def ctx_waiters_def cleared_def putEveContext_def event_defs)

lemma FdContext_new_ok [simp]: "ctx_ok (FdContext_new fd)" "ctx_waiters (FdContext_new fd) = {#}"
    "fc_events (FdContext_new fd) = 0" "fc_fd (FdContext_new fd) = fd"
  by (simp_all add: ctx_ok_def slot_ok_def FdContext_new_def event_defs ctx_waiters_def)

lemma upd_ctx_fields [simp]: "ctx_of (upd_ctx p c m) = (ctx_of m)(p := c)" "ctx_next (upd_ctx p c m) = ctx_next m"
    "fdContexts (upd_ctx p c m) = fdContexts m" "interest (upd_ctx p c m) = interest m"
    "pendingEventCnt (upd_ctx p c m) = pendingEventCnt m" "io_submitted (upd_ctx p c m) = io_submitted m"
  by (simp_all add: upd_ctx_def)

lemma epoll_ctl_fields [simp]: "ctx_of (epoll_ctl op fd ev p m) = ctx_of m" "ctx_next (epoll_ctl op fd ev p m) = ctx_next m"
    "fdContexts (epoll_ctl op fd ev p m) = fdContexts m"
    "pendingEventCnt (epoll_ctl op fd ev p m) = pendingEventCnt m" "io_submitted (epoll_ctl op fd ev p m) = io_submitted m"
  by (simp_all add: epoll_ctl_def)

text \<open>The waiters after the context \<open>p\<close> changes.\<close>

lemma waiting_upd:
  assumes "p < ctx_next m" and "ctx_of m' = (ctx_of m)(p := c)" and "ctx_next m' = ctx_next m"
  shows "waiting m' + ctx_waiters (ctx_of m p) = waiting m + ctx_waiters c"
proof -
  have *: "(\<Sum>q<ctx_next m. ctx_waiters (f q)) = ctx_waiters (f p) + (\<Sum>q\<in>{..<ctx_next m} - {p}. ctx_waiters (f q))" for f
    using assms(1) by (simp add: sum.remove)
  have "(\<Sum>q\<in>{..<ctx_next m} - {p}. ctx_waiters (((ctx_of m)(p := c)) q)) = (\<Sum>q\<in>{..<ctx_next m} - {p}. ctx_waiters (ctx_of m q))"
    by (rule sum.cong) auto
  then show ?thesis
    using * [of "ctx_of m"] * [of "(ctx_of m)(p := c)"] assms(2,3) by (simp add: waiting_def)
qed

lemma sum_lessThan_add: "(\<Sum>p<k + n. f p) = (\<Sum>p<k. f p) + (\<Sum>p\<in>{k..<k + n}. f p)" for f :: "nat \<Rightarrow> 'a::comm_monoid_add"
  using sum.atLeastLessThan_concat [of 0 k "k + n" f] by (simp add: lessThan_atLeast0)

lemma waiting_contextResize [simp]: "waiting (contextResize sz m) = waiting m"
proof -
  have "(\<Sum>p<ctx_next m. ctx_waiters (ctx_of (contextResize sz m) p)) = waiting m"
    unfolding waiting_def by (rule sum.cong) (auto simp: contextResize_def Let_def)
  moreover have "(\<Sum>p\<in>{ctx_next m..<ctx_next m + n}. ctx_waiters (ctx_of (contextResize sz m) p)) = {#}"
    if "n = sz - length (take sz (fdContexts m))" for n
    using that by (intro sum.neutral) (auto simp: contextResize_def Let_def)
  ultimately show ?thesis
    unfolding waiting_def by (simp add: contextResize_def Let_def sum_lessThan_add del: length_take)
qed

section \<open>Triggers\<close>

fun triggers :: "ctx_id \<Rightarrow> Event list \<Rightarrow> IOManager \<Rightarrow> IOManager result" where
  "triggers p [] m = Inr m"
| "triggers p (e # es) m = bind_res (trigger p e m) (\<lambda>m. triggers p es m)"

lemma trigger_result:
  assumes "trigger p e m = Inr m'"
  obtains s where "e \<in> {READ, WRITE}" and "fc_events (ctx_of m p) AND e \<noteq> 0" and "tag s = waiter (slot e (ctx_of m p))"
    and "m' = m\<lparr>ctx_of := (ctx_of m)(p := cleared e (ctx_of m p)), io_submitted := io_submitted m @ [s],
      pendingEventCnt := pendingEventCnt m - 1\<rparr>"
  using assms
  by (auto simp: trigger_def triggerEvent_def Let_def bind_res_Inr_iff getEveContext_Inr tag_def waiter_def cleared_def upd_ctx_def
      split: option.splits)

text \<open>A run of triggers on one context submits its waiters, one each.\<close>

lemma triggers_result:
  assumes "triggers p es m = Inr m'" and "ctx_ok (ctx_of m p)"
  shows "\<exists>c ss. m' = m\<lparr>ctx_of := (ctx_of m)(p := c), io_submitted := io_submitted m @ ss,
      pendingEventCnt := pendingEventCnt m - of_nat (length ss)\<rparr> \<and> ctx_ok c \<and> fc_fd c = fc_fd (ctx_of m p) \<and>
      ctx_waiters (ctx_of m p) = ctx_waiters c + mset (map tag ss) \<and>
      fc_events c = fold (\<lambda>e v. v AND NOT e) es (fc_events (ctx_of m p)) \<and> length ss = length es"
  using assms
proof (induction p es m rule: triggers.induct)
  case (1 p m)
  then show ?case by (intro exI [of _ "ctx_of m p"] exI [of _ "[]"]) (cases m, simp)
next
  case (2 p e es m)
  from "2.prems"(1) have "\<exists>m1. trigger p e m = Inr m1 \<and> triggers p es m1 = Inr m'"
    by (simp add: bind_res_Inr_iff)
  then obtain m1 where m1: "trigger p e m = Inr m1" "triggers p es m1 = Inr m'" by blast
  obtain s where s: "e \<in> {READ, WRITE}" "fc_events (ctx_of m p) AND e \<noteq> 0" "tag s = waiter (slot e (ctx_of m p))"
    "m1 = m\<lparr>ctx_of := (ctx_of m)(p := cleared e (ctx_of m p)), io_submitted := io_submitted m @ [s],
      pendingEventCnt := pendingEventCnt m - 1\<rparr>"
    by (rule trigger_result [OF m1(1)]) (rule that)
  have c1: "ctx_of m1 p = cleared e (ctx_of m p)" by (simp add: s(4))
  have "ctx_ok (ctx_of m1 p)" unfolding c1 by (rule ctx_ok_cleared [OF "2.prems"(2) s(1)])
  from "2.IH" [OF m1(2) this] obtain c ss where ih: "m' = m1\<lparr>ctx_of := (ctx_of m1)(p := c), io_submitted := io_submitted m1 @ ss,
      pendingEventCnt := pendingEventCnt m1 - of_nat (length ss)\<rparr>" "ctx_ok c" "fc_fd c = fc_fd (ctx_of m1 p)"
      "ctx_waiters (ctx_of m1 p) = ctx_waiters c + mset (map tag ss)"
      "fc_events c = fold (\<lambda>e v. v AND NOT e) es (fc_events (ctx_of m1 p))" "length ss = length es"
    by blast
  have w: "ctx_waiters (ctx_of m p) = add_mset (tag s) (ctx_waiters (ctx_of m1 p))"
    unfolding c1 s(3) by (rule ctx_waiters_cleared [OF "2.prems"(2) s(1,2)])
  have "m' = m\<lparr>ctx_of := (ctx_of m)(p := c), io_submitted := io_submitted m @ s # ss,
      pendingEventCnt := pendingEventCnt m - of_nat (length (s # ss))\<rparr>"
    unfolding ih(1) s(4) by (simp add: algebra_simps)
  moreover have "ctx_waiters (ctx_of m p) = ctx_waiters c + mset (map tag (s # ss))"
    using ih(4) w by simp
  moreover have "fc_events c = fold (\<lambda>e v. v AND NOT e) (e # es) (fc_events (ctx_of m p))"
    using ih(5) by (simp add: c1)
  moreover have "fc_fd c = fc_fd (ctx_of m p)" "length (s # ss) = length (e # es)"
    using ih(3,6) by (simp_all add: c1)
  ultimately show ?case using ih(2) by blast
qed

section \<open>The manager as a transition system\<close>

text \<open>
  The steps are the critical sections, on any context that was ever in the vector: a thread
  may hold a pointer it read before the vector changed. The kernel refuses to add a
  descriptor that is in the interest list. The history records what was asked for and what
  was deleted.
\<close>

record io_sys =
  io :: IOManager
  asked :: "wtask multiset"
  dropped :: "wtask multiset"

definition asked_for :: "io_caller \<Rightarrow> callback option \<Rightarrow> wtask" where
  "asked_for cl cb = (io_scheduler cl, case cb of Some f \<Rightarrow> RunCb f | None \<Rightarrow> RunFiber (Some (io_fiber cl)), io_thread cl)"

definition fresh_submissions :: "IOManager \<Rightarrow> IOManager \<Rightarrow> wtask multiset" where
  "fresh_submissions m m' = mset (map tag (drop (length (io_submitted m)) (io_submitted m')))"

inductive io_step :: "io_sys \<Rightarrow> io_sys \<Rightarrow> bool" where
  grow: "addEvent_grow fd (io S) = Inr (p, m') \<Longrightarrow> io_step S (S\<lparr>io := m'\<rparr>)"
| register: "p < ctx_next (io S) \<Longrightarrow> fc_fd (ctx_of (io S) p) = nat fd \<Longrightarrow>
    (ep_ok \<and> fc_events (ctx_of (io S) p) = 0 \<Longrightarrow> interest (io S) (nat fd) = None) \<Longrightarrow>
    addEvent_register ep_ok cl p fd event cb (io S) = Inr (rt, m') \<Longrightarrow>
    io_step S (S\<lparr>io := m', asked := asked S + (if rt = 0 then {#asked_for cl cb#} else {#})\<rparr>)"
| delete: "p < ctx_next (io S) \<Longrightarrow> fc_fd (ctx_of (io S) p) = nat fd \<Longrightarrow>
    delEvent_at ep_ok p fd event (io S) = Inr (r, m') \<Longrightarrow>
    io_step S (S\<lparr>io := m', dropped := dropped S + (if r then {#waiter (slot event (ctx_of (io S) p))#} else {#})\<rparr>)"
| cancel: "p < ctx_next (io S) \<Longrightarrow> fc_fd (ctx_of (io S) p) = nat fd \<Longrightarrow>
    cancelEvent_at ep_ok p fd event (io S) = Inr (r, m') \<Longrightarrow> io_step S (S\<lparr>io := m'\<rparr>)"
| cancel_all: "p < ctx_next (io S) \<Longrightarrow> fc_fd (ctx_of (io S) p) = nat fd \<Longrightarrow>
    cancelAll_at ep_ok p fd (io S) = Inr (r, m') \<Longrightarrow> io_step S (S\<lparr>io := m'\<rparr>)"
| ready: "p < ctx_next (io S) \<Longrightarrow> handle_ready ep_ok ev p (io S) = Inr m' \<Longrightarrow> io_step S (S\<lparr>io := m'\<rparr>)"
| timers: "idle_timers clk self tm (io S) = Some (Inr (tm', m')) \<Longrightarrow>
    io_step S (S\<lparr>io := m', asked := asked S + fresh_submissions (io S) m'\<rparr>)"
| blocking: "async_begin cur_id task (r0 :: nat) b (io S) = Some (st, b', m') \<Longrightarrow> io_step S (S\<lparr>io := m'\<rparr>)"
| unblocked: "async_run outcome err self f t (st :: nat async_state) (io S) = (st', m') \<Longrightarrow>
    io_step S (S\<lparr>io := m', asked := asked S + fresh_submissions (io S) m'\<rparr>)"
| released: "io_step S (S\<lparr>io := async_release (io S)\<rparr>)"

definition io_start :: io_sys where
  "io_start = \<lparr>io = IOManager_new, asked = {#}, dropped = {#}\<rparr>"

text \<open>
  The vector leads to contexts of its descriptors; contexts are consistent; the interest list
  has exactly the registered events; the counter counts the waiters; every request is waiting,
  submitted or deleted.
\<close>

definition interest_ok :: "IOManager \<Rightarrow> bool" where
  "interest_ok m \<longleftrightarrow>
     (\<forall>p < ctx_next m. fc_events (ctx_of m p) \<noteq> 0 \<longrightarrow>
        interest m (fc_fd (ctx_of m p)) = Some (EPOLLET OR fc_events (ctx_of m p), p)) \<and>
     (\<forall>fd ev p. interest m fd = Some (ev, p) \<longrightarrow>
        p < ctx_next m \<and> fc_fd (ctx_of m p) = fd \<and> fc_events (ctx_of m p) \<noteq> 0 \<and> ev = EPOLLET OR fc_events (ctx_of m p))"

definition vector_ok :: "IOManager \<Rightarrow> bool" where
  "vector_ok m \<longleftrightarrow>
     (\<forall>i < length (fdContexts m). fdContexts m ! i < ctx_next m \<and> fc_fd (ctx_of m (fdContexts m ! i)) = i)"

definition io_inv :: "io_sys \<Rightarrow> bool" where
  "io_inv S \<longleftrightarrow> vector_ok (io S) \<and> (\<forall>p < ctx_next (io S). ctx_ok (ctx_of (io S) p)) \<and> interest_ok (io S) \<and>
     pendingEventCnt (io S) = of_nat (size (waiting (io S))) \<and>
     asked S = waiting (io S) + mset (map tag (io_submitted (io S))) + dropped S"

lemma interest_okD:
  assumes "interest_ok m"
  shows "p < ctx_next m \<Longrightarrow> fc_events (ctx_of m p) \<noteq> 0 \<Longrightarrow>
      interest m (fc_fd (ctx_of m p)) = Some (EPOLLET OR fc_events (ctx_of m p), p)"
    and "interest m fd = Some (ev, q) \<Longrightarrow>
      q < ctx_next m \<and> fc_fd (ctx_of m q) = fd \<and> fc_events (ctx_of m q) \<noteq> 0 \<and> ev = EPOLLET OR fc_events (ctx_of m q)"
  using assms unfolding interest_ok_def by simp_all

lemma io_invD:
  assumes "io_inv S"
  shows "vector_ok (io S)" and "p < ctx_next (io S) \<Longrightarrow> ctx_ok (ctx_of (io S) p)" and "interest_ok (io S)"
    and "pendingEventCnt (io S) = of_nat (size (waiting (io S)))"
    and "asked S = waiting (io S) + mset (map tag (io_submitted (io S))) + dropped S"
  using assms unfolding io_inv_def by simp_all

lemma balance:
  fixes W :: "'a multiset"
  assumes "W' + C = W + C'" and "C + N = C' + A + L"
  shows "W + M + D + N = W' + (M + A) + (D + L)"
proof -
  have "W + M + D + N + C = W + (C + N) + (M + D)" by (simp add: ac_simps)
  also have "\<dots> = (W + C') + (A + L + M + D)" unfolding assms(2) by (simp add: ac_simps)
  also have "\<dots> = W' + (M + A) + (D + L) + C" unfolding assms(1) [symmetric] by (simp add: ac_simps)
  finally show ?thesis by simp
qed

text \<open>A change of one context and of the interest in its descriptor, with the submissions it makes.\<close>

lemma io_inv_update:
  assumes inv: "io_inv S" and p: "p < ctx_next (io S)"
    and m': "fdContexts m' = fdContexts (io S)" "ctx_next m' = ctx_next (io S)"
      "ctx_of m' = (ctx_of (io S))(p := c)"
      "interest m' = (interest (io S))(fc_fd c := (if fc_events c = 0 then None else Some (EPOLLET OR fc_events c, p)))"
      "io_submitted m' = io_submitted (io S) @ ss"
    and c: "ctx_ok c" "fc_fd c = fc_fd (ctx_of (io S) p)"
    and free: "fc_events (ctx_of (io S) p) = 0 \<Longrightarrow> interest (io S) (fc_fd c) = None"
    and a: "ctx_waiters (ctx_of (io S) p) + new = ctx_waiters c + mset (map tag ss) + del"
    and pend: "pendingEventCnt m' + of_nat (size (ctx_waiters (ctx_of (io S) p))) =
        pendingEventCnt (io S) + of_nat (size (ctx_waiters c))"
  shows "io_inv (S\<lparr>io := m', asked := asked S + new, dropped := dropped S + del\<rparr>)"
proof -
  let ?c = "ctx_of (io S) p"
  note I = io_invD [OF inv] and J = interest_okD [OF io_invD(3) [OF inv]]
  have w: "waiting m' + ctx_waiters ?c = waiting (io S) + ctx_waiters c"
    by (rule waiting_upd [OF p m'(3,2)])
  have "vector_ok m'" using I(1) m'(1-3) c(2) by (auto simp: vector_ok_def)
  moreover have "\<forall>q < ctx_next m'. ctx_ok (ctx_of m' q)" using I(2) m'(2,3) c(1) by simp
  moreover have "interest_ok m'"
  proof -
    have other: "fc_fd (ctx_of (io S) q) \<noteq> fc_fd c"
      if q: "q < ctx_next (io S)" "q \<noteq> p" "fc_events (ctx_of (io S) q) \<noteq> 0" for q
    proof
      assume eq: "fc_fd (ctx_of (io S) q) = fc_fd c"
      then have *: "interest (io S) (fc_fd c) = Some (EPOLLET OR fc_events (ctx_of (io S) q), q)"
        using J(1) [OF q(1,3)] by simp
      then have "fc_events ?c \<noteq> 0" using free by fastforce
      then have "interest (io S) (fc_fd c) = Some (EPOLLET OR fc_events ?c, p)"
        using J(1) [OF p] c(2) by simp
      with * q(2) show False by simp
    qed
    have "interest m' (fc_fd (ctx_of m' q)) = Some (EPOLLET OR fc_events (ctx_of m' q), q)"
      if "q < ctx_next m'" "fc_events (ctx_of m' q) \<noteq> 0" for q
      using that other [of q] J(1) [of q] m'(2-4) by (cases "q = p") auto
    moreover have "q < ctx_next m' \<and> fc_fd (ctx_of m' q) = fd \<and> fc_events (ctx_of m' q) \<noteq> 0 \<and> ev = EPOLLET OR fc_events (ctx_of m' q)"
      if "interest m' fd = Some (ev, q)" for fd ev q
    proof (cases "fd = fc_fd c")
      case True
      then show ?thesis using that m'(2-4) p by (auto split: if_splits)
    next
      case False
      then have *: "interest (io S) fd = Some (ev, q)" using that m'(4) by simp
      then have "q \<noteq> p" using J(2) False c(2) by metis
      then show ?thesis using J(2) [OF *] m'(2,3) by simp
    qed
    ultimately show ?thesis unfolding interest_ok_def by blast
  qed
  moreover have "pendingEventCnt m' = of_nat (size (waiting m'))"
  proof -
    have "size (waiting m') + size (ctx_waiters ?c) = size (waiting (io S)) + size (ctx_waiters c)"
      using arg_cong [OF w, of size] by simp
    then have "of_nat (size (waiting m')) + of_nat (size (ctx_waiters ?c)) =
        (of_nat (size (waiting (io S))) + of_nat (size (ctx_waiters c)) :: u64)"
      by (metis of_nat_add)
    then show ?thesis using pend I(4) by (metis add_right_cancel)
  qed
  moreover have "asked S + new = waiting m' + mset (map tag (io_submitted m')) + (dropped S + del)"
    using balance [OF w a] I(5) m'(5) by simp
  ultimately show ?thesis unfolding io_inv_def by simp
qed

section \<open>The steps\<close>

definition registered :: "io_caller \<Rightarrow> Event \<Rightarrow> callback option \<Rightarrow> FdContext \<Rightarrow> FdContext" where
  "registered cl e cb c =
     putEveContext e \<lparr>ec_scheduler = io_scheduler cl, ec_fiber = (if cb = None then Some (io_fiber cl) else None), ec_cb = cb,
       ec_thread = io_thread cl\<rparr> (c\<lparr>fc_events := fc_events c OR e\<rparr>)"

lemma registered_fields:
  "fc_events (registered cl e cb c) = fc_events c OR e" "fc_fd (registered cl e cb c) = fc_fd c"
  "fc_read (registered cl READ cb c) = \<lparr>ec_scheduler = io_scheduler cl,
     ec_fiber = (if cb = None then Some (io_fiber cl) else None), ec_cb = cb, ec_thread = io_thread cl\<rparr>"
  "fc_write (registered cl READ cb c) = fc_write c" "fc_read (registered cl WRITE cb c) = fc_read c"
  "fc_write (registered cl WRITE cb c) = \<lparr>ec_scheduler = io_scheduler cl,
     ec_fiber = (if cb = None then Some (io_fiber cl) else None), ec_cb = cb, ec_thread = io_thread cl\<rparr>"
  by (simp_all add: registered_def putEveContext_def READ_def WRITE_def)

lemma waiter_registered: "waiter \<lparr>ec_scheduler = io_scheduler cl,
     ec_fiber = (if cb = None then Some (io_fiber cl) else None), ec_cb = cb, ec_thread = io_thread cl\<rparr> = asked_for cl cb"
  by (cases cb) (simp_all add: waiter_def asked_for_def)

lemma registered_result:
  assumes "ctx_ok c" and "e \<in> {READ, WRITE}" and "fc_events c AND e = 0"
  shows "ctx_ok (registered cl e cb c) \<and> ctx_waiters (registered cl e cb c) = add_mset (asked_for cl cb) (ctx_waiters c) \<and>
    fc_events (registered cl e cb c) \<noteq> 0 \<and> fc_fd (registered cl e cb c) = fc_fd c"
proof -
  consider "e = READ" "fc_events c = 0" | "e = READ" "fc_events c = 4" | "e = WRITE" "fc_events c = 0" | "e = WRITE" "fc_events c = 1"
    using assms by (auto simp: ctx_ok_def event_defs)
  then show ?thesis
    by cases (use assms(1) in \<open>simp add: ctx_ok_def slot_ok_def ctx_waiters_def registered_fields waiter_registered;
      simp add: event_defs\<close>)+
qed

lemma slot_new: "ctx_ok c \<Longrightarrow> e \<in> {READ, WRITE} \<Longrightarrow> fc_events c AND e = 0 \<Longrightarrow> slot e c = EventContext_new"
  by (auto simp: ctx_ok_def slot_ok_def slot_def event_defs)

lemma addEvent_register_result:
  assumes "addEvent_register ep_ok cl p fd e cb m = Inr (rt, m')" and "ctx_ok (ctx_of m p)"
  obtains (refused) "\<not> ep_ok" "rt = - 1" "m' = m"
    | (added) op where "ep_ok" "rt = 0" "e \<in> {READ, WRITE}" "fc_events (ctx_of m p) AND e = 0" "op \<noteq> EPOLL_CTL_DEL"
        "m' = (upd_ctx p (registered cl e cb (ctx_of m p)) (epoll_ctl op (nat fd) (EPOLLET OR fc_events (ctx_of m p) OR e) p m))
           \<lparr>pendingEventCnt := pendingEventCnt m + 1\<rparr>"
proof (cases ep_ok)
  case False
  then show ?thesis using assms(1) refused
    by (auto simp: addEvent_register_def Let_def bind_res_Inr_iff)
next
  case True
  let ?c = "ctx_of m p"
  from assms(1) True have e: "e \<in> {READ, WRITE}" "fc_events ?c AND e = 0"
    by (auto simp: addEvent_register_def Let_def bind_res_Inr_iff getEveContext_Inr split: option.splits)
  have "slot e ?c = EventContext_new" by (rule slot_new [OF assms(2) e])
  then have "rt = 0 \<and> m' = (upd_ctx p (registered cl e cb ?c)
      (epoll_ctl (if fc_events ?c \<noteq> 0 then EPOLL_CTL_MOD else EPOLL_CTL_ADD) (nat fd) (EPOLLET OR fc_events ?c OR e) p m))
      \<lparr>pendingEventCnt := pendingEventCnt m + 1\<rparr>"
    using assms(1) True
    by (auto simp: addEvent_register_def Let_def bind_res_Inr_iff getEveContext_Inr registered_def EventContext_new_def
        epoll_ctl_def upd_ctx_def split: option.splits)
  then show ?thesis using added [OF True _ e, of "if fc_events ?c \<noteq> 0 then EPOLL_CTL_MOD else EPOLL_CTL_ADD"] by auto
qed

lemma io_inv_same: "io_inv S \<Longrightarrow> io_inv (S\<lparr>io := io S\<rparr>)" "io_inv S \<Longrightarrow> io_inv (S\<lparr>io := io S, asked := asked S\<rparr>)"
    "io_inv S \<Longrightarrow> io_inv (S\<lparr>io := io S, dropped := dropped S\<rparr>)"
  by (simp_all add: io_inv_def)

lemma register_step:
  assumes inv: "io_inv S" and p: "p < ctx_next (io S)" and fd: "fc_fd (ctx_of (io S) p) = nat fd"
    and free: "ep_ok \<and> fc_events (ctx_of (io S) p) = 0 \<Longrightarrow> interest (io S) (nat fd) = None"
    and r: "addEvent_register ep_ok cl p fd event cb (io S) = Inr (rt, m')"
  shows "io_inv (S\<lparr>io := m', asked := asked S + (if rt = 0 then {#asked_for cl cb#} else {#})\<rparr>)"
  using r io_invD(2) [OF inv p]
proof (cases rule: addEvent_register_result)
  case refused
  then show ?thesis using io_inv_same(2) [OF inv] by simp
next
  case (added op)
  let ?c = "ctx_of (io S) p"
  have reg: "ctx_ok (registered cl event cb ?c)" "ctx_waiters (registered cl event cb ?c) = add_mset (asked_for cl cb) (ctx_waiters ?c)"
    "fc_events (registered cl event cb ?c) \<noteq> 0" "fc_fd (registered cl event cb ?c) = fc_fd ?c"
    using registered_result [OF io_invD(2) [OF inv p] added(3,4)] by blast+
  have ev: "fc_events (registered cl event cb ?c) = fc_events ?c OR event"
    by (simp add: registered_def putEveContext_def)
  have "io_inv (S\<lparr>io := m', asked := asked S + {#asked_for cl cb#}, dropped := dropped S + {#}\<rparr>)"
  proof (rule io_inv_update [OF inv p _ _ _ _ _ reg(1,4), where ss = "[]"])
    show "interest m' = (interest (io S))(fc_fd (registered cl event cb ?c) :=
        (if fc_events (registered cl event cb ?c) = 0 then None
         else Some (EPOLLET OR fc_events (registered cl event cb ?c), p)))"
      using added(5) reg(3) fd ev unfolding added(6) by (cases op) (simp_all add: epoll_ctl_def reg(4) or.assoc)
    show "interest (io S) (fc_fd (registered cl event cb ?c)) = None" if "fc_events ?c = 0"
      using free that added(1) fd reg(4) by simp
  qed (simp_all add: added(6) reg(2))
  then show ?thesis using added(2) by simp
qed

lemma delEvent_at_result:
  assumes "delEvent_at ep_ok p fd e m = Inr (r, m')"
  obtains (refused) "\<not> r" "m' = m"
    | (deleted) op where "r" "e \<in> {READ, WRITE}" "fc_events (ctx_of m p) AND e \<noteq> 0"
        "op = (if fc_events (ctx_of m p) AND NOT e \<noteq> 0 then EPOLL_CTL_MOD else EPOLL_CTL_DEL)"
        "m' = (upd_ctx p (cleared e (ctx_of m p)) (epoll_ctl op (nat fd) (EPOLLET OR fc_events (ctx_of m p) AND NOT e) p m))
           \<lparr>pendingEventCnt := pendingEventCnt m - 1\<rparr>"
proof -
  consider "\<not> r \<and> m' = m" | "r \<and> e \<in> {READ, WRITE} \<and> fc_events (ctx_of m p) AND e \<noteq> 0 \<and>
      m' = (upd_ctx p (cleared e (ctx_of m p)) (epoll_ctl (if fc_events (ctx_of m p) AND NOT e \<noteq> 0 then EPOLL_CTL_MOD else EPOLL_CTL_DEL)
          (nat fd) (EPOLLET OR fc_events (ctx_of m p) AND NOT e) p m)) \<lparr>pendingEventCnt := pendingEventCnt m - 1\<rparr>"
    using assms
    by (auto simp: delEvent_at_def Let_def bind_res_Inr_iff getEveContext_Inr cleared_def epoll_ctl_def upd_ctx_def split: if_splits)
  then show ?thesis using refused deleted by cases blast+
qed

text \<open>The interest after a change of the registered events of a context.\<close>

lemma interest_left:
  "interest (epoll_ctl (if v \<noteq> 0 then EPOLL_CTL_MOD else EPOLL_CTL_DEL) fd (EPOLLET OR v) p m) =
   (interest m)(fd := (if v = 0 then None else Some (EPOLLET OR v, p)))"
  by (simp add: epoll_ctl_def)

lemma delete_step:
  assumes inv: "io_inv S" and p: "p < ctx_next (io S)" and fd: "fc_fd (ctx_of (io S) p) = nat fd"
    and r: "delEvent_at ep_ok p fd event (io S) = Inr (r, m')"
  shows "io_inv (S\<lparr>io := m', dropped := dropped S + (if r then {#waiter (slot event (ctx_of (io S) p))#} else {#})\<rparr>)"
  using r
proof (cases rule: delEvent_at_result)
  case refused
  then show ?thesis using io_inv_same(3) [OF inv] by simp
next
  case (deleted op)
  let ?c = "ctx_of (io S) p"
  have ok: "ctx_ok ?c" by (rule io_invD(2) [OF inv p])
  have w: "ctx_waiters ?c = add_mset (waiter (slot event ?c)) (ctx_waiters (cleared event ?c))"
    by (rule ctx_waiters_cleared [OF ok deleted(2,3)])
  have "io_inv (S\<lparr>io := m', asked := asked S + {#}, dropped := dropped S + {#waiter (slot event ?c)#}\<rparr>)"
  proof (rule io_inv_update [OF inv p, where c = "cleared event ?c" and ss = "[]"])
    show "interest m' = (interest (io S))(fc_fd (cleared event ?c) :=
        (if fc_events (cleared event ?c) = 0 then None else Some (EPOLLET OR fc_events (cleared event ?c), p)))"
      unfolding deleted(4,5) by (simp add: interest_left fd)
    show "interest (io S) (fc_fd (cleared event ?c)) = None" if "fc_events ?c = 0"
      using deleted(3) that by simp
  qed (use w in \<open>simp_all add: deleted(5) ctx_ok_cleared [OF ok deleted(2)]\<close>)
  then show ?thesis using deleted(1) by simp
qed

text \<open>A call of \<^verbatim>\<open>epoll_ctl\<close> followed by triggers of the events it removed.\<close>

lemma triggers_step:
  assumes inv: "io_inv S" and p: "p < ctx_next (io S)" and fd: "fc_fd (ctx_of (io S) p) = fd"
    and t: "triggers p es (epoll_ctl op fd (EPOLLET OR v) p (io S)) = Inr m'"
    and v: "v = fold (\<lambda>e v. v AND NOT e) es (fc_events (ctx_of (io S) p))"
    and op: "op = (if v \<noteq> 0 then EPOLL_CTL_MOD else EPOLL_CTL_DEL)"
    and some: "fc_events (ctx_of (io S) p) \<noteq> 0"
  shows "io_inv (S\<lparr>io := m'\<rparr>)"
proof -
  let ?c = "ctx_of (io S) p"
  obtain c ss where c: "m' = (epoll_ctl op fd (EPOLLET OR v) p (io S))\<lparr>ctx_of := (ctx_of (io S))(p := c),
      io_submitted := io_submitted (io S) @ ss, pendingEventCnt := pendingEventCnt (io S) - of_nat (length ss)\<rparr>"
      "ctx_ok c" "fc_fd c = fc_fd ?c" "ctx_waiters ?c = ctx_waiters c + mset (map tag ss)" "fc_events c = v"
    using triggers_result [OF t] io_invD(2) [OF inv p] v by auto
  have "io_inv (S\<lparr>io := m', asked := asked S + {#}, dropped := dropped S + {#}\<rparr>)"
  proof (rule io_inv_update [OF inv p _ _ _ _ _ c(2,3)])
    show "interest m' = (interest (io S))(fc_fd c := (if fc_events c = 0 then None else Some (EPOLLET OR fc_events c, p)))"
      using interest_left [of v fd p "io S"] unfolding c(1) op c(3,5) fd by simp
  qed (use some c(4) in \<open>simp_all add: c(1)\<close>)
  then show ?thesis by simp
qed

lemma cancel_step:
  assumes inv: "io_inv S" and p: "p < ctx_next (io S)" and fd: "fc_fd (ctx_of (io S) p) = nat fd"
    and r: "cancelEvent_at ep_ok p fd event (io S) = Inr (r, m')"
  shows "io_inv (S\<lparr>io := m'\<rparr>)"
proof (cases "fc_events (ctx_of (io S) p) AND event = 0 \<or> \<not> ep_ok")
  case True
  then show ?thesis using r io_inv_same(1) [OF inv] by (auto simp: cancelEvent_at_def Let_def split: if_splits)
next
  case False
  let ?v = "fc_events (ctx_of (io S) p) AND NOT event"
  have "triggers p [event] (epoll_ctl (if ?v \<noteq> 0 then EPOLL_CTL_MOD else EPOLL_CTL_DEL) (nat fd) (EPOLLET OR ?v) p (io S)) = Inr m'"
    using r False by (auto simp: cancelEvent_at_def Let_def bind_res_Inr_iff)
  then show ?thesis by (rule triggers_step [OF inv p fd]) (use False in auto)
qed

text \<open>The two conditional triggers in a row.\<close>

definition rw_events :: "u32 \<Rightarrow> Event list" where
  "rw_events v = (if v AND READ \<noteq> 0 then [READ] else []) @ (if v AND WRITE \<noteq> 0 then [WRITE] else [])"

lemma rw_events_fold:
  "r \<in> {0, 1, 4, 5} \<Longrightarrow> v \<in> {0, 1, 4, 5} \<Longrightarrow> fold (\<lambda>e v. v AND NOT e) (rw_events r) v = v AND NOT r"
  by (auto simp: rw_events_def event_defs)

lemma triggers_rw:
  "bind_res (trigger_if (v AND READ \<noteq> 0) p READ m) (\<lambda>m. trigger_if (v AND WRITE \<noteq> 0) p WRITE m) = triggers p (rw_events v) m"
  by (auto simp: trigger_if_def rw_events_def bind_res_def split: sum.splits)

lemma cancelAll_at_eq:
  assumes "ctx_ok (ctx_of m p)" and "fc_events (ctx_of m p) \<noteq> 0"
  shows "cancelAll_at True p fd m =
    bind_res (triggers p (rw_events (fc_events (ctx_of m p))) (epoll_ctl EPOLL_CTL_DEL (nat fd) 0 p m)) (\<lambda>m.
      bind_res (CondPanic (fc_events (ctx_of m p) = 0) ''fd not totally clear'') (\<lambda>_. Inr (True, m)))"
proof -
  let ?c = "ctx_of m p" and ?m = "epoll_ctl EPOLL_CTL_DEL (nat fd) 0 p m"
  have v: "fc_events ?c \<in> {0, 1, 4, 5}" using assms(1) by (simp add: ctx_ok_def)
  have w: "(fc_events (ctx_of m1 p) AND WRITE \<noteq> 0) = (fc_events ?c AND WRITE \<noteq> 0)"
    if "trigger_if (fc_events ?c AND READ \<noteq> 0) p READ ?m = Inr m1" for m1
  proof (cases "fc_events ?c AND READ \<noteq> 0")
    case True
    then have "trigger p READ ?m = Inr m1" using that by (simp add: trigger_if_def)
    then have "fc_events (ctx_of m1 p) = fc_events ?c AND NOT READ" by (rule trigger_result) simp
    then show ?thesis using v by (auto simp: event_defs)
  qed (use that in \<open>auto simp: trigger_if_def\<close>)
  show ?thesis
    unfolding triggers_rw [symmetric]
    using assms(2) w by (auto simp: cancelAll_at_def Let_def bind_res_def split: sum.splits)
qed

lemma cancel_all_step:
  assumes inv: "io_inv S" and p: "p < ctx_next (io S)" and fd: "fc_fd (ctx_of (io S) p) = nat fd"
    and r: "cancelAll_at ep_ok p fd (io S) = Inr (r, m')"
  shows "io_inv (S\<lparr>io := m'\<rparr>)"
proof (cases "fc_events (ctx_of (io S) p) = 0 \<or> \<not> ep_ok")
  case True
  then show ?thesis using r io_inv_same(1) [OF inv] by (auto simp: cancelAll_at_def Let_def split: if_splits)
next
  case False
  let ?c = "ctx_of (io S) p"
  have ok: "ctx_ok ?c" by (rule io_invD(2) [OF inv p])
  then have v: "fc_events ?c \<in> {0, 1, 4, 5}" by (simp add: ctx_ok_def)
  have "epoll_ctl EPOLL_CTL_DEL (nat fd) 0 p (io S) = epoll_ctl EPOLL_CTL_DEL (nat fd) (EPOLLET OR 0) p (io S)"
    by (simp add: epoll_ctl_def)
  then have "triggers p (rw_events (fc_events ?c)) (epoll_ctl EPOLL_CTL_DEL (nat fd) (EPOLLET OR 0) p (io S)) = Inr m'"
    using r False cancelAll_at_eq [OF ok, of fd] by (auto simp: bind_res_Inr_iff)
  then show ?thesis by (rule triggers_step [OF inv p fd]) (use False in \<open>simp_all add: rw_events_fold [OF v v]\<close>)
qed

lemma real_events_range: "real_events ev c \<in> {0, 1, 4, 5}"
  by (simp add: real_events_def Let_def event_defs)

lemma ready_step:
  assumes inv: "io_inv S" and p: "p < ctx_next (io S)" and r: "handle_ready ep_ok ev p (io S) = Inr m'"
  shows "io_inv (S\<lparr>io := m'\<rparr>)"
proof -
  let ?c = "ctx_of (io S) p" let ?r = "real_events ev ?c" let ?v = "fc_events ?c AND NOT ?r"
  have v: "fc_events ?c \<in> {0, 1, 4, 5}" using io_invD(2) [OF inv p] by (simp add: ctx_ok_def)
  show ?thesis
  proof (cases "fc_events ?c AND ?r = 0 \<or> \<not> ep_ok")
    case True
    then show ?thesis using r io_inv_same(1) [OF inv] by (auto simp: handle_ready_def NONE_def Let_def split: if_splits)
  next
    case False
    have "triggers p (rw_events ?r) (epoll_ctl (if ?v \<noteq> 0 then EPOLL_CTL_MOD else EPOLL_CTL_DEL) (fc_fd ?c) (EPOLLET OR ?v) p (io S)) = Inr m'"
      unfolding triggers_rw [symmetric] using r False by (simp add: handle_ready_def Let_def NONE_def)
    then show ?thesis
      by (rule triggers_step [OF inv p refl]) (use False in \<open>auto simp: rw_events_fold [OF real_events_range v]\<close>)
  qed
qed

lemma contextResize_fields:
  "length (fdContexts (contextResize sz m)) = sz"
  "pendingEventCnt (contextResize sz m) = pendingEventCnt m" "interest (contextResize sz m) = interest m"
  "io_submitted (contextResize sz m) = io_submitted m" "ctx_next m \<le> ctx_next (contextResize sz m)"
  "p < ctx_next m \<Longrightarrow> ctx_of (contextResize sz m) p = ctx_of m p"
  "\<lbrakk>ctx_next m \<le> p; p < ctx_next (contextResize sz m)\<rbrakk> \<Longrightarrow> \<exists>fd. ctx_of (contextResize sz m) p = FdContext_new fd"
  by (auto simp: contextResize_def Let_def)

lemma vector_ok_contextResize:
  assumes "vector_ok m"
  shows "vector_ok (contextResize sz m)"
  unfolding vector_ok_def
proof (intro allI impI)
  fix i
  let ?m = "contextResize sz m" and ?l = "length (take sz (fdContexts m))"
  assume i: "i < length (fdContexts ?m)"
  show "fdContexts ?m ! i < ctx_next ?m \<and> fc_fd (ctx_of ?m (fdContexts ?m ! i)) = i"
  proof (cases "i < ?l")
    case True
    then have "fdContexts ?m ! i = fdContexts m ! i" by (simp add: contextResize_def Let_def nth_append)
    moreover have "fdContexts m ! i < ctx_next m \<and> fc_fd (ctx_of m (fdContexts m ! i)) = i"
      using assms True by (simp add: vector_ok_def)
    ultimately show ?thesis using contextResize_fields(5) [of m sz] by (simp add: contextResize_fields(6))
  next
    case False
    have "i < sz" using i by (simp add: contextResize_fields(1))
    then have "fdContexts ?m ! i = ctx_next m + (i - ?l)" "ctx_next ?m = ctx_next m + (sz - ?l)" "i - ?l < sz - ?l" "?l + (i - ?l) = i"
      using False by (auto simp add: contextResize_def Let_def nth_append)
    moreover have "ctx_of ?m (ctx_next m + (i - ?l)) = FdContext_new (?l + (i - ?l))"
      using \<open>i - ?l < sz - ?l\<close> by (simp add: contextResize_def Let_def del: length_take)
    ultimately show ?thesis by simp
  qed
qed

lemma interest_ok_contextResize:
  assumes "interest_ok m"
  shows "interest_ok (contextResize sz m)"
proof -
  let ?m = "contextResize sz m"
  have "interest ?m (fc_fd (ctx_of ?m p)) = Some (EPOLLET OR fc_events (ctx_of ?m p), p)"
    if "p < ctx_next ?m" "fc_events (ctx_of ?m p) \<noteq> 0" for p
  proof (cases "p < ctx_next m")
    case True
    then show ?thesis using interest_okD(1) [OF assms True] that(2) by (simp add: contextResize_fields)
  next
    case False
    then show ?thesis using contextResize_fields(7) [of m p sz] that by auto
  qed
  moreover have "p < ctx_next ?m \<and> fc_fd (ctx_of ?m p) = fd \<and> fc_events (ctx_of ?m p) \<noteq> 0 \<and> ev = EPOLLET OR fc_events (ctx_of ?m p)"
    if "interest ?m fd = Some (ev, p)" for fd ev p
  proof -
    have "interest m fd = Some (ev, p)" using that by (simp add: contextResize_fields)
    from interest_okD(2) [OF assms this] show ?thesis
      using contextResize_fields(5) [of m sz] by (auto simp: contextResize_fields(6))
  qed
  ultimately show ?thesis unfolding interest_ok_def by blast
qed

lemma contextResize_step:
  assumes "io_inv S"
  shows "io_inv (S\<lparr>io := contextResize sz (io S)\<rparr>)"
proof -
  let ?m = "contextResize sz (io S)"
  have "ctx_ok (ctx_of ?m p)" if "p < ctx_next ?m" for p
    using that contextResize_fields(7) [of "io S" p sz] io_invD(2) [OF assms, of p] contextResize_fields(6) [of p "io S" sz]
    by (cases "p < ctx_next (io S)") auto
  then show ?thesis
    using vector_ok_contextResize [OF io_invD(1) [OF assms]] interest_ok_contextResize [OF io_invD(3) [OF assms]]
      io_invD(4,5) [OF assms]
    unfolding io_inv_def by (simp add: contextResize_fields)
qed

text \<open>Steps that leave contexts and interest alone and may submit.\<close>

lemma submit_step:
  assumes "io_inv S" and "vector_ok m' = vector_ok (io S)" and "ctx_next m' = ctx_next (io S)" and "ctx_of m' = ctx_of (io S)"
    and "interest m' = interest (io S)" and "pendingEventCnt m' = pendingEventCnt (io S)"
    and "io_submitted m' = io_submitted (io S) @ ss"
  shows "io_inv (S\<lparr>io := m', asked := asked S + mset (map tag ss)\<rparr>)"
proof -
  have "waiting m' = waiting (io S)" "interest_ok m' = interest_ok (io S)"
    using assms by (simp_all add: waiting_def interest_ok_def)
  then show ?thesis using assms by (simp add: io_inv_def ac_simps)
qed

lemma io_inv_step: "io_inv S \<Longrightarrow> io_step S S' \<Longrightarrow> io_inv S'"
proof (rotate_tac 1, induction rule: io_step.induct)
  case (grow fd S p m')
  then show ?case using contextResize_step [OF grow(2)] by (auto simp: addEvent_grow_def Let_def split: if_splits)
next
  case (register p S fd ep_ok cl event cb rt m')
  from register(5,1-4) show ?case by (rule register_step)
next
  case (delete p S fd ep_ok event r m')
  from delete(4,1-3) show ?case by (rule delete_step)
next
  case (cancel p S fd ep_ok event r m')
  from cancel(4,1-3) show ?case by (rule cancel_step)
next
  case (cancel_all p S fd ep_ok r m')
  from cancel_all(4,1-3) show ?case by (rule cancel_all_step)
next
  case (ready p S ep_ok ev m')
  from ready(3,1,2) show ?case by (rule ready_step)
next
  case (timers clk self tm S tm' m')
  then obtain cbs where "m' = (io S)\<lparr>io_submitted := io_submitted (io S) @ map (\<lambda>cb. (self, RunCb cb, - 1)) cbs\<rparr>"
    by (auto simp: idle_timers_def bind_res_Inr_iff)
  then show ?case
    using submit_step [OF timers(2), of m' "map (\<lambda>cb. (self, RunCb cb, - 1)) cbs"]
    by (simp add: vector_ok_def fresh_submissions_def)
next
  case (blocking cur_id task r0 b S st b' m')
  then show ?case using submit_step [OF blocking(2), of m' "[]"] by (auto simp: async_begin_def vector_ok_def split: if_splits)
next
  case (unblocked outcome err self f t st S st' m')
  then show ?case using submit_step [OF unblocked(2), of m' "[(self, RunFiber (Some f), t)]"]
    by (auto simp: async_run_def vector_ok_def fresh_submissions_def)
next
  case (released S)
  then show ?case using submit_step [OF released, of "async_release (io S)" "[]"] by (simp add: async_release_def vector_ok_def)
qed

lemma io_inv_start: "io_inv io_start"
proof -
  let ?m = "\<lparr>fdContexts = [], ctx_of = (\<lambda>_. FdContext_new 0), ctx_next = 0, interest = Map.empty,
       pendingEventCnt = 0, pendingBlockingTasks = 0, io_submitted = []\<rparr>"
  have "io_inv \<lparr>io = ?m, asked = {#}, dropped = {#}\<rparr>"
    by (simp add: io_inv_def vector_ok_def interest_ok_def waiting_def)
  from contextResize_step [OF this, of 32] show ?thesis by (simp add: io_start_def IOManager_new_def)
qed

interpretation manager: invariant_of "\<lambda>S. S = io_start" io_step io_inv
  by unfold_locales (auto intro: io_inv_start io_inv_step)

section \<open>Properties\<close>

definition example_caller :: io_caller where
  "example_caller = \<lparr>io_scheduler = Some 1, io_thread = 77, io_fiber = 9, io_running = True\<rparr>"

definition example_registered :: IOManager where
  "example_registered = (case addEvent True example_caller 3 READ None IOManager_new of Inr (rt, m) \<Rightarrow> m | _ \<Rightarrow> IOManager_new)"

definition example_io :: io_sys where
  "example_io = \<lparr>io = example_registered, asked = {#(Some 1, RunFiber (Some 9), 77)#}, dropped = {#}\<rparr>"

lemma IOManager_new_fields:
  "fdContexts IOManager_new = [0..<32]" "ctx_next IOManager_new = 32" "interest IOManager_new = Map.empty"
  "p < 32 \<Longrightarrow> ctx_of IOManager_new p = FdContext_new p" "pendingEventCnt IOManager_new = 0"
  "pendingBlockingTasks IOManager_new = 0" "io_submitted IOManager_new = []"
  by (simp_all add: IOManager_new_def contextResize_def)

lemma example_register:
  "addEvent_register True example_caller 3 3 READ None IOManager_new = Inr (0, example_registered)"
  by (simp add: example_registered_def addEvent_def addEvent_lookup_def addEvent_register_def Let_def IOManager_new_fields
      getEveContext_def FdContext_new_def EventContext_new_def event_defs example_caller_def CondPanic_def)

lemma example_io_reachable: "io_step\<^sup>*\<^sup>* io_start example_io"
proof -
  have "io_step io_start (io_start\<lparr>io := example_registered, asked := asked io_start + {#asked_for example_caller None#}\<rparr>)"
    using io_step.register [of 3 io_start 3 True example_caller READ None 0 example_registered]
    by (simp add: io_start_def IOManager_new_fields example_register)
  then show ?thesis
    by (simp add: io_start_def example_io_def asked_for_def example_caller_def r_into_rtranclp)
qed

lemma example_fields:
  "io_submitted example_registered = []" "pendingEventCnt example_registered = 1" "ctx_next example_registered = 32"
  "fc_events (ctx_of example_registered 3) = READ" "fc_fd (ctx_of example_registered 3) = 3"
  "ec_scheduler (slot READ (ctx_of example_registered 3)) = Some 1"
  "slot READ (ctx_of example_registered 3) = \<lparr>ec_scheduler = Some 1, ec_fiber = Some 9, ec_cb = None, ec_thread = 77\<rparr>"
  "pendingBlockingTasks example_registered = 0"
  by (simp_all add: example_registered_def addEvent_def addEvent_lookup_def addEvent_register_def Let_def IOManager_new_fields
      getEveContext_def FdContext_new_def EventContext_new_def event_defs example_caller_def CondPanic_def upd_ctx_def
      epoll_ctl_def putEveContext_def slot_def)

lemma example_vector: "fdContexts example_registered = [0..<32]"
  by (simp add: example_registered_def addEvent_def addEvent_lookup_def addEvent_register_def Let_def IOManager_new_fields
      getEveContext_def FdContext_new_def EventContext_new_def event_defs example_caller_def CondPanic_def)



text \<open>
  C26: In every reachable state the interest list of the kernel has exactly the descriptors
  with a registered event, each with the events of its context and a pointer to it, whatever
  threads race on the vector of contexts.
\<close>

theorem interest_list_matches:
  assumes "io_step\<^sup>*\<^sup>* io_start S"
  shows "interest (io S) fd = Some (ev, p) \<longleftrightarrow>
    p < ctx_next (io S) \<and> fc_fd (ctx_of (io S) p) = fd \<and> fc_events (ctx_of (io S) p) \<noteq> NONE \<and>
    ev = EPOLLET OR fc_events (ctx_of (io S) p)"
  using interest_okD [OF io_invD(3) [OF manager.inv_reachable [OF refl assms]], of p]
    interest_okD(2) [OF io_invD(3) [OF manager.inv_reachable [OF refl assms]], of fd ev p]
  unfolding NONE_def by blast

theorem interest_list_matches_witness:
  "io_step\<^sup>*\<^sup>* io_start example_io \<and> interest example_registered 3 = Some (EPOLLET OR READ, 3)"
  using interest_list_matches [OF example_io_reachable, of 3 "EPOLLET OR READ" 3] example_io_reachable
  by (simp add: example_io_def example_fields NONE_def READ_def)

text \<open>Triggers that succeed.\<close>

lemma trigger_ok:
  assumes "e \<in> {READ, WRITE}" and "fc_events (ctx_of m p) AND e \<noteq> 0" and "ec_scheduler (slot e (ctx_of m p)) \<noteq> None"
  shows "\<exists>s. tag s = waiter (slot e (ctx_of m p)) \<and>
    trigger p e m = Inr (m\<lparr>ctx_of := (ctx_of m)(p := cleared e (ctx_of m p)), io_submitted := io_submitted m @ [s],
      pendingEventCnt := pendingEventCnt m - 1\<rparr>)"
  using assms getEveContext_Inr [of e "(ctx_of m p)\<lparr>fc_events := fc_events (ctx_of m p) AND NOT e\<rparr>" "slot e (ctx_of m p)"]
  by (auto simp: trigger_def triggerEvent_def Let_def tag_def waiter_def cleared_def upd_ctx_def)

lemma triggers_ok:
  assumes "set es \<subseteq> {READ, WRITE}" and "distinct es" and "ctx_ok (ctx_of m p)"
    and "\<forall>e \<in> set es. fc_events (ctx_of m p) AND e \<noteq> 0 \<and> ec_scheduler (slot e (ctx_of m p)) \<noteq> None"
  shows "\<exists>m'. triggers p es m = Inr m' \<and>
    map tag (io_submitted m') = map tag (io_submitted m) @ map (\<lambda>e. waiter (slot e (ctx_of m p))) es"
  using assms
proof (induction es arbitrary: m)
  case (Cons e es)
  let ?c = "ctx_of m p"
  obtain s where s: "tag s = waiter (slot e ?c)"
    "trigger p e m = Inr (m\<lparr>ctx_of := (ctx_of m)(p := cleared e ?c), io_submitted := io_submitted m @ [s],
      pendingEventCnt := pendingEventCnt m - 1\<rparr>)" (is "_ = Inr ?m")
    using trigger_ok [of e m p] Cons.prems by auto
  have other: "fc_events (cleared e ?c) AND e' \<noteq> 0 \<and> slot e' (cleared e ?c) = slot e' ?c" if "e' \<in> set es" for e'
  proof -
    have "e' \<in> {READ, WRITE}" "e \<in> {READ, WRITE}" "e' \<noteq> e" "fc_events ?c \<in> {0, 1, 4, 5}" "fc_events ?c AND e' \<noteq> 0"
      using Cons.prems that by (auto simp: ctx_ok_def)
    then show ?thesis by (auto simp: event_defs slot_def cleared_def putEveContext_def)
  qed
  have "\<exists>m'. triggers p es ?m = Inr m' \<and>
      map tag (io_submitted m') = map tag (io_submitted ?m) @ map (\<lambda>e. waiter (slot e (ctx_of ?m p))) es"
    by (rule Cons.IH) (use Cons.prems other ctx_ok_cleared [of ?c e] in auto)
  then show ?case using s other by auto
qed simp

lemma and_event_bit: "(v :: u32) AND READ \<noteq> 0 \<longleftrightarrow> bit v 0" "(v :: u32) AND WRITE \<noteq> 0 \<longleftrightarrow> bit v 2"
  using and_exp_eq_0_iff_not_bit [of v 0] and_exp_eq_0_iff_not_bit [of v 2] by (simp_all add: READ_def WRITE_def)

lemma subset_bit: "(v :: u32) AND NOT w = 0 \<Longrightarrow> bit v n \<Longrightarrow> bit w n"
proof -
  assume a: "v AND NOT w = 0" and b: "bit v n"
  have "\<not> bit (v AND NOT w) n" unfolding a by simp
  then show ?thesis using b bit_imp_le_length [OF b] by (simp add: bit_and_iff bit_not_iff)
qed

lemma real_events_bits:
  "real_events ev c AND READ \<noteq> 0 \<longleftrightarrow> bit ev 0 \<or> ev AND (EPOLLERR OR EPOLLHUP) \<noteq> 0 \<and> bit (fc_events c) 0"
  "real_events ev c AND WRITE \<noteq> 0 \<longleftrightarrow> bit ev 2 \<or> ev AND (EPOLLERR OR EPOLLHUP) \<noteq> 0 \<and> bit (fc_events c) 2"
proof -
  define ev' where "ev' = (if ev AND (EPOLLERR OR EPOLLHUP) \<noteq> 0 then ev OR ((EPOLLIN OR EPOLLOUT) AND fc_events c) else ev)"
  have "real_events ev c = (if ev' AND EPOLLIN \<noteq> 0 then READ else NONE) OR (if ev' AND EPOLLOUT \<noteq> 0 then WRITE else NONE)"
    by (simp add: real_events_def ev'_def Let_def)
  then have r: "real_events ev c AND READ \<noteq> 0 \<longleftrightarrow> ev' AND READ \<noteq> 0" "real_events ev c AND WRITE \<noteq> 0 \<longleftrightarrow> ev' AND WRITE \<noteq> 0"
    by (simp_all add: event_defs)
  have n: "bit (5 :: u32) 0" "bit (5 :: u32) 2" by (simp_all add: bit_numeral_rec numeral_2_eq_2)
  show "real_events ev c AND READ \<noteq> 0 \<longleftrightarrow> bit ev 0 \<or> ev AND (EPOLLERR OR EPOLLHUP) \<noteq> 0 \<and> bit (fc_events c) 0"
    unfolding r unfolding and_event_bit ev'_def by (simp add: bit_or_iff bit_and_iff n EPOLLIN_def EPOLLOUT_def)
  show "real_events ev c AND WRITE \<noteq> 0 \<longleftrightarrow> bit ev 2 \<or> ev AND (EPOLLERR OR EPOLLHUP) \<noteq> 0 \<and> bit (fc_events c) 2"
    unfolding r unfolding and_event_bit ev'_def by (simp add: bit_or_iff bit_and_iff n EPOLLIN_def EPOLLOUT_def)
qed

lemma ready_registered:
  assumes "real_events ev c AND e \<noteq> 0" and "e \<in> {READ, WRITE}"
    and "ev AND NOT (fc_events c OR EPOLLERR OR EPOLLHUP) = 0"
  shows "fc_events c AND e \<noteq> 0"
proof -
  have n: "\<not> bit (24 :: u32) 0" "\<not> bit (24 :: u32) 2" by (simp_all add: bit_numeral_rec numeral_2_eq_2)
  have "bit (fc_events c) n" if "bit ev n" "n \<in> {0, 2}" for n
    using subset_bit [OF assms(3) that(1)] that(2) n by (auto simp: bit_or_iff EPOLLERR_def EPOLLHUP_def or.assoc)
  then show ?thesis using assms(1,2) real_events_bits [of ev c] and_event_bit [of "fc_events c"] by auto
qed



text \<open>
  The wait is bounded as long as the next timer is due within \<open>2 ^ 31\<close> milliseconds; beyond
  that the truncation to \<^verbatim>\<open>int\<close> may give a negative time, and \<^verbatim>\<open>epoll_wait\<close> has no time limit.
\<close>

lemma low_int_small: "uint w < 2 ^ 31 \<Longrightarrow> low_int w = uint w"
proof -
  assume w: "uint w < 2 ^ 31"
  have "uint (ucast w :: u32) = uint w" using w by (simp add: unsigned_ucast_eq take_bit_int_eq_self)
  moreover have "- 2147483648 \<le> uint w" by (rule order_trans [OF _ uint_ge_0]) simp
  ultimately show ?thesis
    using w by (simp add: low_int_def sint_uint signed_take_bit_int_eq_self_iff)
qed

lemma clamp_timeout_small:
  assumes "uint w < 2 ^ 31 \<or> w = - 1"
  shows "uint (clamp_timeout w) \<le> 5000 \<and> (w \<noteq> - 1 \<longrightarrow> uint (clamp_timeout w) \<le> uint w)"
proof (cases "w = - 1")
  case False
  then have u: "uint w < 2 ^ 31" using assms by simp
  have "uint (word_of_int (min (uint w) 5000) :: u64) = min (uint w) 5000"
    using u by (simp add: uint_word_of_int_eq take_bit_int_eq_self min_def)
  then show ?thesis using False by (simp add: clamp_timeout_def low_int_small [OF u])
qed (simp add: clamp_timeout_def)

lemma long_timer_waits_forever: "idle_wait [] 0x80000000 = ([- 0x80000000], None)"
  by (simp add: clamp_timeout_def low_int_def)

text \<open>
  As long as the next timer is due within \<open>2 ^ 31\<close> milliseconds, every call of
  \<^verbatim>\<open>epoll_wait\<close> has a time limit between 0 and 5000 milliseconds that does not exceed the time
  to the next timer, also when calls are interrupted by signals.
\<close>

theorem idle_wait_bounded:
  assumes "uint next_timeout < 2 ^ 31 \<or> next_timeout = - 1" and "ms \<in> set (fst (idle_wait rs next_timeout))"
  shows "0 \<le> ms \<and> ms \<le> 5000 \<and> (next_timeout \<noteq> - 1 \<longrightarrow> ms \<le> uint next_timeout)"
  using assms
proof (induction rs next_timeout rule: idle_wait.induct)
  case (1 t)
  note c = clamp_timeout_small [OF 1(1)]
  then have "low_int (clamp_timeout t) = uint (clamp_timeout t)" by (intro low_int_small) simp
  then show ?case using 1(2) c by auto
next
  case (2 ret err rs t)
  note c = clamp_timeout_small [OF "2.prems"(1)]
  then have l: "low_int (clamp_timeout t) = uint (clamp_timeout t)" by (intro low_int_small) simp
  have "uint (- 1 :: u64) = 2 ^ 64 - 1" by (simp add: uint_word_ariths)
  then have "clamp_timeout t \<noteq> - 1" using c by auto
  moreover have "uint (clamp_timeout t) < 2 ^ 31" using c by simp
  ultimately show ?case
    using "2.IH" [of "clamp_timeout t"] "2.prems"(2) l c by (auto simp: Let_def split: if_splits prod.splits)
qed

theorem idle_wait_bounded_witness:
  "0 \<le> (250 :: int) \<and> (250 :: int) \<in> set (fst (idle_wait [(- 1, EINTR), (2, 0)] 250)) \<and> (250 :: int) \<le> 5000 \<and> (250 :: int) \<le> uint (250 :: u64)"
  using idle_wait_bounded [of 250 250 "[(- 1, EINTR), (2, 0)]"]
  by (simp add: clamp_timeout_def low_int_def)





text \<open>The actions of the pool, one per wake-up of a worker.\<close>

fun pool_actions :: "nat \<Rightarrow> BlockingThreadPool \<Rightarrow> pool_action list" where
  "pool_actions 0 b = []"
| "pool_actions (Suc n) b = (let (a, b) = pool_take b in a # pool_actions n b)"

lemma pool_actions_run: "pool_actions (length (pool_tasks b) + n) b = map Pool_run (pool_tasks b) @ pool_actions n (b\<lparr>pool_tasks := []\<rparr>)"
proof (induction "pool_tasks b" arbitrary: b)
  case (Cons a x)
  then show ?case using Cons(1) [of "b\<lparr>pool_tasks := x\<rparr>"] Cons(2) [symmetric] by (simp add: pool_take_def)
next
  case Nil
  then have e: "b\<lparr>pool_tasks := []\<rparr> = b" by (cases b) simp
  show ?case unfolding e Nil [symmetric] by simp
qed

text \<open>
  Stopping the pool loses no task: the workers run everything queued before the stop, in
  the order of submission, then end; a task submitted afterwards is not queued.
\<close>

theorem pool_stop_drains:
  "pool_actions (length (pool_tasks b) + Suc n) (pool_submit task (pool_halt b)) = map Pool_run (pool_tasks b) @ replicate (Suc n) Pool_end"
proof -
  have e: "pool_actions k b' = replicate k Pool_end" if "pool_tasks b' = []" "pool_stop b'" for k b'
    using that by (induction k) (simp_all add: pool_take_def)
  have s: "pool_submit task (pool_halt b) = pool_halt b" "pool_stop (pool_halt b)" "pool_tasks (pool_halt b) = pool_tasks b"
    by (simp_all add: pool_submit_def pool_halt_def)
  show ?thesis
    using pool_actions_run [of "pool_halt b" "Suc n"] e [of "(pool_halt b)\<lparr>pool_tasks := []\<rparr>" "Suc n"] s by simp
qed

text \<open>
  An entry of \<^verbatim>\<open>epoll_wait\<close> may be older than the context: when \<^verbatim>\<open>delEvent\<close> took out one of two
  events after both were reported, the idle loop triggers the one that is gone and panics.
\<close>

lemma stale_entry_panics:
  "handle_ready True (EPOLLIN OR EPOLLOUT) 3 example_registered = Inl (Panic ''event hasn't been registed'')"
proof -
  have r: "real_events (EPOLLIN OR EPOLLOUT) (ctx_of example_registered 3) = READ OR WRITE"
    by (simp add: real_events_def event_defs)
  obtain s where "trigger 3 READ (epoll_ctl EPOLL_CTL_DEL 3 EPOLLET 3 example_registered) =
      Inr ((epoll_ctl EPOLL_CTL_DEL 3 EPOLLET 3 example_registered)\<lparr>ctx_of := (ctx_of example_registered)(3 := cleared READ (ctx_of example_registered 3)),
        io_submitted := [s], pendingEventCnt := 0\<rparr>)"
    using trigger_ok [of READ "epoll_ctl EPOLL_CTL_DEL 3 EPOLLET 3 example_registered" 3]
    by (auto simp: example_fields) (auto simp add: event_defs)
  then show ?thesis
    unfolding handle_ready_def Let_def r example_fields trigger_if_def
    by (simp add: event_defs trigger_def [of _ 4] triggerEvent_def example_fields)
qed

text \<open>
  Two threads that find the vector too short grow it one after the other, and the second
  call may make it shorter: a descriptor the first one needed is out of range again.
\<close>

lemma racing_growth_shrinks:
  "\<exists>p m. addEvent_grow 64 IOManager_new = Inr (p, m) \<and>
     (\<exists>q m'. addEvent_grow 40 m = Inr (q, m') \<and> length (fdContexts m') = 60)"
  by (auto simp: addEvent_grow_def Let_def contextResize_fields)

end
