(* ===== verification/Hook.thy ===== *)
theory Hook
  imports Fd_Manager IOManager_Safety
begin

text \<open>
  Model of \<^verbatim>\<open>hook.cpp\<close>: the system calls the runtime replaces. What the kernel answers is an
  argument of each definition: a call that may be repeated takes the list of the answers, in
  order. Then what an application sees: blocking calls that never report \<^verbatim>\<open>EAGAIN\<close>, a
  non-blocking flag that reads as it was written, and a \<^verbatim>\<open>close\<close> that releases every waiter.
\<close>

section \<open>State\<close>

text \<open>
  Whether the thread has the hooks enabled, the table of contexts, the kernel's flags, and the
  I/O manager of the thread, if it has one.
\<close>

record hook_state =
  t_hook_enable :: bool
  h_fds :: FdManager
  h_kernel :: fd_kernel
  h_io :: "IOManager option"

definition is_hook_enable :: "hook_state \<Rightarrow> bool" where
  "is_hook_enable h = t_hook_enable h"

definition set_hook_enable :: "bool \<Rightarrow> hook_state \<Rightarrow> hook_state" where
  "set_hook_enable flag h = h\<lparr>t_hook_enable := flag\<rparr>"

definition s_connect_timeout :: u64 where "s_connect_timeout = 5000"

text \<open>\<^verbatim>\<open>FdMgr::GetInstance()->get(fd)\<close> without creation.\<close>

definition ctx_lookup :: "int \<Rightarrow> hook_state \<Rightarrow> FdCtx option result" where
  "ctx_lookup fd h =
     bind_res (FdManager_get fd False (h_kernel h) (h_fds h)) (\<lambda>(p, _, _). Inr (map_option (fctx (h_fds h)) p))"

definition ctx_create :: "int \<Rightarrow> hook_state \<Rightarrow> hook_state result" where
  "ctx_create fd h =
     bind_res (FdManager_get fd True (h_kernel h) (h_fds h)) (\<lambda>(_, k, d). Inr (h\<lparr>h_kernel := k, h_fds := d\<rparr>))"

section \<open>Input and output\<close>

text \<open>
  One attempt of a system call: its result and \<^verbatim>\<open>errno\<close>; if it would block, what \<^verbatim>\<open>addEvent\<close>
  returned and the \<^verbatim>\<open>errno\<close> it left, and whether the timeout callback ran before the Fiber was
  resumed.
\<close>

record io_attempt =
  att_ret :: int
  att_errno :: errno
  att_add :: int
  att_add_errno :: errno
  att_fired :: bool

datatype io_effect = Timer_added u64 | Event_added Event | Yielded | Timer_cancelled

text \<open>A call that goes to the kernel once. \<open>None\<close>: it has not returned.\<close>

definition direct :: "io_attempt list \<Rightarrow> (int \<times> errno) option \<times> io_effect list" where
  "direct as = (case as of [] \<Rightarrow> None | a # _ \<Rightarrow> Some (att_ret a, att_errno a), [])"

text \<open>The attempts from the label \<^verbatim>\<open>retry\<close> on; \<open>to\<close> is the timeout of the descriptor.\<close>

fun do_io_loop :: "bool \<Rightarrow> Event \<Rightarrow> u64 \<Rightarrow> io_attempt list \<Rightarrow> ((int \<times> errno) option \<times> io_effect list) result" where
  "do_io_loop has_iom event to [] = Inr (None, [])"
| "do_io_loop has_iom event to (a # as) =
     (if att_ret a = - 1 \<and> att_errno a = EINTR then do_io_loop has_iom event to as
      else if att_ret a = - 1 \<and> att_errno a = EAGAIN then
        (if \<not> has_iom then Inl (Undefined ''null IOManager'')
         else
           (let timer = (to \<noteq> - 1);
                armed = (if timer then [Timer_added to] else []);
                disarmed = (if timer then [Timer_cancelled] else []) in
            if att_add a \<noteq> 0 then Inr (Some (- 1, att_add_errno a), armed @ disarmed)
            else if timer \<and> att_fired a
            then Inr (Some (- 1, ETIMEDOUT), armed @ [Event_added event, Yielded] @ disarmed)
            else bind_res (do_io_loop has_iom event to as) (\<lambda>(r, fx).
              Inr (r, armed @ [Event_added event, Yielded] @ disarmed @ fx))))
      else Inr (Some (att_ret a, att_errno a), []))"

definition do_io ::
  "int \<Rightarrow> Event \<Rightarrow> int \<Rightarrow> io_attempt list \<Rightarrow> hook_state \<Rightarrow> ((int \<times> errno) option \<times> io_effect list) result" where
  "do_io fd event timeout_so as h =
     (if \<not> t_hook_enable h then Inr (direct as)
      else
        bind_res (ctx_lookup fd h) (\<lambda>c.
          case c of
            None \<Rightarrow> Inr (direct as)
          | Some c \<Rightarrow>
              if m_isClosed c then Inr (Some (- 1, EBADF), [])
              else if \<not> m_isSocket c \<or> m_userNonblock c then Inr (direct as)
              else do_io_loop (h_io h \<noteq> None) event (getTimeout timeout_so c) as))"

text \<open>The wrappers that read and those that write.\<close>

definition hook_recv :: "int \<Rightarrow> io_attempt list \<Rightarrow> hook_state \<Rightarrow> ((int \<times> errno) option \<times> io_effect list) result" where
  "hook_recv fd as h = do_io fd READ SO_RCVTIMEO as h"

definition hook_send :: "int \<Rightarrow> io_attempt list \<Rightarrow> hook_state \<Rightarrow> ((int \<times> errno) option \<times> io_effect list) result" where
  "hook_send fd as h = do_io fd WRITE SO_SNDTIMEO as h"

text \<open>A context is created for a descriptor that a call returned.\<close>

definition hook_accept ::
  "int \<Rightarrow> io_attempt list \<Rightarrow> hook_state \<Rightarrow> ((int \<times> errno) option \<times> io_effect list \<times> hook_state) result" where
  "hook_accept s as h =
     (if \<not> t_hook_enable h then Inr (fst (direct as), [], h)
      else
        bind_res (do_io s READ SO_RCVTIMEO as h) (\<lambda>(r, fx).
          case r of
            Some (fd, e) \<Rightarrow>
              if fd \<ge> 0 then bind_res (ctx_create fd h) (\<lambda>h. Inr (r, fx, h)) else Inr (r, fx, h)
          | None \<Rightarrow> Inr (r, fx, h)))"

definition hook_socket :: "int \<Rightarrow> hook_state \<Rightarrow> (int \<times> hook_state) result" where
  "hook_socket fd h =
     (if \<not> t_hook_enable h then Inr (fd, h)
      else if fd = - 1 then Inr (fd, h)
      else bind_res (ctx_create fd h) (\<lambda>h. Inr (fd, h)))"

text \<open>
  \<^verbatim>\<open>connect_with_timeout\<close>: the first attempt is \<^verbatim>\<open>connect\<close> itself; \<open>so\<close> is the result of
  \<^verbatim>\<open>getsockopt\<close> with the pending error of the socket, or the \<^verbatim>\<open>errno\<close> it left.
\<close>

definition connect_with_timeout ::
  "int \<Rightarrow> u64 \<Rightarrow> io_attempt \<Rightarrow> int \<times> errno \<Rightarrow> hook_state \<Rightarrow> ((int \<times> errno) \<times> io_effect list) result" where
  "connect_with_timeout fd timeout_ms a so h =
     (let plain = ((att_ret a, att_errno a), []) in
      if \<not> t_hook_enable h then Inr plain
      else
        bind_res (ctx_lookup fd h) (\<lambda>c.
          case c of
            None \<Rightarrow> Inr ((- 1, EBADF), [])
          | Some c \<Rightarrow>
              if m_isClosed c then Inr ((- 1, EBADF), [])
              else if \<not> m_isSocket c then Inr plain
              else if m_userNonblock c then Inr plain
              else if att_ret a = 0 then Inr plain
              else if att_ret a \<noteq> - 1 \<or> att_errno a \<noteq> EINPROGRESS then Inr plain
              else if h_io h = None then Inl (Undefined ''null IOManager'')
              else
                (let timer = (timeout_ms \<noteq> - 1);
                     armed = (if timer then [Timer_added timeout_ms] else []);
                     disarmed = (if timer then [Timer_cancelled] else []);
                     waited = (if att_add a = 0 then [Event_added WRITE, Yielded] else []);
                     fx = armed @ waited @ disarmed in
                 if att_add a = 0 \<and> timer \<and> att_fired a then Inr ((- 1, ETIMEDOUT), fx)
                 else if fst so = - 1 then Inr ((- 1, snd so), fx)
                 else if snd so = 0 then Inr ((0, att_errno a), fx)
                 else Inr ((- 1, snd so), fx))))"

definition hook_connect ::
  "int \<Rightarrow> io_attempt \<Rightarrow> int \<times> errno \<Rightarrow> hook_state \<Rightarrow> ((int \<times> errno) \<times> io_effect list) result" where
  "hook_connect sockfd a so h = connect_with_timeout sockfd s_connect_timeout a so h"

definition hook_close :: "bool \<Rightarrow> int \<Rightarrow> int \<Rightarrow> hook_state \<Rightarrow> (int \<times> hook_state) result" where
  "hook_close ep_ok ret fd h =
     (if \<not> t_hook_enable h then Inr (ret, h)
      else
        bind_res (ctx_lookup fd h) (\<lambda>c.
          case c of
            None \<Rightarrow> Inr (ret, h)
          | Some _ \<Rightarrow>
              bind_res (case h_io h of
                          None \<Rightarrow> Inr h
                        | Some m \<Rightarrow> bind_res (cancelAll ep_ok fd m) (\<lambda>(_, m). Inr (h\<lparr>h_io := Some m\<rparr>))) (\<lambda>h.
                bind_res (FdManager_del fd (h_fds h)) (\<lambda>d. Inr (ret, h\<lparr>h_fds := d\<rparr>)))))"

section \<open>Sleeping\<close>

text \<open>
  The milliseconds of the timer: \<^verbatim>\<open>seconds * 1000\<close> is a 32-bit product; the sum of
  \<^verbatim>\<open>nanosleep\<close> is narrowed to \<^verbatim>\<open>int\<close> and then widened.
\<close>

definition sleep_ms :: "u32 \<Rightarrow> u64" where
  "sleep_ms seconds = ucast (seconds * 1000)"

definition usleep_ms :: "u32 \<Rightarrow> u64" where
  "usleep_ms usec = ucast (usec div 1000)"

definition nanosleep_ms :: "int \<Rightarrow> int \<Rightarrow> u64" where
  "nanosleep_ms tv_sec tv_nsec = scast (word_of_int (tv_sec * 1000 + sgn tv_nsec * (\<bar>tv_nsec\<bar> div 1000 div 1000)) :: u32)"

text \<open>
  A hooked sleep adds a one-shot timer whose callback \<open>wake\<close> submits the Fiber to its thread,
  yields and returns 0; \<open>ret\<close> is what the kernel's call returns. \<open>p\<close> is the new timer.
\<close>

definition sleep_timer :: "clock \<Rightarrow> timer_id \<Rightarrow> tcallback \<Rightarrow> u64 \<Rightarrow> bool \<Rightarrow> TimerManager \<Rightarrow> (int \<times> TimerManager) result" where
  "sleep_timer clk p wake ms has_iom tm =
     (if \<not> has_iom then Inl (Undefined ''null IOManager'')
      else Inr (0, fst (addTimer clk p ms wake False tm)))"

definition hook_sleep ::
  "clock \<Rightarrow> timer_id \<Rightarrow> tcallback \<Rightarrow> int \<Rightarrow> u32 \<Rightarrow> hook_state \<Rightarrow> TimerManager \<Rightarrow> (int \<times> TimerManager) result" where
  "hook_sleep clk p wake ret seconds h tm =
     (if \<not> t_hook_enable h then Inr (ret, tm) else sleep_timer clk p wake (sleep_ms seconds) (h_io h \<noteq> None) tm)"

definition hook_usleep ::
  "clock \<Rightarrow> timer_id \<Rightarrow> tcallback \<Rightarrow> u32 \<Rightarrow> hook_state \<Rightarrow> TimerManager \<Rightarrow> (int \<times> TimerManager) result" where
  "hook_usleep clk p wake usec h tm =
     (if \<not> t_hook_enable h then Inr (0, tm)
      else if usec = 0 then Inr (0, tm)
      else sleep_timer clk p wake (usleep_ms usec) (h_io h \<noteq> None) tm)"

definition hook_nanosleep ::
  "clock \<Rightarrow> timer_id \<Rightarrow> tcallback \<Rightarrow> int \<Rightarrow> int \<Rightarrow> int \<Rightarrow> hook_state \<Rightarrow> TimerManager \<Rightarrow> (int \<times> TimerManager) result" where
  "hook_nanosleep clk p wake ret tv_sec tv_nsec h tm =
     (if \<not> t_hook_enable h then Inr (ret, tm)
      else sleep_timer clk p wake (nanosleep_ms tv_sec tv_nsec) (h_io h \<noteq> None) tm)"

section \<open>Flags and options\<close>

text \<open>
  What the kernel does with the status flags: it changes the flags that may be changed
  (\<^verbatim>\<open>O_APPEND\<close>, \<^verbatim>\<open>O_NONBLOCK\<close>, \<^verbatim>\<open>O_ASYNC\<close>, \<^verbatim>\<open>O_DIRECT\<close>, \<^verbatim>\<open>O_NOATIME\<close>) and keeps the others. A call on
  a descriptor that is not open returns \<open>-1\<close>.
\<close>

definition SETFL_MASK :: u32 where "SETFL_MASK = 0x46C00"

definition kernel_setfl :: "int \<Rightarrow> u32 \<Rightarrow> fd_kernel \<Rightarrow> u32 \<times> fd_kernel" where
  "kernel_setfl fd arg k =
     (if fd_stat k fd = None then (- 1, k)
      else (0, k\<lparr>fd_flags := (fd_flags k)(fd := (fd_flags k fd AND NOT SETFL_MASK) OR (arg AND SETFL_MASK))\<rparr>))"

definition kernel_getfl :: "int \<Rightarrow> fd_kernel \<Rightarrow> u32" where
  "kernel_getfl fd k = (if fd_stat k fd = None then - 1 else fd_flags k fd)"

text \<open>
  The commands of \<^verbatim>\<open>fcntl\<close>: the two the runtime interprets, and those it hands on with a number,
  with a pointer, or without argument; \<open>ret\<close> is the kernel's result of the latter.
\<close>

datatype fcntl_cmd = F_SETFL u32 | F_GETFL | F_number int int | F_pointer int addr | F_plain int

definition update_ctx :: "int \<Rightarrow> (FdCtx \<Rightarrow> FdCtx) \<Rightarrow> hook_state \<Rightarrow> hook_state" where
  "update_ctx fd f h =
     (case m_datas (h_fds h) ! nat fd of
        Some p \<Rightarrow> h\<lparr>h_fds := (h_fds h)\<lparr>fctx := (fctx (h_fds h))(p := f (fctx (h_fds h) p))\<rparr>\<rparr>
      | None \<Rightarrow> h)"

definition setUserNonblock :: "bool \<Rightarrow> FdCtx \<Rightarrow> FdCtx" where
  "setUserNonblock v c = c\<lparr>m_userNonblock := v\<rparr>"

definition hook_fcntl :: "u32 \<Rightarrow> int \<Rightarrow> fcntl_cmd \<Rightarrow> hook_state \<Rightarrow> (u32 \<times> hook_state) result" where
  "hook_fcntl ret fd cmd h =
     (case cmd of
        F_SETFL arg \<Rightarrow>
          bind_res (ctx_lookup fd h) (\<lambda>c.
            let sys = (\<lambda>arg h. case kernel_setfl fd arg (h_kernel h) of (r, k) \<Rightarrow> Inr (r, h\<lparr>h_kernel := k\<rparr>)) in
            case c of
              None \<Rightarrow> sys arg h
            | Some c \<Rightarrow>
                if m_isClosed c \<or> \<not> m_isSocket c then sys arg h
                else
                  (let h = update_ctx fd (setUserNonblock (arg AND O_NONBLOCK \<noteq> 0)) h;
                       arg = (if m_sysNonblock c then arg OR O_NONBLOCK else arg AND NOT O_NONBLOCK) in
                   sys arg h))
      | F_GETFL \<Rightarrow>
          (let arg = kernel_getfl fd (h_kernel h) in
           bind_res (ctx_lookup fd h) (\<lambda>c.
             case c of
               None \<Rightarrow> Inr (arg, h)
             | Some c \<Rightarrow>
                 if m_isClosed c \<or> \<not> m_isSocket c then Inr (arg, h)
                 else if m_userNonblock c then Inr (arg OR O_NONBLOCK, h)
                 else Inr (arg AND NOT O_NONBLOCK, h)))
      | _ \<Rightarrow> Inr (ret, h))"

text \<open>\<^verbatim>\<open>ioctl\<close>: \<open>Some v\<close> is the request \<^verbatim>\<open>FIONBIO\<close> with the number \<open>v\<close>, which the kernel obeys.\<close>

definition kernel_fionbio :: "int \<Rightarrow> int \<Rightarrow> fd_kernel \<Rightarrow> fd_kernel" where
  "kernel_fionbio fd v k =
     (if fd_stat k fd = None then k
      else k\<lparr>fd_flags := (fd_flags k)(fd := (if v \<noteq> 0 then fd_flags k fd OR O_NONBLOCK else fd_flags k fd AND NOT O_NONBLOCK))\<rparr>)"

definition hook_ioctl :: "int \<Rightarrow> int option \<Rightarrow> hook_state \<Rightarrow> hook_state result" where
  "hook_ioctl d req h =
     (case req of
        None \<Rightarrow> Inr h
      | Some v \<Rightarrow>
          bind_res (ctx_lookup d h) (\<lambda>c.
            let sys = (\<lambda>h. Inr (h\<lparr>h_kernel := kernel_fionbio d v (h_kernel h)\<rparr>)) in
            case c of
              None \<Rightarrow> sys h
            | Some c \<Rightarrow>
                if m_isClosed c \<or> \<not> m_isSocket c then sys h
                else sys (update_ctx d (setUserNonblock (v \<noteq> 0)) h)))"

text \<open>\<^verbatim>\<open>setsockopt\<close> remembers the timeouts; the value of the others is not looked at.\<close>

definition SOL_SOCKET :: int where "SOL_SOCKET = 1"

definition timeval_ms :: "int \<Rightarrow> int \<Rightarrow> u64" where
  "timeval_ms tv_sec tv_usec = word_of_int (tv_sec * 1000 + sgn tv_usec * (\<bar>tv_usec\<bar> div 1000))"

definition hook_setsockopt :: "int \<Rightarrow> int \<Rightarrow> int \<Rightarrow> int \<times> int \<Rightarrow> hook_state \<Rightarrow> hook_state result" where
  "hook_setsockopt sockfd level optname v h =
     (if \<not> t_hook_enable h then Inr h
      else if level = SOL_SOCKET \<and> (optname = SO_RCVTIMEO \<or> optname = SO_SNDTIMEO) then
        bind_res (ctx_lookup sockfd h) (\<lambda>c.
          Inr (case c of
                 None \<Rightarrow> h
               | Some _ \<Rightarrow> update_ctx sockfd (setTimeout optname (timeval_ms (fst v) (snd v))) h))
      else Inr h)"

section \<open>What an application sees\<close>

definition socket_ctx :: "FdCtx \<Rightarrow> bool" where
  "socket_ctx c \<longleftrightarrow> \<not> m_isClosed c \<and> m_isSocket c"

definition attempt_final :: "u64 \<Rightarrow> io_attempt \<Rightarrow> bool" where
  "attempt_final to a \<longleftrightarrow> \<not> (att_ret a = - 1 \<and> (att_errno a = EINTR \<or> att_errno a = EAGAIN \<and> \<not> (to \<noteq> - 1 \<and> att_fired a)))"

lemma do_io_loop_result:
  assumes "\<forall>a \<in> set as. att_add a = 0"
  shows "\<exists>r fx. do_io_loop True event to as = Inr (r, fx) \<and>
    (r = None \<longleftrightarrow> (\<forall>a \<in> set as. \<not> attempt_final to a)) \<and>
    (\<forall>n e. r = Some (n, e) \<longrightarrow> \<not> (n = - 1 \<and> (e = EAGAIN \<or> e = EINTR)) \<and>
       ((\<exists>a \<in> set as. n = att_ret a \<and> e = att_errno a) \<or> n = - 1 \<and> e = ETIMEDOUT \<and> to \<noteq> - 1)) \<and>
    count_list fx (Timer_added to) = count_list fx Timer_cancelled \<and>
    count_list fx (Event_added event) = count_list fx Yielded"
  using assms
proof (induction as)
  case Nil
  then show ?case by simp
next
  case (Cons a as)
  then obtain r fx where ih: "do_io_loop True event to as = Inr (r, fx)"
    "r = None \<longleftrightarrow> (\<forall>a \<in> set as. \<not> attempt_final to a)"
    "\<forall>n e. r = Some (n, e) \<longrightarrow> \<not> (n = - 1 \<and> (e = EAGAIN \<or> e = EINTR)) \<and>
       ((\<exists>a \<in> set as. n = att_ret a \<and> e = att_errno a) \<or> n = - 1 \<and> e = ETIMEDOUT \<and> to \<noteq> - 1)"
    "count_list fx (Timer_added to) = count_list fx Timer_cancelled"
    "count_list fx (Event_added event) = count_list fx Yielded"
    by auto
  have e: "EAGAIN \<noteq> EINTR" "ETIMEDOUT \<noteq> EAGAIN" "ETIMEDOUT \<noteq> EINTR" by (simp_all add: errno_defs)
  consider (intr) "att_ret a = - 1" "att_errno a = EINTR"
    | (wait) "att_ret a = - 1" "att_errno a = EAGAIN" "\<not> (to \<noteq> - 1 \<and> att_fired a)"
    | (fired) "att_ret a = - 1" "att_errno a = EAGAIN" "to \<noteq> - 1" "att_fired a"
    | (last) "\<not> (att_ret a = - 1 \<and> (att_errno a = EINTR \<or> att_errno a = EAGAIN))"
    by blast
  then show ?case
  proof cases
    case intr
    then show ?thesis using ih by (simp add: attempt_final_def)
  next
    case wait
    then show ?thesis using ih e Cons.prems by (cases "to = - 1") (auto simp: attempt_final_def)
  next
    case fired
    then show ?thesis using e Cons.prems by (simp add: attempt_final_def)
  next
    case last
    then have "do_io_loop True event to (a # as) = Inr (Some (att_ret a, att_errno a), [])" "attempt_final to a"
      by (auto simp: attempt_final_def)
    then show ?thesis using last by auto
  qed
qed

text \<open>
  C30: A hooked call on a socket the application uses in blocking mode behaves as a blocking
  call. Whatever the kernel answers, it never returns \<^verbatim>\<open>EAGAIN\<close> or \<^verbatim>\<open>EINTR\<close>; it returns an answer
  of the kernel, or \<^verbatim>\<open>ETIMEDOUT\<close> and then only if a timeout is set; it returns as soon as there is
  a final answer; every timer it armed is cancelled and it yields once for every event it
  registers.
\<close>

theorem hooked_io_blocks:
  assumes "t_hook_enable h" and "h_io h \<noteq> None" and "ctx_lookup fd h = Inr (Some c)" and "socket_ctx c"
    and "\<not> m_userNonblock c" and "\<forall>a \<in> set as. att_add a = 0" and "to = getTimeout so c"
  shows "\<exists>r fx. do_io fd event so as h = Inr (r, fx) \<and>
    (r = None \<longleftrightarrow> (\<forall>a \<in> set as. \<not> attempt_final to a)) \<and>
    (\<forall>n e. r = Some (n, e) \<longrightarrow> \<not> (n = - 1 \<and> (e = EAGAIN \<or> e = EINTR)) \<and>
       ((\<exists>a \<in> set as. n = att_ret a \<and> e = att_errno a) \<or> n = - 1 \<and> e = ETIMEDOUT \<and> to \<noteq> - 1)) \<and>
    count_list fx (Timer_added to) = count_list fx Timer_cancelled \<and>
    count_list fx (Event_added event) = count_list fx Yielded"
  using assms do_io_loop_result [of as event to] by (simp add: do_io_def socket_ctx_def)

definition example_kernel :: fd_kernel where
  "example_kernel = \<lparr>fd_stat = (\<lambda>fd. if fd = 5 then Some True else None), fd_flags = (\<lambda>_. 2)\<rparr>"

definition example_hook :: hook_state where
  "example_hook = (case hook_socket 5 \<lparr>t_hook_enable = True, h_fds = FdManager_new, h_kernel = example_kernel, h_io = Some IOManager_new\<rparr> of
     Inr (fd, h) \<Rightarrow> h)"

definition example_ctx :: FdCtx where
  "example_ctx = \<lparr>m_isInit = True, m_isSocket = True, m_sysNonblock = True, m_userNonblock = False, m_isClosed = False,
     m_fd = 5, m_recvTimeout = - 1, m_sendTimeout = - 1\<rparr>"

lemma example_hook_eq:
  "example_hook = \<lparr>t_hook_enable = True,
     h_fds = FdManager_new\<lparr>m_datas := (replicate 64 None)[5 := Some 0], fctx := (fctx FdManager_new)(0 := example_ctx), fctx_next := 1\<rparr>,
     h_kernel = example_kernel\<lparr>fd_flags := (\<lambda>_. 2)(5 := 0x802)\<rparr>, h_io = Some IOManager_new\<rparr>"
  by (simp add: example_hook_def hook_socket_def ctx_create_def FdManager_get_def get_lookup_def get_create_def FdManager_new_def
      FdCtx_new_def FdCtx_init_def example_kernel_def Let_def O_NONBLOCK_def example_ctx_def)

lemma example_lookup: "ctx_lookup 5 example_hook = Inr (Some example_ctx)"
  by (simp add: example_hook_eq ctx_lookup_def FdManager_get_def get_lookup_def FdManager_new_def Let_def)

definition example_attempts :: "io_attempt list" where
  "example_attempts =
     [\<lparr>att_ret = - 1, att_errno = EINTR, att_add = 0, att_add_errno = 0, att_fired = False\<rparr>,
      \<lparr>att_ret = - 1, att_errno = EAGAIN, att_add = 0, att_add_errno = 0, att_fired = False\<rparr>,
      \<lparr>att_ret = 12, att_errno = 0, att_add = 0, att_add_errno = 0, att_fired = False\<rparr>]"

theorem hooked_io_blocks_witness:
  "\<exists>r fx. hook_recv 5 example_attempts example_hook = Inr (Some r, fx) \<and> count_list fx (Event_added READ) = count_list fx Yielded"
proof -
  have "\<forall>a \<in> set example_attempts. att_add a = 0" by (simp add: example_attempts_def)
  moreover have "t_hook_enable example_hook" "h_io example_hook \<noteq> None" by (simp_all add: example_hook_eq)
  moreover have "socket_ctx example_ctx" "\<not> m_userNonblock example_ctx" "- 1 = getTimeout SO_RCVTIMEO example_ctx"
    by (simp_all add: example_ctx_def socket_ctx_def getTimeout_def)
  ultimately have "\<exists>r fx. do_io 5 READ SO_RCVTIMEO example_attempts example_hook = Inr (r, fx) \<and>
      (r = None \<longleftrightarrow> (\<forall>a \<in> set example_attempts. \<not> attempt_final (- 1) a)) \<and>
      count_list fx (Event_added READ) = count_list fx Yielded"
    using hooked_io_blocks [OF _ _ example_lookup, of example_attempts "- 1" SO_RCVTIMEO READ] by blast
  then obtain r fx where r: "do_io 5 READ SO_RCVTIMEO example_attempts example_hook = Inr (r, fx)"
      "r = None \<longleftrightarrow> (\<forall>a \<in> set example_attempts. \<not> attempt_final (- 1) a)" "count_list fx (Event_added READ) = count_list fx Yielded"
    by blast
  have "r \<noteq> None" unfolding r(2) by (simp add: example_attempts_def attempt_final_def errno_defs)
  then show ?thesis using r(1,3) by (auto simp: hook_recv_def)
qed

section \<open>Flags\<close>

lemma ctx_lookup_Some:
  assumes "ctx_lookup fd h = Inr (Some c)"
  obtains p where "0 \<le> fd" "nat fd < length (m_datas (h_fds h))" "m_datas (h_fds h) ! nat fd = Some p" "c = fctx (h_fds h) p"
  using assms
  by (auto simp: ctx_lookup_def FdManager_get_def get_lookup_def bind_res_Inr_iff Let_def split: if_splits option.splits)

lemma ctx_lookup_update:
  assumes "ctx_lookup fd h = Inr (Some c)"
  shows "ctx_lookup fd (update_ctx fd f h) = Inr (Some (f c))" "h_kernel (update_ctx fd f h) = h_kernel h"
    "t_hook_enable (update_ctx fd f h) = t_hook_enable h" "h_io (update_ctx fd f h) = h_io h"
  using assms
  by (rule ctx_lookup_Some,
      simp add: ctx_lookup_def FdManager_get_def get_lookup_def update_ctx_def Let_def)+

lemma ctx_lookup_kernel: "ctx_lookup fd (h\<lparr>h_kernel := k\<rparr>) = ctx_lookup fd h"
proof -
  have "get_lookup fd False (h_fds h) \<noteq> Inr None" by (simp add: get_lookup_def Let_def)
  then show ?thesis
    by (auto simp: ctx_lookup_def FdManager_get_def bind_res_def split: sum.splits option.splits)
qed

lemma nonblock_kept: "((f AND NOT SETFL_MASK) OR ((arg OR O_NONBLOCK) AND SETFL_MASK)) AND O_NONBLOCK \<noteq> 0" for arg :: u32
proof -
  have "SETFL_MASK AND O_NONBLOCK = O_NONBLOCK" by (simp add: SETFL_MASK_def O_NONBLOCK_def)
  then have "((f AND NOT SETFL_MASK) OR ((arg OR O_NONBLOCK) AND SETFL_MASK)) AND O_NONBLOCK = O_NONBLOCK"
    by (auto simp: bit_eq_iff bit_and_iff bit_or_iff bit_not_iff)
  then show ?thesis by (simp add: O_NONBLOCK_def)
qed

text \<open>
  C31: On a hooked socket the application's view of the flags and the kernel's differ only in
  \<^verbatim>\<open>O_NONBLOCK\<close>. After \<^verbatim>\<open>fcntl(fd, F_SETFL, arg)\<close> the kernel keeps the socket non-blocking, and
  \<^verbatim>\<open>F_GETFL\<close> returns \<^verbatim>\<open>O_NONBLOCK\<close> exactly if it is in \<^verbatim>\<open>arg\<close>, together with the other flags the
  kernel has.
\<close>

theorem fcntl_flags_roundtrip:
  assumes "ctx_lookup fd h = Inr (Some c)" and "socket_ctx c" and "m_sysNonblock c" and "fd_stat (h_kernel h) fd \<noteq> None"
  shows "\<exists>h' v. hook_fcntl ret fd (F_SETFL arg) h = Inr (0, h') \<and> hook_fcntl ret fd F_GETFL h' = Inr (v, h') \<and>
    fd_flags (h_kernel h') fd AND O_NONBLOCK \<noteq> 0 \<and> v AND O_NONBLOCK = arg AND O_NONBLOCK \<and>
    v AND NOT O_NONBLOCK = fd_flags (h_kernel h') fd AND NOT O_NONBLOCK"
proof -
  let ?h = "update_ctx fd (setUserNonblock (arg AND O_NONBLOCK \<noteq> 0)) h"
  let ?k = "snd (kernel_setfl fd (arg OR O_NONBLOCK) (h_kernel h))"
  let ?h' = "?h\<lparr>h_kernel := ?k\<rparr>"
  let ?f = "fd_flags ?k fd"
  let ?v = "if arg AND O_NONBLOCK \<noteq> 0 then ?f OR O_NONBLOCK else ?f AND NOT O_NONBLOCK"
  have l: "ctx_lookup fd ?h' = Inr (Some (setUserNonblock (arg AND O_NONBLOCK \<noteq> 0) c))"
    unfolding ctx_lookup_kernel by (rule ctx_lookup_update [OF assms(1)])
  have st: "fd_stat ?k fd \<noteq> None" using assms(4) by (simp add: kernel_setfl_def)
  have "hook_fcntl ret fd (F_SETFL arg) h = Inr (0, ?h')"
    using assms ctx_lookup_update(2) [OF assms(1)]
    by (auto simp: hook_fcntl_def socket_ctx_def Let_def kernel_setfl_def)
  moreover have "hook_fcntl ret fd F_GETFL ?h' = Inr (?v, ?h')"
    using assms(2) l st by (auto simp: hook_fcntl_def socket_ctx_def kernel_getfl_def setUserNonblock_def)
  moreover have "?f AND O_NONBLOCK \<noteq> 0"
    using assms(4) nonblock_kept by (auto simp: kernel_setfl_def)
  moreover have "?v AND O_NONBLOCK = arg AND O_NONBLOCK"
  proof (cases "arg AND O_NONBLOCK = 0")
    case True
    then show ?thesis by (simp add: bit_eq_iff bit_and_iff bit_not_iff)
  next
    case False
    have p: "O_NONBLOCK = 2 ^ 11" by (simp add: O_NONBLOCK_def)
    have "bit arg 11" using False and_exp_eq_0_iff_not_bit [of arg 11] unfolding p by simp
    then have "arg AND O_NONBLOCK = O_NONBLOCK" unfolding p by (intro bit_eqI) (auto simp: bit_and_iff bit_exp_iff simp del: power_numeral)
    then show ?thesis using False by (auto simp: bit_eq_iff bit_and_iff bit_or_iff)
  qed
  moreover have "?v AND NOT O_NONBLOCK = ?f AND NOT O_NONBLOCK"
    by (auto simp: bit_eq_iff bit_and_iff bit_or_iff bit_not_iff)
  ultimately show ?thesis by auto
qed

theorem fcntl_flags_roundtrip_witness:
  "\<exists>h' v. hook_fcntl 0 5 (F_SETFL 0x800) example_hook = Inr (0, h') \<and> hook_fcntl 0 5 F_GETFL h' = Inr (v, h') \<and>
    fd_flags (h_kernel h') 5 AND O_NONBLOCK \<noteq> 0 \<and> v AND O_NONBLOCK = 0x800"
  using fcntl_flags_roundtrip [OF example_lookup, of 0 "0x800"]
  by (simp add: example_ctx_def socket_ctx_def example_hook_eq example_kernel_def O_NONBLOCK_def) blast

section \<open>Closing\<close>

lemma cancelAll_ok:
  assumes inv: "io_inv S" and fd: "0 \<le> fd" "nat fd < length (fdContexts (io S))" and p: "p = fdContexts (io S) ! nat fd"
    and sched: "\<forall>e \<in> {READ, WRITE}. fc_events (ctx_of (io S) p) AND e \<noteq> 0 \<longrightarrow> ec_scheduler (slot e (ctx_of (io S) p)) \<noteq> None"
  shows "\<exists>r m'. cancelAll True fd (io S) = Inr (r, m') \<and> fc_events (ctx_of m' p) = 0 \<and> io_inv (S\<lparr>io := m'\<rparr>) \<and>
    map tag (io_submitted m') = map tag (io_submitted (io S)) @
      map (\<lambda>e. waiter (slot e (ctx_of (io S) p))) (rw_events (fc_events (ctx_of (io S) p)))"
proof -
  let ?c = "ctx_of (io S) p" let ?m = "epoll_ctl EPOLL_CTL_DEL (nat fd) 0 p (io S)"
  have pn: "p < ctx_next (io S)" "fc_fd ?c = nat fd" using io_invD(1) [OF inv] fd p by (simp_all add: vector_ok_def)
  have ok: "ctx_ok ?c" by (rule io_invD(2) [OF inv pn(1)])
  then have v: "fc_events ?c \<in> {0, 1, 4, 5}" by (simp add: ctx_ok_def)
  have "\<exists>m'. triggers p (rw_events (fc_events ?c)) ?m = Inr m' \<and>
      map tag (io_submitted m') = map tag (io_submitted ?m) @ map (\<lambda>e. waiter (slot e (ctx_of ?m p))) (rw_events (fc_events ?c))"
    by (rule triggers_ok) (use ok sched in \<open>auto simp: rw_events_def event_defs\<close>)
  then obtain m' where m': "triggers p (rw_events (fc_events ?c)) ?m = Inr m'"
      "map tag (io_submitted m') = map tag (io_submitted (io S)) @ map (\<lambda>e. waiter (slot e ?c)) (rw_events (fc_events ?c))"
    by auto
  have zero: "fc_events (ctx_of m' p) = 0"
    using triggers_result [OF m'(1)] ok rw_events_fold [OF v v] by auto
  have f: "find_ctx fd (io S) = Inr (Some p)" using fd p by (simp add: find_ctx_def)
  show ?thesis
  proof (cases "fc_events ?c = 0")
    case True
    then have "cancelAll True fd (io S) = Inr (False, io S)" by (simp add: cancelAll_def f cancelAll_at_def)
    then show ?thesis using True io_inv_same(1) [OF inv] by (auto simp: rw_events_def)
  next
    case False
    then have "cancelAll_at True p fd (io S) = Inr (True, m')"
      using cancelAll_at_eq [OF ok, of fd] m'(1) zero by simp
    moreover from this have "io_inv (S\<lparr>io := m'\<rparr>)" by (rule cancel_all_step [OF inv pn])
    ultimately show ?thesis using m'(2) zero by (auto simp: cancelAll_def f)
  qed
qed

text \<open>
  A hooked \<^verbatim>\<open>close\<close> releases the descriptor: every waiter of its context is submitted to its
  scheduler and thread, no event of the context stays registered, and the table has no
  context for the descriptor any more, so that a new descriptor with the number starts afresh.
\<close>

theorem close_releases_descriptor:
  assumes "io_step\<^sup>*\<^sup>* io_start S" and "t_hook_enable h" and "h_io h = Some (io S)" and "ctx_lookup fd h = Inr (Some c)"
    and "nat fd < length (fdContexts (io S))" and "p = fdContexts (io S) ! nat fd"
    and "\<forall>e \<in> {READ, WRITE}. fc_events (ctx_of (io S) p) AND e \<noteq> 0 \<longrightarrow> ec_scheduler (slot e (ctx_of (io S) p)) \<noteq> None"
  shows "\<exists>h' m'. hook_close True ret fd h = Inr (ret, h') \<and> h_io h' = Some m' \<and> ctx_lookup fd h' = Inr None \<and>
    fc_events (ctx_of m' p) = 0 \<and>
    map tag (io_submitted m') = map tag (io_submitted (io S)) @
      (if fc_events (ctx_of (io S) p) AND READ \<noteq> 0 then [waiter (fc_read (ctx_of (io S) p))] else []) @
      (if fc_events (ctx_of (io S) p) AND WRITE \<noteq> 0 then [waiter (fc_write (ctx_of (io S) p))] else [])"
proof -
  obtain q where q: "0 \<le> fd" "nat fd < length (m_datas (h_fds h))"
    by (rule ctx_lookup_Some [OF assms(4)]) (rule that)
  obtain r m' where m': "cancelAll True fd (io S) = Inr (r, m')" "fc_events (ctx_of m' p) = 0"
    "map tag (io_submitted m') = map tag (io_submitted (io S)) @
      map (\<lambda>e. waiter (slot e (ctx_of (io S) p))) (rw_events (fc_events (ctx_of (io S) p)))"
    using cancelAll_ok [OF manager.inv_reachable [OF refl assms(1)] q(1) assms(5,6,7)] by blast
  let ?h = "h\<lparr>h_io := Some m', h_fds := (h_fds h)\<lparr>m_datas := (m_datas (h_fds h))[nat fd := None]\<rparr>\<rparr>"
  have "hook_close True ret fd h = Inr (ret, ?h)"
    using assms(2-4) m'(1) q by (simp add: hook_close_def FdManager_del_def)
  moreover have "ctx_lookup fd ?h = Inr None"
    using q by (simp add: ctx_lookup_def FdManager_get_def get_lookup_def Let_def)
  moreover have "slot READ x = fc_read x" "slot WRITE x = fc_write x" for x
    by (simp_all add: slot_def READ_def WRITE_def)
  ultimately show ?thesis using m'(2,3) by (auto simp: rw_events_def)
qed

definition example_open :: hook_state where
  "example_open = example_hook\<lparr>h_io := Some example_registered,
     h_fds := (h_fds example_hook)\<lparr>m_datas := (m_datas (h_fds example_hook))[3 := Some 0]\<rparr>\<rparr>"

theorem close_releases_descriptor_witness:
  "\<exists>h' m'. hook_close True 0 3 example_open = Inr (0, h') \<and> h_io h' = Some m' \<and> ctx_lookup 3 h' = Inr None \<and>
    map tag (io_submitted m') = [(Some 1, RunFiber (Some 9), 77)]"
proof -
  have l: "ctx_lookup 3 example_open = Inr (Some example_ctx)" "t_hook_enable example_open" "h_io example_open = Some (io example_io)"
    by (simp_all add: example_open_def example_hook_eq ctx_lookup_def FdManager_get_def get_lookup_def FdManager_new_def Let_def
        example_io_def nth_list_update)
  have p: "nat 3 < length (fdContexts (io example_io))" "3 = fdContexts (io example_io) ! nat 3"
    by (simp_all add: example_io_def example_vector)
  have e: "\<forall>e \<in> {READ, WRITE}. fc_events (ctx_of (io example_io) 3) AND e \<noteq> 0 \<longrightarrow> ec_scheduler (slot e (ctx_of (io example_io) 3)) \<noteq> None"
    by (auto simp: example_io_def example_fields) (simp add: event_defs)
  have w: "waiter (fc_read (ctx_of example_registered 3)) = (Some 1, RunFiber (Some 9), 77)"
    using example_fields(7) by (simp add: slot_def waiter_def)
  from close_releases_descriptor [OF example_io_reachable l(2,3,1) p e, of 0] show ?thesis
    unfolding example_io_def by (simp add: example_fields) (auto simp: event_defs w)
qed

section \<open>Sleeping\<close>

text \<open>
  A sleep of up to 4294967 seconds gets the right timer. A longer one wraps: 4294968 seconds
  become less than a second. A microsecond sleep below a millisecond gets a timer of 0.
\<close>

lemma sleep_ms_exact: "seconds \<le> 4294967 \<Longrightarrow> sleep_ms seconds = ucast seconds * 1000"
proof -
  assume "seconds \<le> 4294967"
  then have "uint seconds \<le> 4294967" by (simp add: word_le_def)
  then have s: "uint (seconds * 1000) = uint seconds * 1000"
    by (simp add: uint_word_ariths(3))
  have "uint (sleep_ms seconds) = uint seconds * 1000"
    unfolding sleep_ms_def using s \<open>uint seconds \<le> 4294967\<close> by (simp add: unsigned_ucast_eq take_bit_int_eq_self)
  moreover have "uint (ucast seconds * 1000 :: u64) = uint seconds * 1000"
    using \<open>uint seconds \<le> 4294967\<close> by (simp add: uint_word_ariths(3) unsigned_ucast_eq take_bit_int_eq_self)
  ultimately show ?thesis by (simp add: word_uint_eq_iff)
qed

lemma long_sleep_wraps: "sleep_ms 4294968 = 704"
  by (simp add: sleep_ms_def)

lemma long_nanosleep_wraps: "nanosleep_ms 2147484 0 = - 2147483296"
  by (simp add: nanosleep_ms_def)

section \<open>Divergences\<close>

text \<open>
  \<^verbatim>\<open>FIONBIO\<close> with 0 reaches the kernel, which makes the socket blocking while the runtime still
  believes it is not: a hooked call then blocks the whole thread.
\<close>

lemma fionbio_makes_kernel_block:
  "\<exists>h. hook_ioctl 5 (Some 0) example_hook = Inr h \<and> fd_flags (h_kernel h) 5 AND O_NONBLOCK = 0 \<and>
     (\<exists>c. ctx_lookup 5 h = Inr (Some c) \<and> m_sysNonblock c \<and> \<not> m_userNonblock c)"
proof -
  let ?h = "update_ctx 5 (setUserNonblock False) example_hook"
  have "hook_ioctl 5 (Some 0) example_hook = Inr (?h\<lparr>h_kernel := kernel_fionbio 5 0 (h_kernel ?h)\<rparr>)"
    by (simp add: hook_ioctl_def example_lookup) (simp add: example_ctx_def)
  moreover have "fd_flags (kernel_fionbio 5 0 (h_kernel ?h)) 5 AND O_NONBLOCK = 0"
    unfolding ctx_lookup_update(2) [OF example_lookup]
    by (simp add: example_hook_eq kernel_fionbio_def example_kernel_def O_NONBLOCK_def)
  moreover have "ctx_lookup 5 (?h\<lparr>h_kernel := kernel_fionbio 5 0 (h_kernel ?h)\<rparr>) = Inr (Some (setUserNonblock False example_ctx))"
    unfolding ctx_lookup_kernel by (rule ctx_lookup_update(1) [OF example_lookup])
  ultimately show ?thesis by (simp add: setUserNonblock_def example_ctx_def)
qed

text \<open>A zero \<^verbatim>\<open>timeval\<close>, which means no timeout, becomes a timeout of 0 milliseconds.\<close>

lemma zero_timeval_is_immediate:
  "\<exists>h. hook_setsockopt 5 SOL_SOCKET SO_RCVTIMEO (0, 0) example_hook = Inr h \<and>
     ctx_lookup 5 h = Inr (Some (example_ctx\<lparr>m_recvTimeout := 0\<rparr>))"
  using ctx_lookup_update(1) [OF example_lookup, of "setTimeout SO_RCVTIMEO 0"]
  by (simp add: hook_setsockopt_def example_lookup timeval_ms_def) (simp add: example_hook_eq setTimeout_def)

end
