(* ===== verification/Net.thy ===== *)
theory Net
  imports IOManager
begin

text \<open>
  Model of \<^verbatim>\<open>net.hpp\<close> and \<^verbatim>\<open>net.cpp\<close>: TCP connections with a bounded wait for readiness, exact
  reads and complete writes, and the server with its limit of connections. The kernel answers
  through arguments: a loop of system calls takes the list of the answers, in order, and the
  bytes the peer sends form a list that the reads consume.
\<close>

type_synonym byte = u8

section \<open>Deadlines and addresses\<close>

text \<open>
  The steady clock counts nanoseconds; \<open>None\<close> is \<^verbatim>\<open>time_point::max()\<close>. The time left is
  converted to milliseconds by truncation.
\<close>

definition Deadline :: "int \<Rightarrow> int \<Rightarrow> int option" where
  "Deadline timeout now = (if timeout < 0 then None else Some (now + timeout * 1000000))"

definition remaining_ms :: "int \<Rightarrow> int \<Rightarrow> u64" where
  "remaining_ms deadline now =
     (let remaining = deadline - now in
      word_of_int (max 0 (sgn remaining * (\<bar>remaining\<bar> div 1000000))))"

text \<open>\<^verbatim>\<open>htons\<close> and \<^verbatim>\<open>ntohs\<close> swap the two bytes.\<close>

type_synonym u16 = "16 word"

definition swap16 :: "u16 \<Rightarrow> u16" where
  "swap16 p = push_bit 8 p OR drop_bit 8 p"

record sockaddr_in =
  sin_port :: u16
  sin_addr :: u32

text \<open>\<open>inet_pton\<close> is the conversion of the C library; \<open>Inl\<close> gives the \<^verbatim>\<open>errno\<close>.\<close>

definition Address :: "(string \<Rightarrow> u32 option) \<Rightarrow> string \<Rightarrow> u16 \<Rightarrow> errno + sockaddr_in" where
  "Address inet_pton ip port =
     (case inet_pton ip of None \<Rightarrow> Inl EINVAL | Some a \<Rightarrow> Inr \<lparr>sin_port = swap16 port, sin_addr = a\<rparr>)"

text \<open>The results of the two calls of \<^verbatim>\<open>fcntl\<close>.\<close>

definition Nonblocking :: "int \<Rightarrow> int \<Rightarrow> bool" where
  "Nonblocking flags set_ret \<longleftrightarrow> flags \<ge> 0 \<and> set_ret = 0"

section \<open>Connections\<close>

record Connection =
  c_fd :: int
  c_reading :: bool
  c_writing :: bool
  c_closed :: bool

definition Connection_new :: "int \<Rightarrow> Connection" where
  "Connection_new fd = \<lparr>c_fd = fd, c_reading = False, c_writing = False, c_closed = False\<rparr>"

datatype net_effect = Shutdown int | CloseFd int

text \<open>\<open>ep_ok\<close> is the answer of the \<^verbatim>\<open>epoll_ctl\<close> of \<^verbatim>\<open>cancelAll\<close>.\<close>

definition Close :: "bool \<Rightarrow> Connection \<Rightarrow> IOManager \<Rightarrow> (Connection \<times> IOManager \<times> net_effect list) result" where
  "Close ep_ok c m =
     (if c_closed c then Inr (c, m, [])
      else
        (let c = c\<lparr>c_closed := True\<rparr> in
         if c_fd c \<ge> 0
         then bind_res (cancelAll ep_ok (c_fd c) m) (\<lambda>(_, m).
           Inr (c\<lparr>c_fd := - 1\<rparr>, m, [Shutdown (c_fd c), CloseFd (c_fd c)]))
         else Inr (c, m, [])))"

section \<open>Waiting for readiness\<close>

text \<open>
  The state shared by the waiting Fiber, the event and the timer: \<open>outcome\<close> is 0 while it
  waits, 1 after readiness or close, 2 after the timeout. \<open>ws_submitted\<close> lists the calls of
  \<^verbatim>\<open>Scheduler::scheduler\<close> that resume the Fiber.
\<close>

record WaitState =
  outcome :: u32
  ws_fiber :: fid
  ws_worker :: int
  ws_submitted :: "(fid \<times> int) list"

definition Finish :: "u32 \<Rightarrow> WaitState \<Rightarrow> WaitState" where
  "Finish v s =
     (if outcome s = 0
      then s\<lparr>outcome := v, ws_submitted := ws_submitted s @ [(ws_fiber s, ws_worker s)]\<rparr>
      else s)"

text \<open>
  \<^verbatim>\<open>Wait\<close> up to the \<^verbatim>\<open>yield\<close>: \<open>Inl\<close> is a failure with its \<^verbatim>\<open>errno\<close>; otherwise the state of the wait
  and the milliseconds of the timer, if any. \<open>finish\<close> names the callback that calls
  \<^verbatim>\<open>Finish(1)\<close>, \<open>err\<close> is the \<^verbatim>\<open>errno\<close> a failing \<^verbatim>\<open>addEvent\<close> leaves.
\<close>

definition Wait_begin ::
  "bool \<Rightarrow> bool \<Rightarrow> io_caller \<Rightarrow> callback \<Rightarrow> errno \<Rightarrow> Event \<Rightarrow> int option \<Rightarrow> int \<Rightarrow> Connection \<Rightarrow> IOManager \<Rightarrow>
   ((errno + WaitState \<times> u64 option) \<times> IOManager) result" where
  "Wait_begin on_owner ep_ok cl finish err event deadline now c m =
     (if \<not> on_owner then Inr (Inl EINVAL, m)
      else if c_closed c \<or> c_fd c < 0 then Inr (Inl EBADF, m)
      else
        bind_res (addEvent ep_ok cl (c_fd c) event (Some finish) m) (\<lambda>(rt, m).
          if rt \<noteq> 0 then Inr (Inl err, m)
          else Inr (Inr (\<lparr>outcome = 0, ws_fiber = io_fiber cl, ws_worker = io_thread cl, ws_submitted = []\<rparr>,
                         map_option (\<lambda>d. remaining_ms d now) deadline), m)))"

text \<open>
  The callback of the timer: the exchange of the outcome, then under the lock of the
  connection the cancellation, and the submission of the Fiber.
\<close>

definition Wait_timeout ::
  "bool \<Rightarrow> int \<Rightarrow> Event \<Rightarrow> Connection \<Rightarrow> WaitState \<Rightarrow> IOManager \<Rightarrow> (WaitState \<times> IOManager) result" where
  "Wait_timeout ep_ok fd event c s m =
     (if outcome s = 0
      then
        (let s = s\<lparr>outcome := 2\<rparr> in
         bind_res (if c_fd c = fd \<and> \<not> c_closed c
                   then bind_res (cancelEvent ep_ok fd event m) (\<lambda>(_, m). Inr m) else Inr m) (\<lambda>m.
           Inr (s\<lparr>ws_submitted := ws_submitted s @ [(ws_fiber s, ws_worker s)]\<rparr>, m)))
      else Inr (s, m))"

text \<open>The rest of \<^verbatim>\<open>Wait\<close>: \<open>None\<close> is success, \<open>Some\<close> the \<^verbatim>\<open>errno\<close> of a failure.\<close>

definition Wait_end :: "WaitState \<Rightarrow> Connection \<Rightarrow> errno option" where
  "Wait_end s c = (if outcome s = 2 then Some ETIMEDOUT else if c_closed c then Some EBADF else None)"

section \<open>Reading\<close>

text \<open>
  One attempt of \<^verbatim>\<open>recv\<close> or \<^verbatim>\<open>send\<close>: whether the connection is closed by then, what the call
  answers (the count may be any the caller has room for, and 0 at the end of the stream), and
  what the \<^verbatim>\<open>Wait\<close> after \<^verbatim>\<open>EAGAIN\<close> gives.
\<close>

datatype net_answer = Count nat | Error errno

record net_attempt =
  na_closed :: bool
  na_answer :: net_answer
  na_wait :: "errno option"

text \<open>\<open>Unfinished\<close>: the answers ran out, the call has not returned.\<close>

datatype net_result = Got "byte list" | Fail errno | Unfinished

fun DoRead :: "nat \<Rightarrow> net_attempt list \<Rightarrow> byte list \<Rightarrow> net_result \<times> net_attempt list \<times> byte list" where
  "DoRead capacity [] stream = (if capacity = 0 then (Got [], [], stream) else (Unfinished, [], stream))"
| "DoRead capacity (a # as) stream =
     (if capacity = 0 then (Got [], a # as, stream)
      else if na_closed a then (Fail EBADF, as, stream)
      else
        (case na_answer a of
           Count n \<Rightarrow> (Got (take (min n capacity) stream), as, drop (min n capacity) stream)
         | Error e \<Rightarrow>
             if e = EINTR then DoRead capacity as stream
             else if e \<noteq> EAGAIN then (Fail e, as, stream)
             else (case na_wait a of None \<Rightarrow> DoRead capacity as stream | Some e \<Rightarrow> (Fail e, as, stream))))"

lemma DoRead_consumes:
  "DoRead capacity as stream = (Got bs, as', stream') \<Longrightarrow> capacity > 0 \<Longrightarrow> length as' < length as"
  by (induction capacity as stream rule: DoRead.induct)
    (auto split: if_splits net_answer.splits option.splits)

text \<open>The loop of \<^verbatim>\<open>ReadExact\<close>: the buffer received so far is \<open>buf\<close>.\<close>

function ReadExact_loop ::
  "nat \<Rightarrow> byte list \<Rightarrow> net_attempt list \<Rightarrow> byte list \<Rightarrow> net_result \<times> byte list \<times> net_attempt list \<times> byte list" where
  "ReadExact_loop sz buf as stream =
     (if length buf < sz
      then
        (case DoRead (sz - length buf) as stream of
           (Got bs, as', stream') \<Rightarrow>
             if bs = [] then (Fail ECONNRESET, buf, as', stream')
             else ReadExact_loop sz (buf @ bs) as' stream'
         | (Fail e, as', stream') \<Rightarrow> (Fail e, buf, as', stream')
         | (Unfinished, as', stream') \<Rightarrow> (Unfinished, buf, as', stream'))
      else (Got buf, buf, as, stream))"
  by pat_completeness auto

termination
  by (relation "measure (\<lambda>(sz, buf, as, stream). length as)") (auto dest!: DoRead_consumes [OF sym])

text \<open>
  \<^verbatim>\<open>ReadSome\<close> and \<^verbatim>\<open>ReadExact\<close> with the guard against a second reader: \<open>None\<close> is the return
  with \<^verbatim>\<open>EBUSY\<close>. The flag is set before the loop and cleared after it.
\<close>

definition read_enter :: "Connection \<Rightarrow> Connection option" where
  "read_enter c = (if c_reading c then None else Some (c\<lparr>c_reading := True\<rparr>))"

definition read_leave :: "Connection \<Rightarrow> Connection" where
  "read_leave c = c\<lparr>c_reading := False\<rparr>"

definition ReadSome ::
  "nat \<Rightarrow> net_attempt list \<Rightarrow> byte list \<Rightarrow> Connection \<Rightarrow> net_result \<times> byte list \<times> Connection" where
  "ReadSome capacity as stream c =
     (case read_enter c of
        None \<Rightarrow> (Fail EBUSY, stream, c)
      | Some c \<Rightarrow> (case DoRead capacity as stream of (r, _, stream) \<Rightarrow> (r, stream, read_leave c)))"

definition ReadExact ::
  "nat \<Rightarrow> net_attempt list \<Rightarrow> byte list \<Rightarrow> Connection \<Rightarrow> net_result \<times> byte list \<times> byte list \<times> Connection" where
  "ReadExact sz as stream c =
     (case read_enter c of
        None \<Rightarrow> (Fail EBUSY, [], stream, c)
      | Some c \<Rightarrow> (case ReadExact_loop sz [] as stream of (r, buf, _, stream) \<Rightarrow> (r, buf, stream, read_leave c)))"

section \<open>Writing\<close>

text \<open>
  The loop of \<^verbatim>\<open>WriteAll\<close> on what is left of the buffer; \<open>out\<close> are the bytes the kernel has
  accepted. \<open>Got out\<close> is the return of \<^verbatim>\<open>true\<close>.
\<close>

fun WriteAll_loop :: "byte list \<Rightarrow> byte list \<Rightarrow> net_attempt list \<Rightarrow> net_result \<times> byte list" where
  "WriteAll_loop rest out [] = (if rest = [] then (Got out, out) else (Unfinished, out))"
| "WriteAll_loop rest out (a # as) =
     (if rest = [] then (Got out, out)
      else if na_closed a then (Fail EBADF, out)
      else
        (case na_answer a of
           Count n \<Rightarrow>
             if n > 0
             then WriteAll_loop (drop (min n (length rest)) rest) (out @ take (min n (length rest)) rest) as
             else (Fail EPIPE, out)
         | Error e \<Rightarrow>
             if e = EINTR then WriteAll_loop rest out as
             else if e \<noteq> EAGAIN then (Fail e, out)
             else (case na_wait a of None \<Rightarrow> WriteAll_loop rest out as | Some e \<Rightarrow> (Fail e, out))))"

definition WriteAll :: "byte list \<Rightarrow> net_attempt list \<Rightarrow> Connection \<Rightarrow> net_result \<times> byte list \<times> Connection" where
  "WriteAll buffer as c =
     (if c_writing c then (Fail EBUSY, [], c)
      else
        (let c = c\<lparr>c_writing := True\<rparr>;
             (r, out) = WriteAll_loop buffer [] as in
         (r, out, c\<lparr>c_writing := False\<rparr>)))"

section \<open>Connecting\<close>

text \<open>
  The answers \<^verbatim>\<open>Connect\<close> gets: the socket, whether it could be made non-blocking, the result of
  \<^verbatim>\<open>connect\<close> (\<open>None\<close> is 0, otherwise its \<^verbatim>\<open>errno\<close>), of the wait, and of \<^verbatim>\<open>getsockopt\<close> (\<open>Inl\<close> its
  \<^verbatim>\<open>errno\<close>, otherwise the pending error).
\<close>

record connect_answers =
  ca_socket :: "errno + int"
  ca_nonblock :: "errno option"
  ca_connect :: "errno option"
  ca_wait :: "errno option"
  ca_so_error :: "errno + errno"

definition Connect ::
  "(string \<Rightarrow> u32 option) \<Rightarrow> bool \<Rightarrow> string \<Rightarrow> u16 \<Rightarrow> connect_answers \<Rightarrow> (errno + Connection) \<times> net_effect list" where
  "Connect inet_pton on_owner ip port k =
     (if \<not> on_owner then (Inl EINVAL, [])
      else
        (case Address inet_pton ip port of
           Inl e \<Rightarrow> (Inl e, [])
         | Inr addr \<Rightarrow>
             (case ca_socket k of
                Inl e \<Rightarrow> (Inl e, [])
              | Inr fd \<Rightarrow>
                  (case ca_nonblock k of
                     Some e \<Rightarrow> (Inl e, [CloseFd fd])
                   | None \<Rightarrow>
                       (let conn = Connection_new fd;
                            dropped = [Shutdown fd, CloseFd fd] in
                        case ca_connect k of
                          None \<Rightarrow> (Inr conn, [])
                        | Some e \<Rightarrow>
                            if e \<noteq> EINPROGRESS then (Inl e, dropped)
                            else
                              (case ca_wait k of
                                 Some e \<Rightarrow> (Inl e, dropped)
                               | None \<Rightarrow>
                                   (case ca_so_error k of
                                      Inl e \<Rightarrow> (Inl e, dropped)
                                    | Inr e \<Rightarrow> if e \<noteq> 0 then (Inl e, dropped) else (Inr conn, []))))))))"

section \<open>The server\<close>

type_synonym conn_id = nat

text \<open>
  \<^verbatim>\<open>Server::State\<close>, with the connections by address. \<open>srv_connections\<close> are the weak references.
\<close>

record Server =
  srv_handler :: bool
  srv_max_connections :: u64
  srv_listener :: "conn_id option"
  srv_connections :: "conn_id list"
  srv_running :: bool
  srv_active :: u64
  srv_port :: u16
  srv_conn :: "conn_id \<Rightarrow> Connection"
  srv_next :: conn_id

definition Server_new :: "bool \<Rightarrow> u64 \<Rightarrow> Server" where
  "Server_new handler max_connections =
     \<lparr>srv_handler = handler, srv_max_connections = max_connections, srv_listener = None, srv_connections = [],
      srv_running = False, srv_active = 0, srv_port = 0, srv_conn = (\<lambda>_. Connection_new (- 1)), srv_next = 0\<rparr>"

definition new_conn :: "int \<Rightarrow> Server \<Rightarrow> conn_id \<times> Server" where
  "new_conn fd s =
     (srv_next s, s\<lparr>srv_conn := (srv_conn s)(srv_next s := Connection_new fd), srv_next := Suc (srv_next s)\<rparr>)"

text \<open>
  The answers \<^verbatim>\<open>Start\<close> gets: the socket, whether making it non-blocking, reusable, bound and
  listening succeeded, and the address of \<^verbatim>\<open>getsockname\<close>.
\<close>

record start_answers =
  sa_socket :: "errno + int"
  sa_setup :: "errno option"
  sa_sockname :: "errno + sockaddr_in"

definition Server_Start ::
  "(string \<Rightarrow> u32 option) \<Rightarrow> string \<Rightarrow> u16 \<Rightarrow> start_answers \<Rightarrow> Server \<Rightarrow> (errno option \<times> Server) \<times> net_effect list" where
  "Server_Start inet_pton ip port k s =
     (case Address inet_pton ip port of
        Inl e \<Rightarrow> ((Some e, s), [])
      | Inr addr \<Rightarrow>
          if srv_running s \<or> \<not> srv_handler s \<or> srv_max_connections s = 0 then ((Some EINVAL, s), [])
          else
            (case sa_socket k of
               Inl e \<Rightarrow> ((Some e, s), [])
             | Inr fd \<Rightarrow>
                 (case sa_setup k of
                    Some e \<Rightarrow> ((Some e, s), [CloseFd fd])
                  | None \<Rightarrow>
                      (case sa_sockname k of
                         Inl e \<Rightarrow> ((Some e, s), [CloseFd fd])
                       | Inr addr \<Rightarrow>
                           (let (l, s) = new_conn fd s in
                            ((None, s\<lparr>srv_listener := Some l, srv_port := swap16 (sin_port addr), srv_running := True\<rparr>), []))))))"

text \<open>
  One round of the accept loop after \<^verbatim>\<open>accept4\<close> returned a client: the reservation of a place
  by compare-and-exchange, then the registration of the connection. \<open>expired\<close> tells which weak
  references are dead.
\<close>

definition accept_reserve :: "Server \<Rightarrow> bool \<times> Server" where
  "accept_reserve s =
     (if srv_active s < srv_max_connections s then (True, s\<lparr>srv_active := srv_active s + 1\<rparr>) else (False, s))"

definition accept_register :: "(conn_id \<Rightarrow> bool) \<Rightarrow> int \<Rightarrow> Server \<Rightarrow> conn_id \<times> Server" where
  "accept_register expired client_fd s =
     (let (p, s) = new_conn client_fd s in
      (p, s\<lparr>srv_connections := filter (\<lambda>q. \<not> expired q) (srv_connections s) @ [p]\<rparr>))"

text \<open>What the loop does with an error of \<^verbatim>\<open>accept4\<close>, given the result of the wait.\<close>

datatype accept_next = Again | Leave

definition accept_error :: "errno \<Rightarrow> errno option \<Rightarrow> accept_next" where
  "accept_error e wait = (if e = EINTR then Again else if e = EAGAIN \<and> wait = None then Again else Leave)"

text \<open>Whether the loop goes on to \<^verbatim>\<open>accept4\<close>.\<close>

definition accept_enter :: "conn_id \<Rightarrow> Server \<Rightarrow> bool" where
  "accept_enter l s \<longleftrightarrow> srv_running s \<and> \<not> c_closed (srv_conn s l)"

text \<open>
  Closing of connections of the server; the waiters it releases are part of \<^verbatim>\<open>Close\<close> above.
\<close>

definition close_conn :: "conn_id \<Rightarrow> Server \<Rightarrow> Server" where
  "close_conn p s = s\<lparr>srv_conn := (srv_conn s)(p := (srv_conn s p)\<lparr>c_closed := True, c_fd := - 1\<rparr>)\<rparr>"

text \<open>The end of a handler that returned or threw a \<^verbatim>\<open>std::exception\<close>.\<close>

definition handler_end :: "conn_id \<Rightarrow> Server \<Rightarrow> Server" where
  "handler_end p s = (let s = close_conn p s in s\<lparr>srv_active := srv_active s - 1\<rparr>)"

definition Server_Stop :: "(conn_id \<Rightarrow> bool) \<Rightarrow> Server \<Rightarrow> Server" where
  "Server_Stop expired s =
     (if \<not> srv_running s then s
      else
        (let listener = srv_listener s;
             connections = filter (\<lambda>q. \<not> expired q) (srv_connections s);
             s = s\<lparr>srv_running := False, srv_listener := None, srv_connections := []\<rparr>;
             s = (case listener of Some l \<Rightarrow> close_conn l s | None \<Rightarrow> s) in
         (fold close_conn connections s)\<lparr>srv_port := 0\<rparr>))"

end
