(* ===== verification/Rpc.thy ===== *)
theory Rpc
  imports Net
begin

text \<open>
  Model of \<^verbatim>\<open>rpc.hpp\<close> and \<^verbatim>\<open>rpc.cpp\<close>: the framing of messages, the executor of handlers, the
  controller, the two kinds of client channel and the provider. The Protobuf library and the
  code it generates are parameters: \<open>ser\<close> and \<open>parse\<close> serialise and parse an \<^verbatim>\<open>RpcHeader\<close>, requests and
  responses are their serialised bytes. A connection is read through \<open>rd\<close>, which has the type of
  \<^verbatim>\<open>ReadExact\<close> on some state of the connection.
\<close>

section \<open>Framing\<close>

definition kMaxHeader :: nat where "kMaxHeader = 64 * 1024"
definition kMaxMessage :: nat where "kMaxMessage = 64 * 1024 * 1024"

lemma drop_bit_7_less: "(value :: u32) \<ge> 128 \<Longrightarrow> unat (drop_bit 7 value) < unat value"
  by (simp add: unat_drop_bit_eq word_le_nat_alt) (simp add: drop_bit_eq_div)

function EncodeVarint32 :: "u32 \<Rightarrow> byte list" where
  "EncodeVarint32 value =
     (if value \<ge> 128 then ucast ((value AND 0x7f) OR 0x80) # EncodeVarint32 (drop_bit 7 value)
      else [ucast value])"
  by pat_completeness auto

termination
  by (relation "measure unat") (simp_all add: drop_bit_7_less)

declare EncodeVarint32.simps [simp del]

text \<open>What an operation that reads gives: a value, a failure with its \<^verbatim>\<open>errno\<close>, or nothing yet.\<close>

datatype 'a read_out = Value 'a | Bad errno | Blocked

function ReadVarint32_loop :: "(nat \<Rightarrow> 's \<Rightarrow> net_result \<times> 's) \<Rightarrow> nat \<Rightarrow> u32 \<Rightarrow> 's \<Rightarrow> u32 read_out \<times> 's" where
  "ReadVarint32_loop rd i value s =
     (if i < 5
      then
        (case rd 1 s of
           (Fail e, s) \<Rightarrow> (Bad e, s)
         | (Unfinished, s) \<Rightarrow> (Blocked, s)
         | (Got bs, s) \<Rightarrow>
             (let byte = hd bs in
              if i = 4 \<and> byte AND 0xf0 \<noteq> 0 then (Bad EPROTO, s)
              else
                (let value = value OR push_bit (i * 7) (ucast (byte AND 0x7f)) in
                 if byte AND 0x80 = 0 then (Value value, s) else ReadVarint32_loop rd (Suc i) value s)))
      else (Bad EPROTO, s))"
  by pat_completeness auto

termination
  by (relation "measure (\<lambda>(rd, i, value, s). 5 - i)") auto

declare ReadVarint32_loop.simps [simp del]

definition ReadVarint32 :: "(nat \<Rightarrow> 's \<Rightarrow> net_result \<times> 's) \<Rightarrow> 's \<Rightarrow> u32 read_out \<times> 's" where
  "ReadVarint32 rd s = ReadVarint32_loop rd 0 0 s"

text \<open>\<^verbatim>\<open>htonl\<close> and \<^verbatim>\<open>ntohl\<close> with the bytes in memory: the most significant byte first.\<close>

definition be32 :: "u32 \<Rightarrow> byte list" where
  "be32 w = [ucast (drop_bit 24 w), ucast (drop_bit 16 w), ucast (drop_bit 8 w), ucast w]"

definition be32_value :: "byte list \<Rightarrow> u32" where
  "be32_value bs = foldl (\<lambda>w b. push_bit 8 w OR ucast b) 0 bs"

section \<open>Messages\<close>

record RpcHeader =
  service_name :: "byte list"
  method_name :: "byte list"
  args_size :: u32
  request_id :: u64
  rpc_error_text :: "byte list"

text \<open>The reasons given to \<^verbatim>\<open>Controller::SetFailed\<close>.\<close>

datatype rpc_error =
    NotInFiber
  | RequestSize
  | HeaderSize
  | Overloaded
  | ConnectFailed errno
  | SendFailed errno
  | SendUnknown errno
  | LengthReadFailed errno
  | ResponseTooLong
  | BodyReadFailed errno
  | ResponseParseFailed
  | ConnectionClosed
  | RequestTimeout
  | RemoteError "byte list"

text \<open>The texts, with \<^verbatim>\<open>std::to_string\<close> of the \<^verbatim>\<open>errno\<close>.\<close>

fun string_of_nat :: "nat \<Rightarrow> string" where
  "string_of_nat n = (if n < 10 then [] else string_of_nat (n div 10)) @ [char_of (48 + n mod 10)]"

declare string_of_nat.simps [simp del]

definition to_string :: "int \<Rightarrow> string" where
  "to_string i = (if i < 0 then ''-'' else []) @ string_of_nat (nat \<bar>i\<bar>)"

fun error_text :: "rpc_error \<Rightarrow> string" where
  "error_text NotInFiber = ''Pulsar RPC must run in its IOManager Fiber''"
| "error_text RequestSize = ''RPC request serialization or size failure''"
| "error_text HeaderSize = ''RPC header serialization or size failure''"
| "error_text Overloaded = ''Pulsar RPC connection pool overloaded''"
| "error_text (ConnectFailed e) = ''RPC connect failed: '' @ to_string e"
| "error_text (SendFailed e) = ''RPC send failed: '' @ to_string e"
| "error_text (SendUnknown e) = ''RPC send failed; outcome unknown after partial send: '' @ to_string e"
| "error_text (LengthReadFailed e) = ''RPC response length read failed: '' @ to_string e"
| "error_text ResponseTooLong = ''RPC response exceeds 64 MiB''"
| "error_text (BodyReadFailed e) = ''RPC response body read failed: '' @ to_string e"
| "error_text ResponseParseFailed = ''RPC response parse failed''"
| "error_text ConnectionClosed = ''RPC connection closed''"
| "error_text RequestTimeout = ''RPC request timeout''"
| "error_text (RemoteError text) = map (\<lambda>b. char_of (unat b)) text"

text \<open>The frame of a header and its message, with the limits both channels test.\<close>

definition encode_frame :: "(RpcHeader \<Rightarrow> byte list option) \<Rightarrow> RpcHeader \<Rightarrow> byte list \<Rightarrow> rpc_error + byte list" where
  "encode_frame ser header args =
     (case ser header of
        None \<Rightarrow> Inl HeaderSize
      | Some encoded \<Rightarrow>
          if encoded = [] \<or> length encoded > kMaxHeader \<or> length args > kMaxMessage - length encoded - 5
          then Inl HeaderSize
          else Inr (EncodeVarint32 (of_nat (length encoded)) @ encoded @ args))"

text \<open>
  The checks of \<^verbatim>\<open>CallMethod\<close> on the request: \<open>ok\<close> says that it runs in its I/O manager with all
  its arguments, \<open>args\<close> is the serialised request.
\<close>

definition check_request :: "bool \<Rightarrow> byte list option \<Rightarrow> rpc_error + byte list" where
  "check_request ok args =
     (if \<not> ok then Inl NotInFiber
      else
        (case args of
           None \<Rightarrow> Inl RequestSize
         | Some args \<Rightarrow> if length args > kMaxMessage then Inl RequestSize else Inr args))"

definition request_header :: "byte list \<Rightarrow> byte list \<Rightarrow> u64 \<Rightarrow> byte list \<Rightarrow> RpcHeader" where
  "request_header service method req_id args =
     \<lparr>service_name = service, method_name = method, args_size = of_nat (length args), request_id = req_id, rpc_error_text = []\<rparr>"

section \<open>Reading frames\<close>

text \<open>The client: one round of \<^verbatim>\<open>ReaderLoop\<close>.\<close>

datatype reader_next = Deliver RpcHeader "byte list" | Once_more | Leave_loop | Reader_blocked

definition read_body :: "(nat \<Rightarrow> 's \<Rightarrow> net_result \<times> 's) \<Rightarrow> nat \<Rightarrow> 's \<Rightarrow> byte list read_out \<times> 's" where
  "read_body rd n s =
     (if n = 0 then (Value [], s)
      else (case rd n s of (Got bs, s) \<Rightarrow> (Value bs, s) | (Fail e, s) \<Rightarrow> (Bad e, s) | (Unfinished, s) \<Rightarrow> (Blocked, s)))"

definition reader_round ::
  "(nat \<Rightarrow> 's \<Rightarrow> net_result \<times> 's) \<Rightarrow> (byte list \<Rightarrow> RpcHeader option) \<Rightarrow> bool \<Rightarrow> 's \<Rightarrow> reader_next \<times> 's" where
  "reader_round rd parse closed s =
     (case ReadVarint32 rd s of
        (Blocked, s) \<Rightarrow> (Reader_blocked, s)
      | (Bad e, s) \<Rightarrow> (if e = ETIMEDOUT \<and> \<not> closed then Once_more else Leave_loop, s)
      | (Value header_size, s) \<Rightarrow>
          if header_size = 0 \<or> unat header_size > kMaxHeader then (Leave_loop, s)
          else
            (case read_body rd (unat header_size) s of
               (Blocked, s) \<Rightarrow> (Reader_blocked, s)
             | (Bad e, s) \<Rightarrow> (Leave_loop, s)
             | (Value header_data, s) \<Rightarrow>
                 (case parse header_data of
                    None \<Rightarrow> (Leave_loop, s)
                  | Some header \<Rightarrow>
                      (case read_body rd (unat (args_size header)) s of
                         (Blocked, s) \<Rightarrow> (Reader_blocked, s)
                       | (Bad e, s) \<Rightarrow> (Leave_loop, s)
                       | (Value payload, s) \<Rightarrow> (Deliver header payload, s)))))"

text \<open>
  The provider: the reservation of memory (\<open>buffered\<close> for all requests, \<open>bytes\<close> for this one)
  and the part of \<^verbatim>\<open>Handle\<close> that reads a request. \<open>None\<close> is the end of the loop.
\<close>

definition Reservation_Add :: "u64 \<Rightarrow> u64 \<Rightarrow> u64 \<times> u64 \<Rightarrow> (u64 \<times> u64) option" where
  "Reservation_Add max_buffered amount r =
     (case r of (buffered, bytes) \<Rightarrow>
        if amount > max_buffered \<or> buffered > max_buffered - amount then None
        else Some (buffered + amount, bytes + amount))"

definition Reservation_release :: "u64 \<times> u64 \<Rightarrow> u64" where
  "Reservation_release r = (case r of (buffered, bytes) \<Rightarrow> buffered - bytes)"

datatype request_next = Request RpcHeader "byte list" | End_loop | Request_blocked

definition read_request ::
  "(nat \<Rightarrow> 's \<Rightarrow> net_result \<times> 's) \<Rightarrow> (byte list \<Rightarrow> RpcHeader option) \<Rightarrow> u64 \<Rightarrow> u64 \<Rightarrow> 's \<Rightarrow>
   request_next \<times> (u64 \<times> u64) \<times> 's" where
  "read_request rd parse max_buffered buffered s =
     (let r = (buffered, 0) in
      case ReadVarint32 rd s of
        (Blocked, s) \<Rightarrow> (Request_blocked, r, s)
      | (Bad e, s) \<Rightarrow> (End_loop, r, s)
      | (Value header_size, s) \<Rightarrow>
          if header_size = 0 \<or> unat header_size > kMaxHeader then (End_loop, r, s)
          else
            (case Reservation_Add max_buffered (ucast header_size) r of
               None \<Rightarrow> (End_loop, r, s)
             | Some r \<Rightarrow>
                 (case read_body rd (unat header_size) s of
                    (Blocked, s) \<Rightarrow> (Request_blocked, r, s)
                  | (Bad e, s) \<Rightarrow> (End_loop, r, s)
                  | (Value header_data, s) \<Rightarrow>
                      (case parse header_data of
                         None \<Rightarrow> (End_loop, r, s)
                       | Some header \<Rightarrow>
                           if args_size header > of_nat kMaxMessage - header_size - 5 then (End_loop, r, s)
                           else
                             (case Reservation_Add max_buffered (ucast (args_size header)) r of
                                None \<Rightarrow> (End_loop, r, s)
                              | Some r \<Rightarrow>
                                  (case read_body rd (unat (args_size header)) s of
                                     (Blocked, s) \<Rightarrow> (Request_blocked, r, s)
                                   | (Bad e, s) \<Rightarrow> (End_loop, r, s)
                                   | (Value args, s) \<Rightarrow> (Request header args, r, s)))))))"

section \<open>Executor\<close>

record Executor =
  ex_capacity :: nat
  ex_queue :: "callback list"
  ex_stopped :: bool

definition Executor_new :: "nat \<Rightarrow> Executor" where
  "Executor_new capacity = \<lparr>ex_capacity = capacity, ex_queue = [], ex_stopped = False\<rparr>"

definition Submit :: "callback \<Rightarrow> Executor \<Rightarrow> bool \<times> Executor" where
  "Submit task e =
     (if ex_stopped e \<or> length (ex_queue e) \<ge> ex_capacity e then (False, e)
      else (True, e\<lparr>ex_queue := ex_queue e @ [task]\<rparr>))"

datatype executor_action = Ex_wait | Ex_end | Ex_run callback

definition executor_take :: "Executor \<Rightarrow> executor_action \<times> Executor" where
  "executor_take e =
     (if \<not> (ex_stopped e \<or> ex_queue e \<noteq> []) then (Ex_wait, e)
      else if ex_stopped e \<and> ex_queue e = [] then (Ex_end, e)
      else (Ex_run (hd (ex_queue e)), e\<lparr>ex_queue := tl (ex_queue e)\<rparr>))"

definition executor_stop :: "Executor \<Rightarrow> Executor" where
  "executor_stop e = e\<lparr>ex_stopped := True\<rparr>"

section \<open>Controller\<close>

text \<open>\<open>ctl_ran\<close> lists the cancellation callbacks that were run.\<close>

record Controller =
  ctl_error :: string
  ctl_canceled :: bool
  ctl_callbacks :: "callback list"
  ctl_ran :: "callback list"

definition Controller_new :: Controller where
  "Controller_new = \<lparr>ctl_error = [], ctl_canceled = False, ctl_callbacks = [], ctl_ran = []\<rparr>"

definition ctl_Reset :: "Controller \<Rightarrow> Controller" where
  "ctl_Reset c = c\<lparr>ctl_error := [], ctl_canceled := False, ctl_callbacks := []\<rparr>"

definition ctl_Failed :: "Controller \<Rightarrow> bool" where
  "ctl_Failed c \<longleftrightarrow> ctl_error c \<noteq> []"

definition ctl_ErrorText :: "Controller \<Rightarrow> string" where
  "ctl_ErrorText c = ctl_error c"

definition ctl_IsCanceled :: "Controller \<Rightarrow> bool" where
  "ctl_IsCanceled c = ctl_canceled c"

definition ctl_SetFailed :: "string \<Rightarrow> Controller \<Rightarrow> Controller" where
  "ctl_SetFailed reason c = c\<lparr>ctl_error := reason\<rparr>"

definition ctl_StartCancel :: "Controller \<Rightarrow> Controller" where
  "ctl_StartCancel c =
     (if ctl_canceled c then c
      else c\<lparr>ctl_canceled := True, ctl_callbacks := [], ctl_ran := ctl_ran c @ ctl_callbacks c\<rparr>)"

definition ctl_NotifyOnCancel :: "callback \<Rightarrow> Controller \<Rightarrow> Controller" where
  "ctl_NotifyOnCancel callback c =
     (if ctl_canceled c then c\<lparr>ctl_ran := ctl_ran c @ [callback]\<rparr>
      else c\<lparr>ctl_callbacks := ctl_callbacks c @ [callback]\<rparr>)"

text \<open>\<^verbatim>\<open>Fail\<close> with a controller that may be missing.\<close>

definition rpc_Fail :: "rpc_error \<Rightarrow> Controller option \<Rightarrow> Controller option" where
  "rpc_Fail reason c = map_option (ctl_SetFailed (error_text reason)) c"

end
