(* ===== verification/Net_Safety.thy ===== *)
theory Net_Safety
  imports Net
begin

text \<open>
  Properties of the TCP layer: exact transfers over a stream that the kernel cuts as it likes,
  waits that resume their Fiber once, and a server that respects its limit and closes what it
  accepted.
\<close>

declare ReadExact_loop.simps [simp del]

section \<open>Exact transfers\<close>

lemma DoRead_stream:
  "DoRead capacity as stream = (r, as', stream') \<Longrightarrow>
   (case r of Got bs \<Rightarrow> stream = bs @ stream' \<and> length bs \<le> capacity | _ \<Rightarrow> stream' = stream)"
  by (induction capacity as stream rule: DoRead.induct)
    (auto split: if_splits net_answer.splits option.splits)

text \<open>
  An answer the loops survive, and one that makes progress.
\<close>

definition benign :: "net_attempt \<Rightarrow> bool" where
  "benign a \<longleftrightarrow> \<not> na_closed a \<and>
     (case na_answer a of Count n \<Rightarrow> n > 0 | Error e \<Rightarrow> e = EINTR \<or> e = EAGAIN \<and> na_wait a = None)"

definition progress :: "net_attempt \<Rightarrow> bool" where
  "progress a \<longleftrightarrow> (\<exists>n. na_answer a = Count n)"

lemma DoRead_benign:
  assumes "\<forall>a \<in> set as. benign a" and "capacity > 0" and "stream \<noteq> []" and "\<exists>a \<in> set as. progress a"
  shows "\<exists>bs as' stream'. DoRead capacity as stream = (Got bs, as', stream') \<and> bs \<noteq> [] \<and> set as' \<subseteq> set as \<and>
    length (filter progress as) \<le> Suc (length (filter progress as'))"
  using assms
proof (induction capacity as stream rule: DoRead.induct)
  case (2 capacity a as stream)
  have a: "benign a" using "2.prems"(1) by simp
  show ?case
  proof (cases "na_answer a")
    case (Count n)
    then show ?thesis using a "2.prems" by (auto simp: benign_def progress_def)
  next
    case (Error e)
    have p: "\<not> progress a" by (simp add: progress_def Error)
    consider "e = EINTR" | "e \<noteq> EINTR" "e = EAGAIN" "na_wait a = None" using a Error by (auto simp: benign_def)
    then show ?thesis
      using "2.IH" "2.prems" a Error p by cases (auto simp: benign_def)
  qed
qed simp

lemma ReadExact_loop_stream:
  "ReadExact_loop sz buf as stream = (r, buf', as', stream') \<Longrightarrow> length buf \<le> sz \<Longrightarrow>
   (\<exists>bs. buf' = buf @ bs \<and> stream = bs @ stream') \<and> length buf' \<le> sz \<and>
   (case r of Got bs \<Rightarrow> bs = buf' \<and> length buf' = sz | _ \<Rightarrow> length buf' < sz)"
proof (induction sz buf as stream rule: ReadExact_loop.induct)
  case (1 sz buf as stream)
  show ?case
  proof (cases "length buf < sz")
    case False
    then show ?thesis using "1.prems" by (auto simp: ReadExact_loop.simps [of sz buf])
  next
    case True
    obtain d as1 st1 where d: "DoRead (sz - length buf) as stream = (d, as1, st1)" by (cases "DoRead (sz - length buf) as stream")
    show ?thesis
    proof (cases "\<exists>bs. d = Got bs \<and> bs \<noteq> []")
      case True
      then obtain bs where bs: "d = Got bs" "bs \<noteq> []" by blast
      have s: "stream = bs @ st1" "length bs \<le> sz - length buf" using DoRead_stream [OF d] bs(1) by simp_all
      have rec: "ReadExact_loop sz (buf @ bs) as1 st1 = (r, buf', as', stream')"
        using "1.prems"(1) \<open>length buf < sz\<close> d bs by (simp add: ReadExact_loop.simps [of sz buf])
      have "length (buf @ bs) \<le> sz" using s \<open>length buf < sz\<close> by simp
      from "1.IH" [OF \<open>length buf < sz\<close> d [symmetric] bs(1) refl bs(2) rec this] show ?thesis
        using s(1) by force
    next
      case False
      then show ?thesis
        using "1.prems" \<open>length buf < sz\<close> d DoRead_stream [OF d]
        by (cases d) (auto simp: ReadExact_loop.simps [of sz buf])
    qed
  qed
qed

lemma ReadExact_loop_benign:
  "\<forall>a \<in> set as. benign a \<Longrightarrow> sz - length buf \<le> length stream \<Longrightarrow> sz - length buf \<le> length (filter progress as) \<Longrightarrow>
   length buf \<le> sz \<Longrightarrow> \<exists>bs as' stream'. ReadExact_loop sz buf as stream = (Got bs, bs, as', stream') \<and> set as' \<subseteq> set as \<and>
     length (filter progress as) \<le> length (filter progress as') + (sz - length buf)"
proof (induction sz buf as stream rule: ReadExact_loop.induct)
  case (1 sz buf as stream)
  show ?case
  proof (cases "length buf < sz")
    case False
    then show ?thesis by (simp add: ReadExact_loop.simps [of sz buf])
  next
    case True
    then have "stream \<noteq> []" "filter progress as \<noteq> []" using "1.prems" by auto
    then have "\<exists>a \<in> set as. progress a" by (auto simp: filter_empty_conv)
    then obtain bs as1 st1 where d: "DoRead (sz - length buf) as stream = (Got bs, as1, st1)" "bs \<noteq> []" "set as1 \<subseteq> set as"
        "length (filter progress as) \<le> Suc (length (filter progress as1))"
      using DoRead_benign [OF "1.prems"(1) _ \<open>stream \<noteq> []\<close>, of "sz - length buf"] True by auto
    have s: "stream = bs @ st1" "length bs \<le> sz - length buf" using DoRead_stream [OF d(1)] by simp_all
    have n: "length bs \<ge> 1" using d(2) by (cases bs) auto
    have "\<exists>bs' as' stream'. ReadExact_loop sz (buf @ bs) as1 st1 = (Got bs', bs', as', stream') \<and> set as' \<subseteq> set as1 \<and>
        length (filter progress as1) \<le> length (filter progress as') + (sz - length (buf @ bs))"
      by (rule "1.IH" [OF True d(1) [symmetric] refl refl d(2)])
        (use "1.prems" d(3,4) s True n in auto)
    then obtain bs' as' stream' where r: "ReadExact_loop sz (buf @ bs) as1 st1 = (Got bs', bs', as', stream')" "set as' \<subseteq> set as1"
        "length (filter progress as1) \<le> length (filter progress as') + (sz - length (buf @ bs))"
      by blast
    have "ReadExact_loop sz buf as stream = (Got bs', bs', as', stream')"
      using True d(1,2) r(1) by (simp add: ReadExact_loop.simps [of sz buf])
    moreover have "set as' \<subseteq> set as" using r(2) d(3) by blast
    moreover have "length (filter progress as) \<le> length (filter progress as') + (sz - length buf)"
      using r(3) d(4) n s(2) by simp
    ultimately show ?thesis by blast
  qed
qed

text \<open>
  C32: \<^verbatim>\<open>ReadExact\<close> takes from the stream exactly the bytes it stores, in order, however the
  kernel cuts the stream. It returns \<^verbatim>\<open>true\<close> only with all \<^verbatim>\<open>size\<close> bytes and otherwise has fewer;
  it does return \<^verbatim>\<open>true\<close> when the peer sends enough and no call fails; a second reader is
  refused with \<^verbatim>\<open>EBUSY\<close>, and the connection may be read again afterwards.
\<close>

theorem read_exact_delivers:
  assumes "ReadExact sz as stream c = (r, buf, stream', c')"
  shows "stream = buf @ stream' \<and> c' = c \<and>
    (if c_reading c then r = Fail EBUSY \<and> buf = []
     else (case r of Got bs \<Rightarrow> bs = take sz stream \<and> buf = bs \<and> length buf = sz | _ \<Rightarrow> length buf < sz) \<and>
       ((\<forall>a \<in> set as. benign a) \<and> sz \<le> length stream \<and> sz \<le> length (filter progress as) \<longrightarrow> r = Got (take sz stream)))"
proof (cases "c_reading c")
  case True
  then show ?thesis using assms by (simp add: ReadExact_def read_enter_def)
next
  case False
  obtain as' where l: "ReadExact_loop sz [] as stream = (r, buf, as', stream')"
    using assms False by (auto simp: ReadExact_def read_enter_def split: prod.splits)
  have c: "c' = c" using assms False l by (auto simp: ReadExact_def read_enter_def read_leave_def)
  from ReadExact_loop_stream [OF l] have s: "stream = buf @ stream'"
    "case r of Got bs \<Rightarrow> bs = buf \<and> length buf = sz | _ \<Rightarrow> length buf < sz" by auto
  moreover have "r = Got (take sz stream)"
    if "(\<forall>a \<in> set as. benign a) \<and> sz \<le> length stream \<and> sz \<le> length (filter progress as)"
    using ReadExact_loop_benign [of as sz "[]" stream] that l s by auto
  ultimately show ?thesis using False c by (auto split: net_result.splits)
qed

theorem read_exact_delivers_witness:
  "\<exists>buf stream' c'. ReadExact 3 [\<lparr>na_closed = False, na_answer = Count 2, na_wait = None\<rparr>,
     \<lparr>na_closed = False, na_answer = Error EAGAIN, na_wait = None\<rparr>, \<lparr>na_closed = False, na_answer = Count 5, na_wait = None\<rparr>,
     \<lparr>na_closed = False, na_answer = Count 5, na_wait = None\<rparr>]
     [7, 8, 9, 10] (Connection_new 4) = (Got [7, 8, 9], buf, stream', c')"
proof -
  let ?as = "[\<lparr>na_closed = False, na_answer = Count 2, na_wait = None\<rparr>,
     \<lparr>na_closed = False, na_answer = Error EAGAIN, na_wait = None\<rparr>, \<lparr>na_closed = False, na_answer = Count 5, na_wait = None\<rparr>,
     \<lparr>na_closed = False, na_answer = Count 5, na_wait = None\<rparr>]"
  obtain r buf stream' c' where e: "ReadExact 3 ?as [7, 8, 9, 10] (Connection_new 4) = (r, buf, stream', c')"
    by (rule prod_cases4)
  have g: "(\<forall>a \<in> set ?as. benign a) \<and> 3 \<le> length [7, 8, 9, 10 :: byte] \<and> 3 \<le> length (filter progress ?as)"
    by (simp add: benign_def progress_def)
  have n: "\<not> c_reading (Connection_new 4)" by (simp add: Connection_new_def)
  have "r = Got (take 3 [7, 8, 9, 10])" using read_exact_delivers [OF e] g n by argo
  then show ?thesis using e by simp
qed

lemma WriteAll_loop_out:
  "WriteAll_loop rest out as = (r, out') \<Longrightarrow>
   \<exists>rest'. out' @ rest' = out @ rest \<and> (r = Got out' \<longleftrightarrow> rest' = []) \<and> (\<forall>bs. r = Got bs \<longrightarrow> bs = out')"
proof (induction rest out as rule: WriteAll_loop.induct)
  case (1 rest out)
  then show ?case by (auto split: if_splits)
next
  case (2 rest out a as)
  show ?case
  proof (cases "rest = [] \<or> na_closed a")
    case True
    then show ?thesis using "2.prems" by (auto split: if_splits)
  next
    case False
    then show ?thesis using "2.prems" "2.IH"
      by (auto split: if_splits net_answer.splits option.splits)
  qed
qed

text \<open>
  C33: \<^verbatim>\<open>WriteAll\<close> hands the kernel the buffer from its first byte on without gap or repetition.
  It returns \<^verbatim>\<open>true\<close> exactly if all of it was accepted, and otherwise a proper prefix was; a
  second writer is refused with \<^verbatim>\<open>EBUSY\<close>. What a complete write sent, an exact read of that
  size receives.
\<close>

theorem write_all_delivers:
  assumes "WriteAll buffer as c = (r, out, c')"
  shows "c' = c \<and> (if c_writing c then r = Fail EBUSY \<and> out = []
    else (\<exists>rest. buffer = out @ rest \<and> (r = Got out \<longleftrightarrow> rest = []) \<and> (\<forall>bs. r = Got bs \<longrightarrow> bs = out))) \<and>
    (\<forall>as' more d bs buf stream' d'. r = Got out \<longrightarrow>
       ReadExact (length buffer) as' (out @ more) d = (Got bs, buf, stream', d') \<longrightarrow> bs = buffer \<and> stream' = more)"
proof -
  have 1: "c' = c \<and> (if c_writing c then r = Fail EBUSY \<and> out = []
    else (\<exists>rest. buffer = out @ rest \<and> (r = Got out \<longleftrightarrow> rest = []) \<and> (\<forall>bs. r = Got bs \<longrightarrow> bs = out)))"
  proof (cases "c_writing c")
    case False
    then have l: "WriteAll_loop buffer [] as = (r, out)" and "c' = c"
      using assms by (auto simp: WriteAll_def Let_def split: prod.splits)
    moreover obtain rest where "out @ rest = [] @ buffer" "r = Got out \<longleftrightarrow> rest = []" "\<forall>bs. r = Got bs \<longrightarrow> bs = out"
      using WriteAll_loop_out [OF l] by blast
    ultimately show ?thesis using False by auto
  qed (use assms in \<open>simp add: WriteAll_def\<close>)
  have 2: "bs = buffer \<and> stream' = more"
    if r: "r = Got out" and rd: "ReadExact (length buffer) as' (out @ more) d = (Got bs, buf, stream', d')" for as' more d bs buf stream' d'
  proof -
    have "\<not> c_writing c" using 1 r by auto
    then have o: "out = buffer" using 1 r by auto
    from rd have n: "\<not> c_reading d" by (auto simp: ReadExact_def read_enter_def)
    obtain as1 where l: "ReadExact_loop (length buffer) [] as' (out @ more) = (Got bs, buf, as1, stream')"
      using rd n by (auto simp: ReadExact_def read_enter_def split: prod.splits)
    have "out @ more = bs @ stream'" "length out = length bs" using ReadExact_loop_stream [OF l] o by auto
    then show ?thesis using append_eq_append_conv [of out bs more stream'] o by simp
  qed
  show ?thesis
    by (intro conjI allI impI) (rule conjunct1 [OF 1], rule conjunct2 [OF 1], (drule (1) 2, simp)+)
qed

theorem write_all_delivers_witness:
  "\<exists>out c'. WriteAll [1, 2, 3] [\<lparr>na_closed = False, na_answer = Count 2, na_wait = None\<rparr>,
     \<lparr>na_closed = False, na_answer = Error EINTR, na_wait = None\<rparr>] (Connection_new 4) = (Unfinished, out, c') \<and>
     (\<exists>rest. [1, 2, 3] = out @ rest \<and> rest \<noteq> [])"
proof -
  let ?as = "[\<lparr>na_closed = False, na_answer = Count 2, na_wait = None\<rparr>, \<lparr>na_closed = False, na_answer = Error EINTR, na_wait = None\<rparr>]"
  have w: "WriteAll [1, 2, 3] ?as (Connection_new 4) = (Unfinished, [1, 2], Connection_new 4)"
    by (simp add: WriteAll_def Connection_new_def EINTR_def)
  from write_all_delivers [OF w] w show ?thesis by (auto simp: Connection_new_def)
qed

section \<open>Waits\<close>

text \<open>
  What may happen to a wait while its Fiber is parked, in any order and any number of times:
  the event or the close of the connection, and the timer.
\<close>

inductive wait_step :: "WaitState \<Rightarrow> WaitState \<Rightarrow> bool" where
  ready: "wait_step s (Finish 1 s)"
| timed_out: "Wait_timeout ep_ok fd event c s m = Inr (s', m') \<Longrightarrow> wait_step s s'"

definition wait_init :: "WaitState \<Rightarrow> bool" where
  "wait_init s \<longleftrightarrow> outcome s = 0 \<and> ws_submitted s = []"

definition wait_inv :: "fid \<Rightarrow> int \<Rightarrow> WaitState \<Rightarrow> bool" where
  "wait_inv f t s \<longleftrightarrow> ws_fiber s = f \<and> ws_worker s = t \<and>
     (outcome s = 0 \<and> ws_submitted s = [] \<or> outcome s \<in> {1, 2} \<and> ws_submitted s = [(f, t)])"

lemma wait_step_settled: "wait_step s s' \<Longrightarrow> outcome s \<noteq> 0 \<Longrightarrow> s' = s"
  by (auto elim!: wait_step.cases simp: Finish_def Wait_timeout_def)

lemma wait_step_first: "wait_step s s' \<Longrightarrow> outcome s = 0 \<Longrightarrow> ws_submitted s = [] \<Longrightarrow>
  ws_fiber s' = ws_fiber s \<and> ws_worker s' = ws_worker s \<and> outcome s' \<in> {1, 2} \<and> ws_submitted s' = [(ws_fiber s, ws_worker s)]"
  by (auto elim!: wait_step.cases simp: Finish_def Wait_timeout_def bind_res_Inr_iff split: if_splits)

interpretation wait_once: invariant_of "\<lambda>s. wait_init s \<and> ws_fiber s = f \<and> ws_worker s = t" wait_step "wait_inv f t" for f t
proof unfold_locales
  show "wait_inv f t s" if "wait_init s \<and> ws_fiber s = f \<and> ws_worker s = t" for s
    using that by (simp add: wait_init_def wait_inv_def)
  show "wait_inv f t s'" if "wait_inv f t s" "wait_step s s'" for s s'
    using that wait_step_settled [OF that(2)] wait_step_first [OF that(2)] unfolding wait_inv_def by fastforce
qed

text \<open>
  C34: Readiness, close and timeout race for a waiting Fiber and exactly one of them wins. From
  the moment \<^verbatim>\<open>Wait\<close> registered the event, the Fiber is submitted at most once, to the
  thread that parked it, and exactly when the outcome is settled; then nothing changes the outcome, which is the
  timeout error exactly if the timer won.
\<close>

theorem wait_resumes_once:
  assumes "Wait_begin on_owner ep_ok cl finish err event deadline now c m = Inr (Inr (s0, ms), m')"
    and "wait_step\<^sup>*\<^sup>* s0 s"
  shows "ws_submitted s = (if outcome s = 0 then [] else [(io_fiber cl, io_thread cl)]) \<and>
    (outcome s \<noteq> 0 \<longrightarrow> outcome s \<in> {1, 2} \<and> (\<forall>s'. wait_step\<^sup>*\<^sup>* s s' \<longrightarrow> s' = s)) \<and>
    (Wait_end s c' = Some ETIMEDOUT \<longleftrightarrow> outcome s = 2)"
proof -
  have "wait_init s0 \<and> ws_fiber s0 = io_fiber cl \<and> ws_worker s0 = io_thread cl"
    using assms(1) by (auto simp: Wait_begin_def wait_init_def bind_res_Inr_iff split: if_splits)
  from wait_once.inv_reachable [OF this assms(2)] have inv: "wait_inv (io_fiber cl) (io_thread cl) s" .
  have "s' = s" if "wait_step\<^sup>*\<^sup>* s s'" "outcome s \<noteq> 0" for s'
    using that by (induction rule: rtranclp_induct) (auto dest: wait_step_settled)
  then show ?thesis using inv by (auto simp: wait_inv_def Wait_end_def errno_defs)
qed

definition example_wait :: WaitState where
  "example_wait = \<lparr>outcome = 0, ws_fiber = 9, ws_worker = 77, ws_submitted = []\<rparr>"

definition net_caller :: io_caller where
  "net_caller = \<lparr>io_scheduler = Some 1, io_thread = 77, io_fiber = 9, io_running = True\<rparr>"

theorem wait_resumes_once_witness:
  "(\<exists>m'. Wait_begin True True net_caller 4 0 READ (Some 3000000) 1000000 (Connection_new 3) IOManager_new = Inr (Inr (example_wait, Some 2), m')) \<and>
   wait_step\<^sup>*\<^sup>* example_wait (Finish 2 (Finish 1 example_wait)) \<and> ws_submitted (Finish 1 example_wait) = [(9, 77)]"
proof -
  obtain m1 where a: "addEvent True net_caller 3 READ (Some 4) IOManager_new = Inr (0, m1)"
    by (simp add: addEvent_def addEvent_lookup_def addEvent_register_def Let_def IOManager_new_def contextResize_def
        getEveContext_def FdContext_new_def EventContext_new_def event_defs net_caller_def CondPanic_def)
  have w: "\<exists>m'. Wait_begin True True net_caller 4 0 READ (Some 3000000) 1000000 (Connection_new 3) IOManager_new = Inr (Inr (example_wait, Some 2), m')"
    by (simp add: Wait_begin_def a Connection_new_def) (simp add: example_wait_def net_caller_def remaining_ms_def)
  then obtain m' where m': "Wait_begin True True net_caller 4 0 READ (Some 3000000) 1000000 (Connection_new 3) IOManager_new = Inr (Inr (example_wait, Some 2), m')"
    by blast
  have 1: "wait_step\<^sup>*\<^sup>* example_wait (Finish 1 example_wait)" by (simp add: wait_step.ready r_into_rtranclp)
  have f: "Finish 2 (Finish 1 example_wait) = Finish 1 example_wait" by (simp add: Finish_def example_wait_def)
  have o: "outcome (Finish 1 example_wait) \<noteq> 0" by (simp add: Finish_def example_wait_def)
  show ?thesis using wait_resumes_once [OF m' 1] w 1 f o by (simp add: net_caller_def)
qed

section \<open>Closing\<close>

text \<open>
  A connection gives its descriptor back exactly once: the first \<^verbatim>\<open>Close\<close> shuts it down and
  closes it, leaves the connection without descriptor, and every later one has no effect at all.
\<close>

theorem close_gives_back_once:
  assumes "Close ep_ok c m = Inr (c', m', fx)"
  shows "c_closed c' \<and> (c_closed c \<longrightarrow> c' = c \<and> m' = m \<and> fx = []) \<and>
    (\<not> c_closed c \<longrightarrow> c_fd c \<ge> 0 \<longrightarrow> c_fd c' = - 1 \<and> fx = [Shutdown (c_fd c), CloseFd (c_fd c)]) \<and>
    (\<forall>ep_ok' m''. Close ep_ok' c' m'' = Inr (c', m'', []))"
  using assms by (auto simp: Close_def Let_def bind_res_Inr_iff split: if_splits)

theorem close_gives_back_once_witness:
  "\<exists>c' m'. Close True (Connection_new 3) IOManager_new = Inr (c', m', [Shutdown 3, CloseFd 3]) \<and>
     (\<forall>m''. Close True c' m'' = Inr (c', m'', []))"
proof -
  have "cancelAll True 3 IOManager_new = Inr (False, IOManager_new)"
    by (simp add: cancelAll_def find_ctx_def cancelAll_at_def IOManager_new_def contextResize_def FdContext_new_def NONE_def)
  then have e: "Close True (Connection_new 3) IOManager_new =
      Inr ((Connection_new 3)\<lparr>c_closed := True, c_fd := - 1\<rparr>, IOManager_new, [Shutdown 3, CloseFd 3])"
    by (simp add: Close_def Connection_new_def)
  show ?thesis using close_gives_back_once [OF e] e by blast
qed

section \<open>The server\<close>

text \<open>
  The server with any number of accept loops. \<open>pend\<close> are the clients for which a place is
  reserved and \<open>handlers\<close> the connections whose handler was submitted and has not ended; a
  handler keeps its connection alive.
\<close>

record srv_sys =
  srv :: Server
  pend :: "int list"
  handlers :: "conn_id set"

inductive srv_step :: "srv_sys \<Rightarrow> srv_sys \<Rightarrow> bool" where
  start: "Server_Start inet_pton ip port k (srv S) = ((r, s), fx) \<Longrightarrow> srv_step S (S\<lparr>srv := s\<rparr>)"
| reserve: "accept_reserve (srv S) = (True, s) \<Longrightarrow> srv_step S (S\<lparr>srv := s, pend := client_fd # pend S\<rparr>)"
| refuse: "accept_reserve (srv S) = (False, s) \<Longrightarrow> srv_step S (S\<lparr>srv := s\<rparr>)"
| register: "pend S = xs @ client_fd # ys \<Longrightarrow> \<forall>q \<in> handlers S. \<not> expired q \<Longrightarrow>
    accept_register expired client_fd (srv S) = (p, s) \<Longrightarrow>
    srv_step S (S\<lparr>srv := s, pend := xs @ ys, handlers := insert p (handlers S)\<rparr>)"
| finish: "p \<in> handlers S \<Longrightarrow> srv_step S (S\<lparr>srv := handler_end p (srv S), handlers := handlers S - {p}\<rparr>)"
| stop: "\<forall>q \<in> handlers S. \<not> expired q \<Longrightarrow> srv_step S (S\<lparr>srv := Server_Stop expired (srv S)\<rparr>)"

definition srv_init :: "u64 \<Rightarrow> srv_sys \<Rightarrow> bool" where
  "srv_init n S \<longleftrightarrow> S = \<lparr>srv = Server_new True n, pend = [], handlers = {}\<rparr>"

definition srv_inv :: "u64 \<Rightarrow> srv_sys \<Rightarrow> bool" where
  "srv_inv n S \<longleftrightarrow> finite (handlers S) \<and> (\<forall>q \<in> handlers S. q < srv_next (srv S)) \<and> srv_max_connections (srv S) = n \<and>
     unat (srv_active (srv S)) = card (handlers S) + length (pend S) \<and> card (handlers S) + length (pend S) \<le> unat n \<and>
     (\<forall>q \<in> handlers S. q \<in> set (srv_connections (srv S)) \<or> c_closed (srv_conn (srv S) q)) \<and>
     (\<forall>l. srv_listener (srv S) = Some l \<longrightarrow> l < srv_next (srv S))"

lemma close_conn_fields [simp]:
  "srv_next (close_conn p s) = srv_next s" "srv_max_connections (close_conn p s) = srv_max_connections s"
  "srv_active (close_conn p s) = srv_active s" "srv_connections (close_conn p s) = srv_connections s"
  "srv_listener (close_conn p s) = srv_listener s" "srv_running (close_conn p s) = srv_running s"
  "c_closed (srv_conn (close_conn p s) q) \<longleftrightarrow> q = p \<or> c_closed (srv_conn s q)"
  by (simp_all add: close_conn_def)

lemma fold_close_fields [simp]:
  "srv_next (fold close_conn ps s) = srv_next s" "srv_max_connections (fold close_conn ps s) = srv_max_connections s"
  "srv_active (fold close_conn ps s) = srv_active s" "srv_connections (fold close_conn ps s) = srv_connections s"
  "srv_listener (fold close_conn ps s) = srv_listener s" "srv_running (fold close_conn ps s) = srv_running s"
  "c_closed (srv_conn (fold close_conn ps s) q) \<longleftrightarrow> q \<in> set ps \<or> c_closed (srv_conn s q)"
  by (induction ps arbitrary: s) auto

lemma Server_Stop_fields:
  "srv_next (Server_Stop e s) = srv_next s" "srv_max_connections (Server_Stop e s) = srv_max_connections s"
  "srv_active (Server_Stop e s) = srv_active s" "\<not> srv_running (Server_Stop e s)"
  "c_closed (srv_conn s q) \<Longrightarrow> c_closed (srv_conn (Server_Stop e s) q)"
  "srv_running s \<Longrightarrow> q \<in> set (srv_connections s) \<Longrightarrow> \<not> e q \<Longrightarrow> c_closed (srv_conn (Server_Stop e s) q)"
  "srv_running s \<Longrightarrow> srv_listener s = Some l \<Longrightarrow> c_closed (srv_conn (Server_Stop e s) l)"
  "srv_running s \<Longrightarrow> srv_listener (Server_Stop e s) = None"
  "\<not> srv_running s \<Longrightarrow> Server_Stop e s = s"
  by (auto simp: Server_Stop_def Let_def split: option.splits)

lemma srv_inv_step:
  assumes "srv_inv n S" and "srv_step S S'"
  shows "srv_inv n S'"
  using assms(2,1)
proof (induction rule: srv_step.induct)
  case (start inet_pton ip port k S r s fx)
  then show ?case
    by (auto simp: srv_inv_def Server_Start_def new_conn_def Let_def split: sum.splits if_splits option.splits)
next
  case (reserve S s client_fd)
  then have "unat (srv_active (srv S)) < unat n" "s = (srv S)\<lparr>srv_active := srv_active (srv S) + 1\<rparr>"
    by (auto simp: accept_reserve_def srv_inv_def word_less_nat_alt split: if_splits)
  moreover from this have "unat (srv_active (srv S) + 1) = Suc (unat (srv_active (srv S)))"
  proof -
    have "unat n < 2 ^ 64" using unsigned_less [of n] by simp
    then show ?thesis using \<open>unat (srv_active (srv S)) < unat n\<close> by (simp add: unat_word_ariths)
  qed
  ultimately show ?case using reserve(2) by (auto simp: srv_inv_def)
next
  case (refuse S s)
  then show ?case by (auto simp: accept_reserve_def srv_inv_def split: if_splits)
next
  case (register S xs client_fd ys expired p s)
  then have p: "p = srv_next (srv S)" "p \<notin> handlers S" and s: "s = (srv S)\<lparr>srv_conn := (srv_conn (srv S))(p := Connection_new client_fd),
      srv_next := Suc p, srv_connections := filter (\<lambda>q. \<not> expired q) (srv_connections (srv S)) @ [p]\<rparr>"
    by (auto simp: accept_register_def new_conn_def srv_inv_def Let_def)
  note I = register(4) [unfolded srv_inv_def]
  have k: "\<forall>q \<in> insert p (handlers S). q \<in> set (srv_connections s) \<or> c_closed (srv_conn s q)"
  proof
    fix q assume q: "q \<in> insert p (handlers S)"
    show "q \<in> set (srv_connections s) \<or> c_closed (srv_conn s q)"
    proof (cases "q = p")
      case False
      then have "q \<in> set (srv_connections (srv S)) \<or> c_closed (srv_conn (srv S) q)" "\<not> expired q"
        using q register(2) I by blast+
      then show ?thesis using False by (auto simp: s)
    qed (simp add: s)
  qed
  have c: "card (insert p (handlers S)) = Suc (card (handlers S))" using I p(2) by simp
  have f: "finite (insert p (handlers S))" "length (pend S) = Suc (length (xs @ ys))" using I register(1) by simp_all
  have m: "srv_max_connections s = srv_max_connections (srv S)" "srv_active s = srv_active (srv S)"
    "srv_listener s = srv_listener (srv S)" "srv_next s = Suc p" by (simp_all add: s)
  have n: "\<forall>q \<in> insert p (handlers S). q < srv_next s" "\<forall>l. srv_listener s = Some l \<longrightarrow> l < srv_next s"
    using I p(1) unfolding m by (simp_all add: less_Suc_eq)
  show ?case unfolding srv_inv_def using k c f n I m(1,2) by simp
next
  case (finish p S)
  then have "finite (handlers S)" by (simp add: srv_inv_def)
  with finish(1) obtain k where k: "card (handlers S) = Suc k" "card (handlers S - {p}) = k"
    using card.remove [of "handlers S" p] by blast
  then have "unat (srv_active (srv S)) \<noteq> 0" using finish(2) by (simp add: srv_inv_def)
  then have "unat (srv_active (srv S) - 1) = unat (srv_active (srv S)) - 1"
    using unat_sub [of 1 "srv_active (srv S)"] by (simp add: word_le_nat_alt)
  moreover have "\<forall>q \<in> handlers S - {p}. q \<in> set (srv_connections (srv S)) \<or> c_closed (srv_conn (srv S) q)"
    using finish(2) by (simp add: srv_inv_def)
  ultimately show ?case using finish(2) k unfolding srv_inv_def handler_end_def Let_def by auto
next
  case (stop S expired)
  then show ?case
    by (cases "srv_running (srv S)") (auto simp: srv_inv_def Server_Stop_fields)
qed

interpretation server: invariant_of "srv_init n" srv_step "srv_inv n" for n
proof unfold_locales
  show "srv_inv n S" if "srv_init n S" for S using that by (simp add: srv_init_def srv_inv_def Server_new_def)
qed (rule srv_inv_step)

definition example_answers :: start_answers where
  "example_answers = \<lparr>sa_socket = Inr 6, sa_setup = None, sa_sockname = Inr \<lparr>sin_port = swap16 8080, sin_addr = 0\<rparr>\<rparr>"

definition example_running :: Server where
  "example_running = snd (fst (Server_Start (\<lambda>_. Some 0) ''0.0.0.0'' 8080 example_answers (Server_new True 2)))"

definition example_accepted :: Server where
  "example_accepted = snd (accept_register (\<lambda>_. False) 8 (snd (accept_reserve example_running)))"

lemma example_running_eq:
  "example_running = (Server_new True 2)\<lparr>srv_listener := Some 0, srv_port := 8080, srv_running := True,
     srv_conn := (\<lambda>_. Connection_new (- 1))(0 := Connection_new 6), srv_next := 1\<rparr>"
  by (simp add: example_running_def Server_Start_def Address_def example_answers_def Server_new_def new_conn_def swap16_def)

lemma example_accepted_eq:
  "example_accepted = example_running\<lparr>srv_active := 1, srv_connections := [1],
     srv_conn := (srv_conn example_running)(1 := Connection_new 8), srv_next := 2\<rparr>"
  by (simp add: example_accepted_def example_running_eq Server_new_def accept_register_def accept_reserve_def new_conn_def)

definition example_srv :: srv_sys where
  "example_srv = \<lparr>srv = example_accepted, pend = [], handlers = {1}\<rparr>"

lemma example_srv_reachable: "srv_step\<^sup>*\<^sup>* \<lparr>srv = Server_new True 2, pend = [], handlers = {}\<rparr> example_srv"
proof -
  let ?S0 = "\<lparr>srv = Server_new True 2, pend = [], handlers = {}\<rparr>"
  let ?S1 = "\<lparr>srv = example_running, pend = [], handlers = {}\<rparr>"
  let ?S2 = "\<lparr>srv = snd (accept_reserve example_running), pend = [8], handlers = {}\<rparr>"
  have "srv_step ?S0 ?S1"
    using srv_step.start [of "\<lambda>_. Some 0" "''0.0.0.0''" 8080 example_answers ?S0 None example_running "[]"]
    by (simp add: example_running_eq Server_Start_def Address_def example_answers_def Server_new_def new_conn_def swap16_def)
  moreover have "srv_step ?S1 ?S2"
    using srv_step.reserve [of ?S1 "snd (accept_reserve example_running)" 8]
    by (simp add: accept_reserve_def example_running_eq Server_new_def)
  moreover have "srv_step ?S2 example_srv"
    using srv_step.register [of ?S2 "[]" 8 "[]" "\<lambda>_. False" 1 example_accepted]
    by (simp add: example_srv_def example_accepted_def accept_register_def new_conn_def accept_reserve_def example_running_eq Server_new_def)
  ultimately show ?thesis by (meson rtranclp.rtrancl_into_rtrancl rtranclp.rtrancl_refl)
qed



text \<open>
  A stop of the running server closes the listening socket and the connection of every
  handler in progress, so that their reads and writes fail, whatever was accepted, finished
  or forgotten before.
\<close>

theorem server_stop_closes:
  assumes "srv_init n S0" and "srv_step\<^sup>*\<^sup>* S0 S" and "\<forall>q \<in> handlers S. \<not> expired q" and "srv_running (srv S)"
  shows "(\<forall>q \<in> handlers S. c_closed (srv_conn (Server_Stop expired (srv S)) q)) \<and>
    (\<forall>l. srv_listener (srv S) = Some l \<longrightarrow> \<not> accept_enter l (Server_Stop expired (srv S)) \<and>
       c_closed (srv_conn (Server_Stop expired (srv S)) l)) \<and>
    \<not> srv_running (Server_Stop expired (srv S)) \<and> srv_active (Server_Stop expired (srv S)) = srv_active (srv S)"
proof -
  have "srv_inv n S" by (rule server.inv_reachable [OF assms(1,2)])
  then show ?thesis using assms(3,4) by (auto simp: srv_inv_def Server_Stop_fields accept_enter_def)
qed

theorem server_stop_closes_witness:
  "srv_running (srv example_srv) \<and> c_closed (srv_conn (Server_Stop (\<lambda>_. False) (srv example_srv)) 1) \<and>
   c_closed (srv_conn (Server_Stop (\<lambda>_. False) (srv example_srv)) 0)"
proof -
  have "srv_running (srv example_srv)" "1 \<in> handlers example_srv" "srv_listener (srv example_srv) = Some 0"
    by (simp_all add: example_srv_def example_accepted_eq example_running_eq)
  then show ?thesis
    using server_stop_closes [OF _ example_srv_reachable, of 2 "\<lambda>_. False"] by (simp add: srv_init_def)
qed

text \<open>
  A client accepted while the server stops is registered after the connections were
  collected: its connection stays open and its handler runs on a stopped server.
\<close>

lemma late_client_survives_stop:
  "c_closed (srv_conn (snd (accept_register (\<lambda>_. False) 8 (Server_Stop (\<lambda>_. False) (snd (accept_reserve example_running))))) 1) = False"
  by (simp add: accept_register_def new_conn_def Server_Stop_def accept_reserve_def example_running_eq Server_new_def close_conn_def
      Connection_new_def)

text \<open>The port reported by the kernel is converted back to the order of the host.\<close>

lemma swap16_swap16: "swap16 (swap16 p) = p"
  by (rule bit_word_eqI) (auto simp: swap16_def bit_simps)

end
