(* ===== verification/Rpc_Codec.thy ===== *)
theory Rpc_Codec
  imports Rpc Net_Safety
begin

text \<open>
  The wire format of RPC: variable length integers, frames and the limits on them. The locale
  \<open>byte_reader\<close> states what the framing relies on of the connection it reads, its interpretation
  shows that \<^verbatim>\<open>ReadExact\<close> provides it.
\<close>

section \<open>Interface: a reader of bytes\<close>

text \<open>
  What the protocol relies on in the connection below it: \<open>contents\<close> are the bytes that will
  arrive. A read that succeeds takes exactly the bytes it returns, and a reader that is
  \<open>ready\<close> succeeds as long as there are bytes.
\<close>

locale byte_reader =
  fixes rd :: "nat \<Rightarrow> 's \<Rightarrow> net_result \<times> 's"
    and contents :: "'s \<Rightarrow> byte list"
    and ready :: "'s \<Rightarrow> bool"
  assumes rd_sound: "rd n s = (Got bs, s') \<Longrightarrow> contents s = bs @ contents s' \<and> length bs = n"
    and rd_ready: "ready s \<Longrightarrow> n \<le> length (contents s) \<Longrightarrow> \<exists>bs s'. rd n s = (Got bs, s') \<and> ready s'"
begin

lemma rd_exact:
  assumes "ready s" and "contents s = bs @ rest"
  shows "\<exists>s'. rd (length bs) s = (Got bs, s') \<and> ready s' \<and> contents s' = rest"
proof -
  obtain bs' s' where s': "rd (length bs) s = (Got bs', s')" "ready s'"
    using rd_ready [OF assms(1), of "length bs"] assms(2) by auto
  then show ?thesis using rd_sound [OF s'(1)] assms(2) by auto
qed

lemma read_body_exact:
  assumes "ready s" and "contents s = bs @ rest"
  shows "\<exists>s'. read_body rd (length bs) s = (Value bs, s') \<and> ready s' \<and> contents s' = rest"
  using rd_exact [OF assms] assms by (cases "bs = []") (auto simp: read_body_def)

end

section \<open>Numbers of variable length\<close>

lemma bit_below:
  assumes "unat (v :: u32) < 2 ^ n" and "bit v k"
  shows "k < n"
proof -
  have "take_bit n v = v" using assms(1) by (simp add: word_unat_eq_iff unsigned_take_bit_eq take_bit_nat_eq_self)
  then show ?thesis using assms(2) by (metis bit_take_bit_iff)
qed

lemma bits_7f: "bit (0x7f :: int) k \<longleftrightarrow> k < 7"
proof -
  have e: "(0x7f :: int) = mask 7" by (simp add: mask_eq_exp_minus_1)
  show ?thesis unfolding e by (simp add: bit_mask_iff)
qed

lemma bits_80: "bit (0x80 :: int) k \<longleftrightarrow> k = 7"
proof -
  have e: "(0x80 :: int) = 2 ^ 7" by simp
  show ?thesis unfolding e by (auto simp: bit_exp_iff simp del: power_numeral)
qed

lemma bits_f0: "bit (0xf0 :: int) k \<Longrightarrow> 4 \<le> k"
proof -
  have e: "(0xf0 :: int) = push_bit 4 (mask 4)" by (simp add: mask_eq_exp_minus_1 push_bit_eq_mult)
  show "bit (0xf0 :: int) k \<Longrightarrow> 4 \<le> k" unfolding e by (simp add: bit_push_bit_iff)
qed

lemma varint_glue:
  "push_bit n (v AND 0x7f) OR push_bit (n + 7) (drop_bit 7 v) = push_bit n (v :: u32)"
proof (rule bit_word_eqI)
  fix k :: nat assume "k < LENGTH(32)"
  show "bit (push_bit n (v AND 0x7f) OR push_bit (n + 7) (drop_bit 7 v)) k = bit (push_bit n v) k"
  proof (cases "k - n < 7")
    case False
    then have "7 + (k - (n + 7)) = k - n" by linarith
    then show ?thesis using False \<open>k < LENGTH(32)\<close> by (auto simp: bit_simps bits_7f)
  qed (use \<open>k < LENGTH(32)\<close> in \<open>auto simp: bit_simps bits_7f\<close>)
qed

lemma and_0x80: "(b :: byte) AND 0x80 = 0 \<longleftrightarrow> \<not> bit b 7"
  using and_exp_eq_0_iff_not_bit [of b 7] by simp

lemma varint_byte:
  fixes v :: u32
  shows "(ucast ((v AND 0x7f) OR 0x80) :: byte) AND 0x80 \<noteq> 0"
    and "(ucast ((ucast ((v AND 0x7f) OR 0x80) :: byte) AND 0x7f) :: u32) = v AND 0x7f"
    and "v < 128 \<Longrightarrow> (ucast v :: byte) AND 0x80 = 0"
    and "v < 128 \<Longrightarrow> (ucast ((ucast v :: byte) AND 0x7f) :: u32) = v"
    and "v < 16 \<Longrightarrow> (ucast v :: byte) AND 0xf0 = 0"
proof -
  show "(ucast ((v AND 0x7f) OR 0x80) :: byte) AND 0x80 \<noteq> 0"
    unfolding and_0x80 by (simp add: bit_ucast_iff bit_or_iff bits_80)
  show "(ucast ((ucast ((v AND 0x7f) OR 0x80) :: byte) AND 0x7f) :: u32) = v AND 0x7f"
    by (rule bit_word_eqI) (auto simp: bit_ucast_iff bit_or_iff bit_and_iff bits_7f bits_80)
  show "(ucast v :: byte) AND 0x80 = 0" if "v < 128"
    unfolding and_0x80 using bit_below [of v 7 7] that by (auto simp: bit_ucast_iff word_less_nat_alt)
  show "(ucast ((ucast v :: byte) AND 0x7f) :: u32) = v" if "v < 128"
  proof (rule bit_word_eqI)
    fix k :: nat
    have "k < 7" if "bit v k" using bit_below [of v 7 k] \<open>v < 128\<close> that by (simp add: word_less_nat_alt)
    then show "bit (ucast ((ucast v :: byte) AND 0x7f) :: u32) k = bit v k"
      using bit_imp_le_length [of v k] by (auto simp: bit_ucast_iff bit_and_iff bits_7f)
  qed
  show "(ucast v :: byte) AND 0xf0 = 0" if "v < 16"
  proof (rule bit_word_eqI)
    fix k :: nat
    have "k < 4" if "bit v k" using bit_below [of v 4 k] \<open>v < 16\<close> that by (simp add: word_less_nat_alt)
    then show "bit ((ucast v :: byte) AND 0xf0) k = bit (0 :: byte) k"
      using bits_f0 [of k] by (auto simp: bit_ucast_iff bit_and_iff)
  qed
qed

lemma EncodeVarint32_length: "unat v < 2 ^ (7 * Suc k) \<Longrightarrow> length (EncodeVarint32 v) \<le> Suc k"
proof (induction k arbitrary: v)
  case 0
  then show ?case by (subst EncodeVarint32.simps) (simp add: word_le_nat_alt)
next
  case (Suc k)
  have "unat (drop_bit 7 v) < 2 ^ (7 * Suc k)"
    using Suc.prems unfolding unat_drop_bit_eq by (simp add: drop_bit_eq_div less_mult_imp_div_less power_add)
  then show ?case using Suc.IH by (subst EncodeVarint32.simps) simp
qed

lemma EncodeVarint32_bytes:
  "EncodeVarint32 v \<noteq> []" "\<forall>b \<in> set (butlast (EncodeVarint32 v)). b AND 0x80 \<noteq> 0" "last (EncodeVarint32 v) AND 0x80 = 0"
proof -
  have "EncodeVarint32 v \<noteq> [] \<and> (\<forall>b \<in> set (butlast (EncodeVarint32 v)). b AND 0x80 \<noteq> 0) \<and> last (EncodeVarint32 v) AND 0x80 = 0"
  proof (induction v rule: EncodeVarint32.induct)
    case (1 v)
    show ?case
    proof (cases "v \<ge> 128")
      case True
      then have "EncodeVarint32 v = ucast ((v AND 0x7f) OR 0x80) # EncodeVarint32 (drop_bit 7 v)"
        by (subst EncodeVarint32.simps) simp
      then show ?thesis using 1 [OF True] varint_byte(1) [of v] by (auto split: if_splits)
    next
      case False
      then have "EncodeVarint32 v = [ucast v]" by (subst EncodeVarint32.simps) simp
      then show ?thesis using False varint_byte(3) [of v] by simp
    qed
  qed
  then show "EncodeVarint32 v \<noteq> []" "\<forall>b \<in> set (butlast (EncodeVarint32 v)). b AND 0x80 \<noteq> 0" "last (EncodeVarint32 v) AND 0x80 = 0"
    by blast+
qed

lemma EncodeVarint32_last:
  "length (EncodeVarint32 v) = Suc k \<Longrightarrow> unat v < 2 ^ (7 * k + 4) \<Longrightarrow> last (EncodeVarint32 v) AND 0xf0 = 0"
proof (induction k arbitrary: v)
  case 0
  have "\<not> v \<ge> 128" using 0(2) by (simp add: word_le_nat_alt)
  then have "EncodeVarint32 v = [ucast v]" by (subst EncodeVarint32.simps) simp
  then show ?case using 0(2) varint_byte(5) [of v] by (simp add: word_less_nat_alt)
next
  case (Suc k)
  show ?case
  proof (cases "v \<ge> 128")
    case True
    then have e: "EncodeVarint32 v = ucast ((v AND 0x7f) OR 0x80) # EncodeVarint32 (drop_bit 7 v)"
      by (subst EncodeVarint32.simps) simp
    have "unat (drop_bit 7 v) < 2 ^ (7 * k + 4)"
      using Suc.prems(2) unfolding unat_drop_bit_eq by (simp add: drop_bit_eq_div less_mult_imp_div_less power_add)
    then show ?thesis using Suc.IH [of "drop_bit 7 v"] Suc.prems(1) EncodeVarint32_bytes(1) [of "drop_bit 7 v"] e by simp
  next
    case False
    then have "EncodeVarint32 v = [ucast v]" by (subst EncodeVarint32.simps) simp
    then show ?thesis using Suc.prems(1) by simp
  qed
qed

lemma args_size_limit:
  assumes "unat (a :: u32) = n" and "k \<le> kMaxHeader" and "n \<le> kMaxMessage - k - 5"
  shows "\<not> a > of_nat kMaxMessage - of_nat k - 5"
proof -
  have "(of_nat kMaxMessage - of_nat k - 5 :: u32) = of_nat (kMaxMessage - k - 5)"
    using assms(2) by (simp add: kMaxMessage_def kMaxHeader_def)
  moreover have "unat (of_nat (kMaxMessage - k - 5) :: u32) = kMaxMessage - k - 5"
    by (simp add: unsigned_of_nat kMaxMessage_def take_bit_nat_eq_self)
  ultimately show ?thesis using assms(1,3) by (simp add: word_less_nat_alt)
qed

lemma unat_add_small:
  fixes b m :: u64
  assumes "unat b + n \<le> unat m"
  shows "unat (of_nat n :: u64) = n" and "unat (b + of_nat n) = unat b + n"
proof -
  have m: "unat m < 2 ^ 64" using unsigned_less [of m] by simp
  show n: "unat (of_nat n :: u64) = n"
    using assms m by (simp add: unsigned_of_nat take_bit_nat_eq_self)
  show "unat (b + of_nat n) = unat b + n" using assms m n by (simp add: unat_word_ariths)
qed

lemma Reservation_Add_room:
  assumes "unat b + n \<le> unat m"
  shows "Reservation_Add m (of_nat n) (b, k) = Some (b + of_nat n, k + of_nat n)"
proof -
  have n: "unat (of_nat n :: u64) = n" by (rule unat_add_small(1) [OF assms])
  then have "of_nat n \<le> m" using assms by (simp add: word_le_nat_alt)
  then have "unat (m - of_nat n) = unat m - n" using n by (simp add: unat_sub)
  then show ?thesis using assms n by (simp add: Reservation_Add_def word_less_nat_alt)
qed

context byte_reader
begin

lemma ReadVarint32_loop_exact:
  "i \<le> 4 \<Longrightarrow> unat v < 2 ^ (32 - 7 * i) \<Longrightarrow> ready s \<Longrightarrow> contents s = EncodeVarint32 v @ rest \<Longrightarrow>
   \<exists>s'. ReadVarint32_loop rd i acc s = (Value (acc OR push_bit (7 * i) v), s') \<and> ready s' \<and> contents s' = rest"
proof (induction v arbitrary: i acc s rule: EncodeVarint32.induct)
  case (1 v)
  show ?case
  proof (cases "v \<ge> 128")
    case True
    let ?b = "ucast ((v AND 0x7f) OR 0x80) :: byte"
    have "i < 4"
    proof (rule ccontr)
      assume "\<not> i < 4"
      then have "i = 4" using "1.prems"(1) by simp
      then show False using True "1.prems"(2) by (simp add: word_le_nat_alt)
    qed
    have "contents s = [?b] @ EncodeVarint32 (drop_bit 7 v) @ rest"
      using "1.prems"(4) True by (subst (asm) EncodeVarint32.simps) simp
    from rd_exact [OF "1.prems"(3) this] obtain s1 where s1: "rd 1 s = (Got [?b], s1)" "ready s1"
        "contents s1 = EncodeVarint32 (drop_bit 7 v) @ rest"
      by auto
    have "unat (drop_bit 7 v) < 2 ^ (32 - 7 * Suc i)"
    proof -
      obtain k where k: "32 - 7 * i = k + 7" "32 - 7 * Suc i = k" 
      proof
        show "32 - 7 * i = (32 - 7 * Suc i) + 7" using \<open>i < 4\<close> by presburger
      qed simp
      show ?thesis using "1.prems"(2) unfolding unat_drop_bit_eq k
        by (simp add: drop_bit_eq_div less_mult_imp_div_less power_add)
    qed
    from "1.IH" [OF True _ this s1(2,3), of "acc OR push_bit (i * 7) (v AND 0x7f)"] \<open>i < 4\<close>
    obtain s' where s': "ReadVarint32_loop rd (Suc i) (acc OR push_bit (i * 7) (v AND 0x7f)) s1 =
        (Value ((acc OR push_bit (i * 7) (v AND 0x7f)) OR push_bit (7 * Suc i) (drop_bit 7 v)), s')" "ready s'" "contents s' = rest"
      by auto
    have "(acc OR push_bit (i * 7) (v AND 0x7f)) OR push_bit (7 * Suc i) (drop_bit 7 v) = acc OR push_bit (7 * i) v"
      using varint_glue [of "7 * i" v] by (simp add: or.assoc mult.commute add.commute)
    moreover have "ReadVarint32_loop rd i acc s = ReadVarint32_loop rd (Suc i) (acc OR push_bit (i * 7) (v AND 0x7f)) s1"
      using \<open>i < 4\<close> varint_byte(1) [of v]
      unfolding ReadVarint32_loop.simps [of rd i] s1(1) prod.case net_result.case Let_def list.sel varint_byte(2) by simp
    ultimately show ?thesis using s' by simp
  next
    case False
    then have v: "v < 128" by simp
    have "contents s = [ucast v] @ rest"
      using "1.prems"(4) False by (subst (asm) EncodeVarint32.simps) simp
    from rd_exact [OF "1.prems"(3) this] obtain s1 where s1: "rd 1 s = (Got [ucast v], s1)" "ready s1" "contents s1 = rest"
      by auto
    have "\<not> (i = 4 \<and> (ucast v :: byte) AND 0xf0 \<noteq> 0)"
      using "1.prems"(2) varint_byte(5) [of v] by (auto simp: word_less_nat_alt)
    then have "ReadVarint32_loop rd i acc s = (Value (acc OR push_bit (7 * i) v), s1)"
      using "1.prems"(1) varint_byte(3) [OF v]
      unfolding ReadVarint32_loop.simps [of rd i] s1(1) prod.case net_result.case Let_def list.sel varint_byte(4) [OF v]
      by (simp add: mult.commute)
    then show ?thesis using s1(2,3) by simp
  qed
qed

lemma ReadVarint32_exact:
  assumes "ready s" and "contents s = EncodeVarint32 v @ rest"
  shows "\<exists>s'. ReadVarint32 rd s = (Value v, s') \<and> ready s' \<and> contents s' = rest"
proof -
  have "unat v < 2 ^ 32" using unsigned_less [of v] by simp
  then show ?thesis
    using ReadVarint32_loop_exact [of 0 v s rest 0] assms by (simp add: ReadVarint32_def)
qed

text \<open>The client reads back a frame, and so does the provider, if it has room for it.\<close>

lemma encode_frame_Inr:
  assumes "encode_frame ser h args = Inr frame" and "ser h = Some enc"
  shows "frame = EncodeVarint32 (of_nat (length enc)) @ enc @ args" and "enc \<noteq> []" and "length enc \<le> kMaxHeader"
    and "length args \<le> kMaxMessage - length enc - 5" and "unat (of_nat (length enc) :: u32) = length enc"
proof -
  show l: "length enc \<le> kMaxHeader" using assms by (auto simp: encode_frame_def split: if_splits)
  show "unat (of_nat (length enc) :: u32) = length enc"
    using l by (simp add: unsigned_of_nat kMaxHeader_def take_bit_nat_eq_self)
qed (use assms in \<open>auto simp: encode_frame_def split: if_splits\<close>)

lemma reader_round_raw:
  assumes "ready s" and "contents s = EncodeVarint32 (of_nat (length enc)) @ enc @ args @ rest" and "enc \<noteq> []"
    and "length enc \<le> kMaxHeader" and "parse enc = Some h" and "unat (args_size h) = length args"
  shows "\<exists>s'. reader_round rd parse closed s = (Deliver h args, s') \<and> ready s' \<and> contents s' = rest"
proof -
  have l: "unat (of_nat (length enc) :: u32) = length enc"
    using assms(4) by (simp add: unsigned_of_nat kMaxHeader_def take_bit_nat_eq_self)
  obtain s1 where s1: "ReadVarint32 rd s = (Value (of_nat (length enc)), s1)" "ready s1" "contents s1 = enc @ args @ rest"
    using ReadVarint32_exact [OF assms(1,2)] by blast
  obtain s2 where s2: "read_body rd (length enc) s1 = (Value enc, s2)" "ready s2" "contents s2 = args @ rest"
    using read_body_exact [OF s1(2,3)] by blast
  obtain s3 where s3: "read_body rd (length args) s2 = (Value args, s3)" "ready s3" "contents s3 = rest"
    using read_body_exact [OF s2(2,3)] by blast
  have "of_nat (length enc) \<noteq> (0 :: u32)" using assms(3) l by auto
  then show ?thesis
    using s3(2,3) assms(4) by (simp add: reader_round_def s1(1) s2(1) s3(1) l assms(5,6))
qed

lemma reader_round_exact:
  assumes "ready s" and "contents s = frame @ rest" and "encode_frame ser h args = Inr frame" and "ser h = Some enc"
    and "parse enc = Some h" and "args_size h = of_nat (length args)"
  shows "\<exists>s'. reader_round rd parse closed s = (Deliver h args, s') \<and> ready s' \<and> contents s' = rest"
proof (rule reader_round_raw [where parse = parse, OF assms(1) _ _ _ assms(5)])
  note f = encode_frame_Inr [OF assms(3,4)]
  show "contents s = EncodeVarint32 (of_nat (length enc)) @ enc @ args @ rest" using assms(2) f(1) by simp
  show "enc \<noteq> []" "length enc \<le> kMaxHeader" by (rule f)+
  show "unat (args_size h) = length args"
    using f(4) assms(6) by (simp add: unsigned_of_nat kMaxMessage_def take_bit_nat_eq_self)
qed

lemma read_request_exact:
  assumes "ready s" and "contents s = frame @ rest" and "encode_frame ser h args = Inr frame" and "ser h = Some enc"
    and "parse enc = Some h" and "args_size h = of_nat (length args)"
    and room: "unat buffered + length enc + length args \<le> unat max_buffered"
  shows "\<exists>s'. read_request rd parse max_buffered buffered s =
      (Request h args, (buffered + of_nat (length enc) + of_nat (length args), of_nat (length enc) + of_nat (length args)), s') \<and>
    ready s' \<and> contents s' = rest"
proof -
  note f = encode_frame_Inr [OF assms(3,4)]
  have n: "unat (args_size h) = length args"
    using f(4) assms(6) by (simp add: unsigned_of_nat kMaxMessage_def take_bit_nat_eq_self)
  obtain s1 where s1: "ReadVarint32 rd s = (Value (of_nat (length enc)), s1)" "ready s1" "contents s1 = enc @ args @ rest"
    using ReadVarint32_exact [OF assms(1), of "of_nat (length enc)" "enc @ args @ rest"] assms(2) f(1) by auto
  obtain s2 where s2: "read_body rd (length enc) s1 = (Value enc, s2)" "ready s2" "contents s2 = args @ rest"
    using read_body_exact [OF s1(2,3)] by blast
  obtain s3 where s3: "read_body rd (length args) s2 = (Value args, s3)" "ready s3" "contents s3 = rest"
    using read_body_exact [OF s2(2,3)] by blast
  have z: "of_nat (length enc) \<noteq> (0 :: u32)" using f(2,5) by auto
  have u1: "ucast (of_nat (length enc) :: u32) = (of_nat (length enc) :: u64)"
    using f(5) by (metis of_nat_unat)
  have u2: "ucast (args_size h) = (of_nat (length args) :: u64)"
    using n by (metis of_nat_unat)
  have lim: "\<not> args_size h > of_nat kMaxMessage - of_nat (length enc) - 5"
    by (rule args_size_limit [OF n f(3,4)])
  have r1: "Reservation_Add max_buffered (of_nat (length enc)) (buffered, 0) = Some (buffered + of_nat (length enc), of_nat (length enc))"
    and r2: "Reservation_Add max_buffered (of_nat (length args)) (buffered + of_nat (length enc), of_nat (length enc)) =
      Some (buffered + of_nat (length enc) + of_nat (length args), of_nat (length enc) + of_nat (length args))"
    using Reservation_Add_room [of buffered "length enc" max_buffered 0] room
      Reservation_Add_room [of "buffered + of_nat (length enc)" "length args" max_buffered "of_nat (length enc)"]
      unat_add_small [of buffered "length enc" max_buffered] by simp_all
  show ?thesis
    using s3(2,3) f(3) z
    by (simp add: read_request_def Let_def s1(1) s2(1) s3(1) f(5) n assms(5) u1 u2 lim r1 r2)
qed

end

section \<open>The connection as a reader\<close>

text \<open>\<^verbatim>\<open>ReadExact\<close> on a connection with the answers of the kernel and the bytes still to arrive.\<close>

definition net_read ::
  "nat \<Rightarrow> net_attempt list \<times> byte list \<times> Connection \<Rightarrow> net_result \<times> (net_attempt list \<times> byte list \<times> Connection)" where
  "net_read n s =
     (case s of (as, stream, c) \<Rightarrow>
        (case read_enter c of
           None \<Rightarrow> (Fail EBUSY, s)
         | Some c \<Rightarrow> (case ReadExact_loop n [] as stream of (r, buf, as, stream) \<Rightarrow> (r, (as, stream, read_leave c)))))"

lemma net_read_ReadExact:
  "net_read n (as, stream, c) = (r, (as', stream', c')) \<Longrightarrow> \<exists>buf. ReadExact n as stream c = (r, buf, stream', c')"
  by (auto simp: net_read_def ReadExact_def read_enter_def split: prod.splits if_splits)

definition net_ready :: "net_attempt list \<times> byte list \<times> Connection \<Rightarrow> bool" where
  "net_ready s \<longleftrightarrow> (case s of (as, stream, c) \<Rightarrow>
     \<not> c_reading c \<and> (\<forall>a \<in> set as. benign a) \<and> length stream \<le> length (filter progress as))"

interpretation net: byte_reader net_read "\<lambda>s. fst (snd s)" net_ready
proof unfold_locales
  fix n s bs and s' :: "net_attempt list \<times> byte list \<times> Connection"
  assume r: "net_read n s = (Got bs, s')"
  obtain as stream c where s: "s = (as, stream, c)" by (cases s)
  obtain buf as' stream' where l: "ReadExact_loop n [] as stream = (Got bs, buf, as', stream')" "fst (snd s') = stream'"
    using r by (auto simp: net_read_def s read_enter_def split: prod.splits if_splits)
  show "fst (snd s) = bs @ fst (snd s') \<and> length bs = n"
    using ReadExact_loop_stream [OF l(1)] by (auto simp: s l(2))
next
  fix n and s :: "net_attempt list \<times> byte list \<times> Connection"
  assume a: "net_ready s" "n \<le> length (fst (snd s))"
  obtain as stream c where s: "s = (as, stream, c)" by (cases s)
  have b: "\<not> c_reading c" "\<forall>a \<in> set as. benign a" "length stream \<le> length (filter progress as)" "n \<le> length stream"
    using a by (simp_all add: s net_ready_def)
  obtain bs as' stream' where l: "ReadExact_loop n [] as stream = (Got bs, bs, as', stream')" "set as' \<subseteq> set as"
      "length (filter progress as) \<le> length (filter progress as') + n"
    using ReadExact_loop_benign [of as n "[]" stream] b by auto
  have "length stream' \<le> length (filter progress as')" using ReadExact_loop_stream [OF l(1)] l(3) b(3) by auto
  then have "net_read n s = (Got bs, (as', stream', read_leave (c\<lparr>c_reading := True\<rparr>))) \<and>
      net_ready (as', stream', read_leave (c\<lparr>c_reading := True\<rparr>))"
    using b(1,2) l(1,2) by (auto simp: net_read_def s read_enter_def net_ready_def read_leave_def)
  then show "\<exists>bs s'. net_read n s = (Got bs, s') \<and> net_ready s'" by blast
qed

section \<open>Properties of the wire format\<close>

text \<open>
  C35: The wire type of a length: \<^verbatim>\<open>EncodeVarint32\<close> gives one to five bytes, every byte but the last has
  its top bit set, the last has not, and a fifth byte has only its four low bits. So it is
  accepted by \<^verbatim>\<open>ReadVarint32\<close>, which gives the number back.
\<close>

theorem varint_wire_type:
  "length (EncodeVarint32 v) \<in> {1..5} \<and> (\<forall>b \<in> set (butlast (EncodeVarint32 v)). b AND 0x80 \<noteq> 0) \<and>
   last (EncodeVarint32 v) AND 0x80 = 0 \<and>
   (length (EncodeVarint32 v) = 5 \<longrightarrow> last (EncodeVarint32 v) AND 0xf0 = 0) \<and>
   (\<forall>s. net_ready s \<longrightarrow> fst (snd s) = EncodeVarint32 v \<longrightarrow> fst (ReadVarint32 net_read s) = Value v)"
proof (intro conjI)
  have "unat v < 2 ^ 32" using unsigned_less [of v] by simp
  then have "unat v < 2 ^ (7 * Suc 4)" by simp
  then have "length (EncodeVarint32 v) \<le> 5" using EncodeVarint32_length [of v 4] by simp
  then show "length (EncodeVarint32 v) \<in> {1..5}" using EncodeVarint32_bytes(1) [of v] by (cases "EncodeVarint32 v") auto
  show "\<forall>b \<in> set (butlast (EncodeVarint32 v)). b AND 0x80 \<noteq> 0" "last (EncodeVarint32 v) AND 0x80 = 0"
    by (rule EncodeVarint32_bytes)+
  show "length (EncodeVarint32 v) = 5 \<longrightarrow> last (EncodeVarint32 v) AND 0xf0 = 0"
    using EncodeVarint32_last [of v 4] \<open>unat v < 2 ^ 32\<close> by simp
  show "\<forall>s. net_ready s \<longrightarrow> fst (snd s) = EncodeVarint32 v \<longrightarrow> fst (ReadVarint32 net_read s) = Value v"
    using net.ReadVarint32_exact [of _ v "[]"] by fastforce
qed

definition example_attempt :: net_attempt where
  "example_attempt = \<lparr>na_closed = False, na_answer = Count 64, na_wait = None\<rparr>"

lemma example_attempt_ok [simp]: "benign example_attempt" "progress example_attempt"
  by (simp_all add: benign_def progress_def example_attempt_def)

lemma example_ready: "length stream \<le> n \<Longrightarrow> net_ready (replicate n example_attempt, stream, Connection_new 4)"
  by (simp add: net_ready_def Connection_new_def filter_replicate)

lemma EncodeVarint32_300: "EncodeVarint32 300 = [0xAC, 2]"
proof -
  have "drop_bit 7 (300 :: u32) = 2" by (simp add: drop_bit_eq_div)
  then show ?thesis by (subst EncodeVarint32.simps, simp, subst EncodeVarint32.simps, simp)
qed

theorem varint_wire_type_witness:
  "length (EncodeVarint32 300) \<in> {1..5} \<and> last (EncodeVarint32 300) AND 0x80 = 0 \<and>
   fst (ReadVarint32 net_read (replicate 2 example_attempt, EncodeVarint32 300, Connection_new 4)) = Value 300"
  using varint_wire_type [of 300] example_ready [of "EncodeVarint32 300" 2] by (auto simp: EncodeVarint32_300)

text \<open>
  C36: A request or response that one side writes is what the other side reads. If \<^verbatim>\<open>WriteAll\<close>
  sent a frame completely, the reader of the channel delivers exactly its header and message,
  and so does the provider if its memory limit allows, however the kernel cuts the stream;
  what follows the frame is left for the next read. Protobuf parses what it serialised.
\<close>

theorem rpc_frame_roundtrip:
  assumes "encode_frame ser h args = Inr frame" and "args_size h = of_nat (length args)"
    and "ser h = Some enc" and "parse enc = Some h"
    and "WriteAll frame sends c = (Got out, out, c')"
    and "net_ready (as, out @ rest, d)"
  shows "(\<exists>as' d'. reader_round net_read parse closed (as, out @ rest, d) = (Deliver h args, (as', rest, d'))) \<and>
    (unat buffered + length enc + length args \<le> unat max_buffered \<longrightarrow>
      (\<exists>r as' d'. read_request net_read parse max_buffered buffered (as, out @ rest, d) = (Request h args, r, (as', rest, d'))))"
proof -
  have "\<not> c_writing c" using assms(5) by (auto simp: WriteAll_def)
  then have "WriteAll_loop frame [] sends = (Got out, out)"
    using assms(5) by (auto simp: WriteAll_def Let_def split: prod.splits)
  then have o: "out = frame" using WriteAll_loop_out [of frame "[]" sends "Got out" out] by auto
  have r: "fst (snd (as, out @ rest, d)) = frame @ rest" by (simp add: o)
  show ?thesis
    using net.reader_round_exact [where ser = ser and parse = parse, OF assms(6) r assms(1,3,4,2), of closed]
      net.read_request_exact [where ser = ser and parse = parse, OF assms(6) r assms(1,3,4,2), of buffered max_buffered]
    by (auto simp: prod_eq_iff)
qed

definition example_header :: RpcHeader where
  "example_header = \<lparr>service_name = [69], method_name = [70], args_size = 3, request_id = 1, rpc_error_text = []\<rparr>"

theorem rpc_frame_roundtrip_witness:
  "\<exists>as' d'. reader_round net_read (\<lambda>bs. if bs = [9, 9] then Some example_header else None) False
     (replicate 8 example_attempt, [2, 9, 9, 1, 2, 3] @ [5], Connection_new 4) = (Deliver example_header [1, 2, 3], (as', [5], d'))"
proof -
  have v: "EncodeVarint32 2 = [2]" by (subst EncodeVarint32.simps) simp
  have f: "encode_frame (\<lambda>h. if h = example_header then Some [9, 9] else None) example_header [1, 2, 3] = Inr [2, 9, 9, 1, 2, 3]"
    by (simp add: encode_frame_def v kMaxHeader_def kMaxMessage_def)
  have w: "WriteAll [2, 9, 9, 1, 2, 3] [example_attempt] (Connection_new 4) = (Got [2, 9, 9, 1, 2, 3], [2, 9, 9, 1, 2, 3], Connection_new 4)"
    by (simp add: WriteAll_def Connection_new_def example_attempt_def)
  show ?thesis
    using rpc_frame_roundtrip [OF f _ _ _ w example_ready [of "[2, 9, 9, 1, 2, 3] @ [5]" 8],
        where enc = "[9, 9]" and parse = "\<lambda>bs. if bs = [9, 9] then Some example_header else None" and closed = False]
    by (simp add: example_header_def)
qed

end
