(* ===== verification/Rpc_Channel.thy ===== *)
theory Rpc_Channel
  imports Rpc_Codec
begin

text \<open>
  Model of \<^verbatim>\<open>rpc::Channel\<close>: the pool of slots with one call per connection, and the multiplexed
  connection with its table of pending calls and its reader. The shared objects of pending
  calls are a list by address. What \<^verbatim>\<open>Connection::Connect\<close> gives is the argument \<open>connect\<close>.
\<close>

section \<open>State\<close>

record Slot =
  slot_busy :: bool
  slot_conn :: "Connection option"

record PendingCall =
  pc_waiter :: fid
  pc_worker :: int
  pc_payload :: "byte list"
  pc_error :: string
  pc_done :: bool
  pc_failed :: bool

text \<open>
  \<open>ch_calls\<close> are the pending calls by address, \<open>ch_readers\<close> counts the submissions of \<^verbatim>\<open>ReaderLoop\<close>
  and \<open>ch_wakeups\<close> lists the submissions of waiting Fibers with the call they are for.
\<close>

record Channel =
  ch_timeout :: int
  ch_multiplex :: bool
  ch_slots :: "Slot list"
  ch_conn :: "Connection option"
  ch_pending :: "(u64, nat) smap"
  ch_next :: u64
  ch_reader_running :: bool
  ch_closed :: bool
  ch_calls :: "PendingCall list"
  ch_readers :: nat
  ch_wakeups :: "(nat \<times> fid \<times> int) list"

definition Channel_new :: "nat \<Rightarrow> int \<Rightarrow> bool \<Rightarrow> Channel" where
  "Channel_new limit duration is_multiplex =
     \<lparr>ch_timeout = duration, ch_multiplex = is_multiplex,
      ch_slots = (if is_multiplex then [] else replicate limit \<lparr>slot_busy = False, slot_conn = None\<rparr>),
      ch_conn = None, ch_pending = [], ch_next = 1, ch_reader_running = False, ch_closed = False,
      ch_calls = [], ch_readers = 0, ch_wakeups = []\<rparr>"

text \<open>\<^verbatim>\<open>Close\<close> as the channel sees it; the waiters it releases are part of \<^verbatim>\<open>Close\<close> of the connection.\<close>

definition shut :: "Connection \<Rightarrow> Connection" where
  "shut c = (if c_closed c then c else c\<lparr>c_closed := True, c_fd := - 1\<rparr>)"

definition Channel_destroy :: "Channel \<Rightarrow> Channel" where
  "Channel_destroy ch =
     ch\<lparr>ch_closed := True, ch_conn := map_option shut (ch_conn ch),
        ch_slots := map (\<lambda>s. s\<lparr>slot_conn := map_option shut (slot_conn s)\<rparr>) (ch_slots ch)\<rparr>"

text \<open>A null or closed connection has to be replaced.\<close>

definition usable :: "Connection option \<Rightarrow> bool" where
  "usable conn = (case conn of None \<Rightarrow> False | Some c \<Rightarrow> \<not> c_closed c)"

section \<open>One call per connection\<close>

primrec acquire_slot :: "Slot list \<Rightarrow> (nat \<times> Slot list) option" where
  "acquire_slot [] = None"
| "acquire_slot (s # slots) =
     (if \<not> slot_busy s then Some (0, s\<lparr>slot_busy := True\<rparr> # slots)
      else map_option (\<lambda>(i, slots). (Suc i, s # slots)) (acquire_slot slots))"

definition release_slot :: "bool \<Rightarrow> nat \<Rightarrow> Slot list \<Rightarrow> Slot list" where
  "release_slot success i slots =
     slots[i := (slots ! i)\<lparr>slot_conn := if success then slot_conn (slots ! i) else None, slot_busy := False\<rparr>]"

text \<open>The response: its length with the most significant byte first, then the message. \<open>None\<close>: not yet there.\<close>

definition read_reply ::
  "(nat \<Rightarrow> 's \<Rightarrow> net_result \<times> 's) \<Rightarrow> (byte list \<Rightarrow> bool) \<Rightarrow> 's \<Rightarrow> (rpc_error + byte list) option \<times> 's" where
  "read_reply rd parses s =
     (case rd 4 s of
        (Fail e, s) \<Rightarrow> (Some (Inl (LengthReadFailed e)), s)
      | (Unfinished, s) \<Rightarrow> (None, s)
      | (Got network_length, s) \<Rightarrow>
          (let len = be32_value network_length in
           if unat len > kMaxMessage then (Some (Inl ResponseTooLong), s)
           else
             (case read_body rd (unat len) s of
                (Bad e, s) \<Rightarrow> (Some (Inl (BodyReadFailed e)), s)
              | (Blocked, s) \<Rightarrow> (None, s)
              | (Value payload, s) \<Rightarrow>
                  (Some (if parses payload then Inr payload else Inl ResponseParseFailed), s))))"

text \<open>
  What a call meets: whether it runs in its I/O manager with all arguments, the serialised
  request, the names of the method, the outcome of \<^verbatim>\<open>Connect\<close>, the answers of the kernel to the
  writes and reads, and the bytes the peer sends.
\<close>

record call_env =
  ce_ok :: bool
  ce_args :: "byte list option"
  ce_service :: "byte list"
  ce_method :: "byte list"
  ce_connect :: "errno + Connection"
  ce_writes :: "net_attempt list"
  ce_reads :: "net_attempt list"
  ce_stream :: "byte list"

text \<open>
  The lambda \<^verbatim>\<open>call\<close>: its result with the connection of the slot afterwards, the bytes that were
  sent and the bytes of the peer that were not read.
\<close>

definition slot_call ::
  "(RpcHeader \<Rightarrow> byte list option) \<Rightarrow> (byte list \<Rightarrow> bool) \<Rightarrow> call_env \<Rightarrow> Connection option \<Rightarrow>
   (rpc_error + byte list) option \<times> Connection option \<times> byte list \<times> byte list" where
  "slot_call ser parses env conn =
     (case check_request (ce_ok env) (ce_args env) of
        Inl e \<Rightarrow> (Some (Inl e), conn, [], ce_stream env)
      | Inr args \<Rightarrow>
          (case encode_frame ser (request_header (ce_service env) (ce_method env) 0 args) args of
             Inl e \<Rightarrow> (Some (Inl e), conn, [], ce_stream env)
           | Inr frame \<Rightarrow>
               (case (if usable conn then Inr (the conn) else ce_connect env) of
                  Inl e \<Rightarrow> (Some (Inl (ConnectFailed e)), None, [], ce_stream env)
                | Inr c \<Rightarrow>
                    (case WriteAll frame (ce_writes env) c of
                       (Fail e, out, c) \<Rightarrow> (Some (Inl (SendUnknown e)), Some c, out, ce_stream env)
                     | (Unfinished, out, c) \<Rightarrow> (None, Some c, out, ce_stream env)
                     | (Got _, out, c) \<Rightarrow>
                         (case read_reply net_read parses (ce_reads env, ce_stream env, c) of
                            (r, (_, stream, c)) \<Rightarrow> (r, Some c, out, stream))))))"

text \<open>
  \<^verbatim>\<open>CallMethod\<close> of a channel that is not multiplexed, without other callers in between: the
  result, and the bytes sent and not read. A call that has not returned keeps its slot; one that
  returns runs \<^verbatim>\<open>done\<close> last. \<open>report\<close> is what its controller shows.
\<close>

definition report :: "rpc_error + byte list \<Rightarrow> Controller option \<Rightarrow> Controller option" where
  "report r c = (case r of Inl e \<Rightarrow> rpc_Fail e c | Inr _ \<Rightarrow> c)"

definition CallMethod_slot ::
  "(RpcHeader \<Rightarrow> byte list option) \<Rightarrow> (byte list \<Rightarrow> bool) \<Rightarrow> call_env \<Rightarrow> Channel \<Rightarrow>
   ((rpc_error + byte list) option \<times> byte list \<times> byte list) \<times> Channel" where
  "CallMethod_slot ser parses env ch =
     (case acquire_slot (ch_slots ch) of
        None \<Rightarrow> ((Some (Inl Overloaded), [], ce_stream env), ch)
      | Some (i, slots) \<Rightarrow>
          (case slot_call ser parses env (slot_conn (slots ! i)) of
             (r, conn, out, stream) \<Rightarrow>
               (let slots = slots[i := (slots ! i)\<lparr>slot_conn := conn\<rparr>] in
                ((r, out, stream),
                 ch\<lparr>ch_slots := (case r of None \<Rightarrow> slots | Some r \<Rightarrow> release_slot (case r of Inr _ \<Rightarrow> True | Inl _ \<Rightarrow> False) i slots)\<rparr>))))"

section \<open>Many calls on one connection\<close>

text \<open>The number of a request; 0 is skipped because it marks the other protocol.\<close>

definition next_id :: "Channel \<Rightarrow> u64 \<times> Channel" where
  "next_id ch =
     (let req_id = ch_next ch; ch = ch\<lparr>ch_next := ch_next ch + 1\<rparr> in
      if req_id = 0 then (ch_next ch, ch\<lparr>ch_next := ch_next ch + 1\<rparr>) else (req_id, ch))"

definition new_call :: "fid \<Rightarrow> int \<Rightarrow> Channel \<Rightarrow> nat \<times> Channel" where
  "new_call waiter worker ch =
     (length (ch_calls ch),
      ch\<lparr>ch_calls := ch_calls ch @
        [\<lparr>pc_waiter = waiter, pc_worker = worker, pc_payload = [], pc_error = [], pc_done = False, pc_failed = False\<rparr>]\<rparr>)"

text \<open>\<^verbatim>\<open>CallMethod\<close> until the call object exists: the number, the call and the frame.\<close>

definition mux_prepare ::
  "(RpcHeader \<Rightarrow> byte list option) \<Rightarrow> bool \<Rightarrow> byte list option \<Rightarrow> byte list \<Rightarrow> byte list \<Rightarrow> fid \<Rightarrow> int \<Rightarrow> Channel \<Rightarrow>
   (rpc_error + u64 \<times> nat \<times> byte list) \<times> Channel" where
  "mux_prepare ser ok args service method waiter worker ch =
     (case check_request ok args of
        Inl e \<Rightarrow> (Inl e, ch)
      | Inr args \<Rightarrow>
          (let (req_id, ch) = next_id ch in
           case encode_frame ser (request_header service method req_id args) args of
             Inl e \<Rightarrow> (Inl e, ch)
           | Inr frame \<Rightarrow> (let (i, ch) = new_call waiter worker ch in (Inr (req_id, i, frame), ch))))"

text \<open>The connection under \<^verbatim>\<open>write_mutex\<close>, with the start of the reader.\<close>

definition mux_connect :: "errno + Connection \<Rightarrow> Channel \<Rightarrow> rpc_error option \<times> Channel" where
  "mux_connect connect ch =
     (if usable (ch_conn ch) then (None, ch)
      else
        (case connect of
           Inl e \<Rightarrow> (Some (ConnectFailed e), ch\<lparr>ch_conn := None\<rparr>)
         | Inr c \<Rightarrow>
             (let ch = ch\<lparr>ch_conn := Some c\<rparr> in
              (None,
               if ch_reader_running ch then ch
               else ch\<lparr>ch_reader_running := True, ch_readers := Suc (ch_readers ch)\<rparr>))))"

definition mux_register :: "u64 \<Rightarrow> nat \<Rightarrow> Channel \<Rightarrow> Channel" where
  "mux_register req_id i ch = ch\<lparr>ch_pending := smap_upd req_id i (ch_pending ch)\<rparr>"

text \<open>The send; \<open>err\<close> is the \<^verbatim>\<open>errno\<close> at hand when there is no connection to write to.\<close>

definition mux_send :: "byte list \<Rightarrow> net_attempt list \<Rightarrow> errno \<Rightarrow> Channel \<Rightarrow> net_result \<times> byte list \<times> Channel" where
  "mux_send frame as err ch =
     (if usable (ch_conn ch)
      then (case WriteAll frame as (the (ch_conn ch)) of (r, out, c) \<Rightarrow> (r, out, ch\<lparr>ch_conn := Some c\<rparr>))
      else (Fail err, [], ch))"

definition mux_send_failed :: "u64 \<Rightarrow> Channel \<Rightarrow> Channel" where
  "mux_send_failed req_id ch = ch\<lparr>ch_pending := smap_erase req_id (ch_pending ch)\<rparr>"

text \<open>The timer that is armed before the Fiber parks, and its callback.\<close>

definition mux_timer :: "Channel \<Rightarrow> u64 option" where
  "mux_timer ch = (if ch_timeout ch > 0 then Some (word_of_int (ch_timeout ch)) else None)"

definition upd_call :: "nat \<Rightarrow> (PendingCall \<Rightarrow> PendingCall) \<Rightarrow> Channel \<Rightarrow> Channel" where
  "upd_call i f ch = ch\<lparr>ch_calls := (ch_calls ch)[i := f (ch_calls ch ! i)]\<rparr>"

definition wake :: "nat \<Rightarrow> Channel \<Rightarrow> Channel" where
  "wake i ch = ch\<lparr>ch_wakeups := ch_wakeups ch @ [(i, pc_waiter (ch_calls ch ! i), pc_worker (ch_calls ch ! i))]\<rparr>"

definition call_fail :: "rpc_error \<Rightarrow> nat \<Rightarrow> Channel \<Rightarrow> Channel" where
  "call_fail reason i ch = upd_call i (\<lambda>c. c\<lparr>pc_failed := True, pc_error := error_text reason, pc_done := True\<rparr>) ch"

definition mux_timeout :: "u64 \<Rightarrow> nat \<Rightarrow> Channel \<Rightarrow> Channel" where
  "mux_timeout req_id i ch =
     (case map_of (ch_pending ch) req_id of
        None \<Rightarrow> ch
      | Some _ \<Rightarrow> wake i (call_fail RequestTimeout i (ch\<lparr>ch_pending := smap_erase req_id (ch_pending ch)\<rparr>)))"

text \<open>The result after the Fiber was resumed: what the controller gets, or the response.\<close>

definition mux_finish :: "(byte list \<Rightarrow> bool) \<Rightarrow> nat \<Rightarrow> Channel \<Rightarrow> string + byte list" where
  "mux_finish parses i ch =
     (let call = ch_calls ch ! i in
      if pc_failed call then Inl (pc_error call)
      else if \<not> parses (pc_payload call) then Inl (error_text ResponseParseFailed)
      else Inr (pc_payload call))"

section \<open>The reader\<close>

text \<open>The condition of the loop of \<^verbatim>\<open>ReaderLoop\<close>, whose reading is \<open>reader_round\<close>.\<close>

definition reader_goes_on :: "Channel \<Rightarrow> bool" where
  "reader_goes_on ch \<longleftrightarrow> \<not> ch_closed ch \<and> usable (ch_conn ch)"

text \<open>A response: the look-up under \<^verbatim>\<open>pending_mutex\<close>, then the completion of the call.\<close>

definition response_take :: "u64 \<Rightarrow> Channel \<Rightarrow> nat option \<times> Channel" where
  "response_take req_id ch =
     (case map_of (ch_pending ch) req_id of
        None \<Rightarrow> (None, ch)
      | Some i \<Rightarrow> (Some i, ch\<lparr>ch_pending := smap_erase req_id (ch_pending ch)\<rparr>))"

definition response_complete :: "nat \<Rightarrow> RpcHeader \<Rightarrow> byte list \<Rightarrow> Channel \<Rightarrow> Channel" where
  "response_complete i header payload ch =
     wake i
       (if rpc_error_text header \<noteq> [] then call_fail (RemoteError (rpc_error_text header)) i ch
        else upd_call i (\<lambda>c. c\<lparr>pc_payload := payload, pc_done := True\<rparr>) ch)"

text \<open>The end of the reader: the connection, the table, and each call that was in it.\<close>

definition reader_leave :: "Channel \<Rightarrow> Channel" where
  "reader_leave ch = ch\<lparr>ch_reader_running := False, ch_conn := map_option shut (ch_conn ch)\<rparr>"

definition reader_swap :: "Channel \<Rightarrow> nat list \<times> Channel" where
  "reader_swap ch = (map snd (ch_pending ch), ch\<lparr>ch_pending := []\<rparr>)"

definition reader_fail :: "nat \<Rightarrow> Channel \<Rightarrow> Channel" where
  "reader_fail i ch = (if pc_done (ch_calls ch ! i) then ch else wake i (call_fail ConnectionClosed i ch))"

end
