(* ===== verification/Rpc_Mux.thy ===== *)
theory Rpc_Mux
  imports Rpc_Channel
begin

text \<open>
  The multiplexed channel: every call is completed exactly once, with the response that has
  its number. The proof follows the token of a call through the table, the reader and the
  completion.
\<close>

section \<open>Calls on a multiplexed connection\<close>

text \<open>
  The channel with its callers and readers. \<open>given\<close> counts the request numbers taken and \<open>ids\<close> has
  the number of each call; \<open>regd\<close> are the calls that were registered and \<open>withdrawn\<close> those
  their caller removed after a failed send; \<open>transit\<close> are the calls a reader has taken out of the
  table with the response for them, \<open>remaining\<close> those it took out at its end; \<open>received\<close> are all
  responses read.
\<close>

record mux_sys =
  mch :: Channel
  given :: nat
  ids :: "u64 list"
  regd :: "nat set"
  withdrawn :: "nat set"
  transit :: "(nat \<times> RpcHeader \<times> byte list) list"
  remaining :: "nat list"
  received :: "(RpcHeader \<times> byte list) list"

inductive mux_step :: "mux_sys \<Rightarrow> mux_sys \<Rightarrow> bool" where
  mux_refused: "check_request ok args = Inl e \<Longrightarrow> mux_step S S"
| mux_began: "check_request ok args = Inr bs \<Longrightarrow>
    mux_prepare ser ok args service method waiter worker (mch S) = (r, ch) \<Longrightarrow>
    mux_step S (S\<lparr>given := Suc (given S), mch := ch, ids := ids S @ (case r of Inl _ \<Rightarrow> [] | Inr (req_id, _) \<Rightarrow> [req_id])\<rparr>)"
| mux_connected: "mux_connect k (mch S) = (e, ch) \<Longrightarrow> mux_step S (S\<lparr>mch := ch\<rparr>)"
| mux_registered: "i < length (ids S) \<Longrightarrow> i \<notin> regd S \<Longrightarrow>
    mux_step S (S\<lparr>mch := mux_register (ids S ! i) i (mch S), regd := insert i (regd S)\<rparr>)"
| mux_sent: "mux_send frame as err (mch S) = (r, out, ch) \<Longrightarrow> mux_step S (S\<lparr>mch := ch\<rparr>)"
| mux_gave_up: "i \<in> regd S \<Longrightarrow>
    mux_step S (S\<lparr>mch := mux_send_failed (ids S ! i) (mch S),
      withdrawn := (if map_of (ch_pending (mch S)) (ids S ! i) = None then withdrawn S else insert i (withdrawn S))\<rparr>)"
| mux_timed_out: "i \<in> regd S \<Longrightarrow> mux_step S (S\<lparr>mch := mux_timeout (ids S ! i) i (mch S)\<rparr>)"
| mux_response: "response_take (request_id h) (mch S) = (found, ch) \<Longrightarrow>
    mux_step S (S\<lparr>mch := ch, transit := (case found of None \<Rightarrow> transit S | Some i \<Rightarrow> (i, h, p) # transit S),
      received := received S @ [(h, p)]\<rparr>)"
| mux_completed: "transit S = ts @ (i, h, p) # us \<Longrightarrow>
    mux_step S (S\<lparr>transit := ts @ us, mch := response_complete i h p (mch S)\<rparr>)"
| mux_left: "mux_step S (S\<lparr>mch := reader_leave (mch S)\<rparr>)"
| mux_swapped: "reader_swap (mch S) = (rs, ch) \<Longrightarrow> mux_step S (S\<lparr>mch := ch, remaining := remaining S @ rs\<rparr>)"
| mux_failed: "remaining S = rs @ i # qs \<Longrightarrow> mux_step S (S\<lparr>remaining := rs @ qs, mch := reader_fail i (mch S)\<rparr>)"
| mux_destroyed: "mux_step S (S\<lparr>mch := Channel_destroy (mch S)\<rparr>)"

inductive_cases mux_stepE: "mux_step S S'"

definition mux_init :: "mux_sys \<Rightarrow> bool" where
  "mux_init S \<longleftrightarrow> mch S = Channel_new 1 (ch_timeout (mch S)) True \<and> given S = 0 \<and> ids S = [] \<and> regd S = {} \<and>
     withdrawn S = {} \<and> transit S = [] \<and> remaining S = [] \<and> received S = []"

text \<open>How a call was completed: by a response with its number, by its timer or by the end of the reader.\<close>

definition settled_by :: "mux_sys \<Rightarrow> nat \<Rightarrow> PendingCall \<Rightarrow> bool" where
  "settled_by S i c \<longleftrightarrow>
     (if pc_failed c
      then pc_error c = error_text RequestTimeout \<or> pc_error c = error_text ConnectionClosed \<or>
        (\<exists>h p. (h, p) \<in> set (received S) \<and> request_id h = ids S ! i \<and> rpc_error_text h \<noteq> [] \<and>
           pc_error c = error_text (RemoteError (rpc_error_text h)))
      else (\<exists>h. (h, pc_payload c) \<in> set (received S) \<and> request_id h = ids S ! i \<and> rpc_error_text h = []))"

definition reader_calls :: "mux_sys \<Rightarrow> nat list" where
  "reader_calls S = map fst (transit S) @ remaining S"

abbreviation call_done :: "mux_sys \<Rightarrow> nat \<Rightarrow> bool" where
  "call_done S i \<equiv> pc_done (ch_calls (mch S) ! i)"

abbreviation is_pending :: "mux_sys \<Rightarrow> nat \<Rightarrow> bool" where
  "is_pending S i \<equiv> map_of (ch_pending (mch S)) (ids S ! i) = Some i"

text \<open>The numbers are different as long as the counter did not wrap.\<close>

definition ids_ok :: "mux_sys \<Rightarrow> bool" where
  "ids_ok S \<longleftrightarrow> ch_next (mch S) = of_nat (Suc (given S)) \<and> length (ids S) = length (ch_calls (mch S)) \<and> distinct (ids S) \<and>
     (\<forall>q \<in> set (ids S). q \<noteq> 0 \<and> unat q \<le> given S) \<and> regd S \<subseteq> {..<length (ids S)}"

text \<open>
  Every registered call has one token: it is withdrawn, done, held by a reader, in the table,
  or in \<open>X\<close>, the tokens a step has in hand.
\<close>

definition tokens :: "nat set \<Rightarrow> mux_sys \<Rightarrow> nat \<Rightarrow> nat" where
  "tokens X S i = of_bool (i \<in> withdrawn S) + of_bool (i < length (ids S) \<and> call_done S i) + count_list (reader_calls S) i +
     of_bool (is_pending S i) + of_bool (i \<in> X)"

definition tokens_ok :: "nat set \<Rightarrow> mux_sys \<Rightarrow> bool" where
  "tokens_ok X S \<longleftrightarrow> smap_inv (ch_pending (mch S)) \<and> (\<forall>q i. map_of (ch_pending (mch S)) q = Some i \<longrightarrow> ids S ! i = q) \<and>
     (\<forall>i. tokens X S i = of_bool (i \<in> regd S))"

text \<open>A Fiber is submitted once for each call that is done; the results come from their causes.\<close>

definition result_ok :: "mux_sys \<Rightarrow> nat \<Rightarrow> bool" where
  "result_ok S i \<longleftrightarrow>
     filter (\<lambda>w. fst w = i) (ch_wakeups (mch S)) =
       (if call_done S i then [(i, pc_waiter (ch_calls (mch S) ! i), pc_worker (ch_calls (mch S) ! i))] else []) \<and>
     (if call_done S i then settled_by S i (ch_calls (mch S) ! i) else \<not> pc_failed (ch_calls (mch S) ! i))"

definition results_ok :: "mux_sys \<Rightarrow> bool" where
  "results_ok S \<longleftrightarrow> (\<forall>i < length (ids S). result_ok S i) \<and>
     (\<forall>w \<in> set (ch_wakeups (mch S)). fst w < length (ids S)) \<and>
     (\<forall>i h p. (i, h, p) \<in> set (transit S) \<longrightarrow> (h, p) \<in> set (received S) \<and> request_id h = ids S ! i)"

definition mux_ok :: "nat set \<Rightarrow> mux_sys \<Rightarrow> bool" where
  "mux_ok X S \<longleftrightarrow> ids_ok S \<and> tokens_ok X S \<and> results_ok S"

definition mux_inv :: "mux_sys \<Rightarrow> bool" where
  "mux_inv S \<longleftrightarrow> (given S < 2 ^ 64 - 1 \<longrightarrow> mux_ok {} S)"

section \<open>Moves of tokens\<close>

lemma mux_okD:
  assumes "mux_ok X S"
  shows "ids_ok S" and "results_ok S" and "smap_inv (ch_pending (mch S))"
    and "map_of (ch_pending (mch S)) q = Some i \<Longrightarrow> ids S ! i = q" and "tokens X S i = of_bool (i \<in> regd S)"
    and "length (ch_calls (mch S)) = length (ids S)" and "i \<in> regd S \<Longrightarrow> i < length (ids S)"
  using assms by (auto simp: mux_ok_def tokens_ok_def ids_ok_def)

lemma ids_ok_cong:
  assumes "ids_ok S" and "ch_next (mch T) = ch_next (mch S)" and "length (ch_calls (mch T)) = length (ch_calls (mch S))"
    and "given T = given S" and "ids T = ids S" and "regd T \<subseteq> {..<length (ids S)} \<union> regd S"
  shows "ids_ok T"
  using assms unfolding ids_ok_def by fastforce

lemma results_ok_cong:
  assumes "results_ok S" and "ch_calls (mch T) = ch_calls (mch S)" and "ch_wakeups (mch T) = ch_wakeups (mch S)"
    and "ids T = ids S" and "set (received S) \<subseteq> set (received T)"
    and "\<And>i h p. (i, h, p) \<in> set (transit T) \<Longrightarrow> (i, h, p) \<in> set (transit S) \<or> (h, p) \<in> set (received T) \<and> request_id h = ids S ! i"
  shows "results_ok T"
proof -
  have s: "settled_by T i c" if "settled_by S i c" for i c
    using that assms(4,5) unfolding settled_by_def by (simp split: if_splits) blast+
  have "result_ok T i" if "result_ok S i" for i
    using that s unfolding result_ok_def assms(2,3) by (cases "call_done S i") simp_all
  then have 1: "\<forall>i < length (ids T). result_ok T i" using assms(1,4) by (simp add: results_ok_def)
  have 2: "\<forall>w \<in> set (ch_wakeups (mch T)). fst w < length (ids T)" using assms(1,3,4) by (simp add: results_ok_def)
  have "(h, p) \<in> set (received T) \<and> request_id h = ids T ! i" if "(i, h, p) \<in> set (transit T)" for i h p
    using assms(6) [OF that] assms(1,4,5) unfolding results_ok_def by auto
  then show ?thesis using 1 2 by (simp add: results_ok_def)
qed

text \<open>A change that keeps the calls and gives every call as many tokens as before.\<close>

lemma mux_okI:
  assumes "mux_ok X S" and "ids_ok T" and "results_ok T" and "smap_inv (ch_pending (mch T))"
    and "\<And>q i. map_of (ch_pending (mch T)) q = Some i \<Longrightarrow> ids T ! i = q"
    and "\<And>j. tokens Y T j + of_bool (j \<in> regd S) = tokens X S j + of_bool (j \<in> regd T)"
  shows "mux_ok Y T"
  unfolding mux_ok_def tokens_ok_def
proof (intro conjI allI impI)
  fix j
  show "tokens Y T j = of_bool (j \<in> regd T)" using assms(6) [of j] mux_okD(5) [OF assms(1), of j] by simp
qed (use assms in blast)+

text \<open>A call leaves the table.\<close>

lemma mux_ok_erase:
  assumes "mux_ok X S" and "map_of (ch_pending (mch S)) q = Some i"
  shows "mux_ok (insert i X) (S\<lparr>mch := (mch S)\<lparr>ch_pending := smap_erase q (ch_pending (mch S))\<rparr>\<rparr>)"
proof (rule mux_okI [OF assms(1)])
  note D = mux_okD [OF assms(1)]
  have i: "is_pending S i" using D(4) [OF assms(2)] assms(2) by simp
  have X: "i \<notin> X" using D(5) [of i] i by (cases "i \<in> regd S") (auto simp: tokens_def)
  fix j
  show "tokens (insert i X) (S\<lparr>mch := (mch S)\<lparr>ch_pending := smap_erase q (ch_pending (mch S))\<rparr>\<rparr>) j + of_bool (j \<in> regd S) =
      tokens X S j + of_bool (j \<in> regd (S\<lparr>mch := (mch S)\<lparr>ch_pending := smap_erase q (ch_pending (mch S))\<rparr>\<rparr>))"
    using i X assms(2) D(4) [OF assms(2)] by (cases "j = i") (auto simp: tokens_def reader_calls_def)
  show "ids_ok (S\<lparr>mch := (mch S)\<lparr>ch_pending := smap_erase q (ch_pending (mch S))\<rparr>\<rparr>)"
    using D(1) by (rule ids_ok_cong) simp_all
  show "results_ok (S\<lparr>mch := (mch S)\<lparr>ch_pending := smap_erase q (ch_pending (mch S))\<rparr>\<rparr>)"
    using D(2) by (rule results_ok_cong) simp_all
qed (use mux_okD [OF assms(1)] in \<open>auto split: if_splits\<close>)

text \<open>A call that is in hand is completed.\<close>

lemma mux_ok_complete:
  assumes "mux_ok X S" and "i \<in> X" and "\<And>c. \<not> pc_failed c \<Longrightarrow> settled_by S i (f c)" and "\<And>c. pc_done (f c)"
    and "\<And>c. pc_waiter (f c) = pc_waiter c \<and> pc_worker (f c) = pc_worker c"
  shows "mux_ok (X - {i}) (S\<lparr>mch := wake i (upd_call i f (mch S))\<rparr>)"
proof (rule mux_okI [OF assms(1)])
  let ?T = "S\<lparr>mch := wake i (upd_call i f (mch S))\<rparr>"
  note D = mux_okD [OF assms(1)]
  have r: "i \<in> regd S" using D(5) [of i] assms(2) by (cases "i \<in> regd S") (auto simp: tokens_def)
  then have l: "i < length (ids S)" by (rule D(7))
  have n: "\<not> call_done S i" using D(5) [of i] assms(2) l r by (auto simp: tokens_def)
  show "ids_ok ?T" using D(1) by (rule ids_ok_cong) (simp_all add: wake_def upd_call_def)
  show "results_ok ?T"
  proof -
    have "result_ok S i" using D(2) l by (simp add: results_ok_def)
    then have o: "\<not> pc_failed (ch_calls (mch S) ! i)" "filter (\<lambda>w. fst w = i) (ch_wakeups (mch S)) = []"
      using n by (simp_all add: result_ok_def)
    have s: "settled_by ?T = settled_by S" by (simp add: settled_by_def fun_eq_iff)
    have "result_ok ?T j" if "j < length (ids S)" for j
    proof (cases "j = i")
      case True
      then show ?thesis using assms(3) [OF o(1)] o(2) assms(4,5) l D(6)
        by (simp add: result_ok_def s) (simp add: wake_def upd_call_def)
    next
      case False
      have "result_ok S j" using D(2) that by (simp add: results_ok_def)
      then show ?thesis using False by (simp add: result_ok_def s) (simp add: wake_def upd_call_def)
    qed
    then show ?thesis using D(2) l by (auto simp: results_ok_def wake_def upd_call_def)
  qed
  fix j
  show "tokens (X - {i}) ?T j + of_bool (j \<in> regd S) = tokens X S j + of_bool (j \<in> regd ?T)"
    using l n D(6) assms(2,4) by (cases "j = i") (simp_all add: tokens_def reader_calls_def wake_def upd_call_def nth_list_update)
qed (use mux_okD [OF assms(1)] in \<open>auto simp: wake_def upd_call_def\<close>)

lemma mux_ok_frame:
  assumes "mux_ok X S" and "ch_pending ch = ch_pending (mch S)" and "ch_next ch = ch_next (mch S)"
    and "ch_calls ch = ch_calls (mch S)" and "ch_wakeups ch = ch_wakeups (mch S)"
  shows "mux_ok X (S\<lparr>mch := ch\<rparr>)"
proof (rule mux_okI [OF assms(1)])
  note D = mux_okD [OF assms(1)]
  show "ids_ok (S\<lparr>mch := ch\<rparr>)" using D(1) by (rule ids_ok_cong) (simp_all add: assms)
  show "results_ok (S\<lparr>mch := ch\<rparr>)" using D(2) by (rule results_ok_cong) (simp_all add: assms)
qed (use mux_okD [OF assms(1)] in \<open>simp_all add: assms tokens_def reader_calls_def\<close>)

lemma mux_ok_register:
  assumes "mux_ok {} S" and "i < length (ids S)" and "i \<notin> regd S"
  shows "mux_ok {} (S\<lparr>mch := mux_register (ids S ! i) i (mch S), regd := insert i (regd S)\<rparr>)"
proof (rule mux_okI [OF assms(1)])
  let ?T = "S\<lparr>mch := mux_register (ids S ! i) i (mch S), regd := insert i (regd S)\<rparr>"
  note D = mux_okD [OF assms(1)]
  have n: "map_of (ch_pending (mch S)) (ids S ! i) = None"
  proof (rule ccontr)
    assume "map_of (ch_pending (mch S)) (ids S ! i) \<noteq> None"
    then obtain j where j: "map_of (ch_pending (mch S)) (ids S ! i) = Some j" by auto
    have p: "ids S ! j = ids S ! i" by (rule D(4) [OF j])
    have r: "j \<in> regd S" using D(5) [of j] p j by (cases "j \<in> regd S") (auto simp: tokens_def)
    then have "j = i" using D(1) D(7) [OF r] p assms(2) by (simp add: ids_ok_def nth_eq_iff_index_eq)
    then show False using r assms(3) by simp
  qed
  show "ids_ok ?T" using D(1) by (rule ids_ok_cong) (use assms(2) in \<open>auto simp: mux_register_def\<close>)
  show "results_ok ?T" using D(2) by (rule results_ok_cong) (simp_all add: mux_register_def)
  show "smap_inv (ch_pending (mch ?T))" using D(3) by (simp add: mux_register_def)
  show "ids ?T ! j = q" if "map_of (ch_pending (mch ?T)) q = Some j" for q j
    using that D(3,4) by (auto simp: mux_register_def split: if_splits)
  fix j
  show "tokens {} ?T j + of_bool (j \<in> regd S) = tokens {} S j + of_bool (j \<in> regd ?T)"
  proof (cases "j = i")
    case True
    then show ?thesis using assms(3) n D(3) by (simp add: tokens_def reader_calls_def mux_register_def)
  next
    case False
    then have "is_pending ?T j = is_pending S j" using n D(3) by (auto simp: mux_register_def)
    then show ?thesis using False by (simp add: tokens_def reader_calls_def mux_register_def)
  qed
qed

lemma pending_own:
  assumes "mux_ok X S" and "i \<in> regd S" and "map_of (ch_pending (mch S)) (ids S ! i) = Some j"
  shows "j = i"
proof -
  note D = mux_okD [OF assms(1)]
  have p: "ids S ! j = ids S ! i" by (rule D(4) [OF assms(3)])
  have r: "j \<in> regd S" using D(5) [of j] p assms(3) by (cases "j \<in> regd S") (auto simp: tokens_def)
  then show ?thesis using D(1) D(7) [OF r] D(7) [OF assms(2)] p by (simp add: ids_ok_def nth_eq_iff_index_eq)
qed

lemma mux_ok_withdraw:
  assumes a: "mux_ok X S" "i \<in> X"
  shows "mux_ok (X - {i}) (S\<lparr>withdrawn := insert i (withdrawn S)\<rparr>)"
proof (rule mux_okI [OF a(1)])
  note D = mux_okD [OF a(1)]
  show "ids_ok (S\<lparr>withdrawn := insert i (withdrawn S)\<rparr>)" using D(1) by (rule ids_ok_cong) simp_all
  show "results_ok (S\<lparr>withdrawn := insert i (withdrawn S)\<rparr>)" using D(2) by (rule results_ok_cong) simp_all
  have "i \<notin> withdrawn S" using D(5) [of i] a(2) by (cases "i \<in> regd S") (auto simp: tokens_def)
  then show "tokens (X - {i}) (S\<lparr>withdrawn := insert i (withdrawn S)\<rparr>) j + of_bool (j \<in> regd S) =
      tokens X S j + of_bool (j \<in> regd (S\<lparr>withdrawn := insert i (withdrawn S)\<rparr>))" for j
    using a(2) by (cases "j = i") (simp_all add: tokens_def reader_calls_def)
qed (use mux_okD [OF a(1)] in simp_all)

lemma mux_ok_hold:
  assumes "mux_ok X S" and "i \<in> X" and "request_id h = ids S ! i"
  shows "mux_ok (X - {i}) (S\<lparr>transit := (i, h, p) # transit S, received := received S @ [(h, p)]\<rparr>)"
proof (rule mux_okI [OF assms(1)])
  let ?T = "S\<lparr>transit := (i, h, p) # transit S, received := received S @ [(h, p)]\<rparr>"
  note D = mux_okD [OF assms(1)]
  show "ids_ok ?T" using D(1) by (rule ids_ok_cong) simp_all
  show "results_ok ?T" using D(2) by (rule results_ok_cong) (use assms(3) in auto)
  show "tokens (X - {i}) ?T j + of_bool (j \<in> regd S) = tokens X S j + of_bool (j \<in> regd ?T)" for j
    using assms(2) by (cases "j = i") (simp_all add: tokens_def reader_calls_def)
qed (use mux_okD [OF assms(1)] in simp_all)

lemma transit_received: "mux_ok X S \<Longrightarrow> (i, h, p) \<in> set (transit S) \<Longrightarrow> (h, p) \<in> set (received S) \<and> request_id h = ids S ! i"
  using mux_okD(2) [of X S] unfolding results_ok_def by blast

text \<open>A reader takes a call it holds into its hands.\<close>

lemma mux_ok_transit:
  assumes "mux_ok X S" and "transit S = ts @ (i, h, p) # us"
  shows "mux_ok (insert i X) (S\<lparr>transit := ts @ us\<rparr>)"
proof (rule mux_okI [OF assms(1)])
  note D = mux_okD [OF assms(1)]
  have n: "i \<notin> X" using D(5) [of i] by (cases "i \<in> regd S") (auto simp: tokens_def reader_calls_def assms(2))
  show "ids_ok (S\<lparr>transit := ts @ us\<rparr>)" using D(1) by (rule ids_ok_cong) simp_all
  show "results_ok (S\<lparr>transit := ts @ us\<rparr>)" using D(2) by (rule results_ok_cong) (auto simp: assms(2))
  show "tokens (insert i X) (S\<lparr>transit := ts @ us\<rparr>) j + of_bool (j \<in> regd S) =
      tokens X S j + of_bool (j \<in> regd (S\<lparr>transit := ts @ us\<rparr>))" for j
    using n by (cases "j = i") (simp_all add: tokens_def reader_calls_def assms(2))
qed (use mux_okD [OF assms(1)] in simp_all)

lemma mux_ok_remaining:
  assumes "mux_ok X S" and "remaining S = rs @ i # qs"
  shows "mux_ok (insert i X) (S\<lparr>remaining := rs @ qs\<rparr>)"
proof (rule mux_okI [OF assms(1)])
  note D = mux_okD [OF assms(1)]
  have n: "i \<notin> X" using D(5) [of i] by (cases "i \<in> regd S") (auto simp: tokens_def reader_calls_def assms(2))
  show "ids_ok (S\<lparr>remaining := rs @ qs\<rparr>)" using D(1) by (rule ids_ok_cong) simp_all
  show "results_ok (S\<lparr>remaining := rs @ qs\<rparr>)" using D(2) by (rule results_ok_cong) simp_all
  show "tokens (insert i X) (S\<lparr>remaining := rs @ qs\<rparr>) j + of_bool (j \<in> regd S) =
      tokens X S j + of_bool (j \<in> regd (S\<lparr>remaining := rs @ qs\<rparr>))" for j
    using n by (cases "j = i") (simp_all add: tokens_def reader_calls_def assms(2))
qed (use mux_okD [OF assms(1)] in simp_all)

text \<open>The whole table goes to a reader.\<close>

lemma count_values:
  assumes "smap_inv m" and "\<And>q i. map_of m q = Some i \<Longrightarrow> f i = q"
  shows "count_list (map snd m) i = of_bool (map_of m (f i) = Some i)"
  using assms
proof (induction m)
  case (Cons e m)
  obtain q j where e: "e = (q, j)" by (cases e)
  have q: "map_of m q = None" using Cons.prems(1) e by (auto intro: map_of_below)
  have j: "f j = q" using Cons.prems(2) [of q j] e by simp
  have "f i' = q'" if "map_of m q' = Some i'" for q' i'
    using Cons.prems(2) [of q' i'] that e q by (cases "q' = q") auto
  then have "count_list (map snd m) i = of_bool (map_of m (f i) = Some i)" using Cons.IH Cons.prems(1) e by simp
  then show ?case using e j q by auto
qed simp

lemma mux_ok_swap:
  assumes "mux_ok X S"
  shows "mux_ok X (S\<lparr>mch := (mch S)\<lparr>ch_pending := []\<rparr>, remaining := remaining S @ map snd (ch_pending (mch S))\<rparr>)"
proof (rule mux_okI [OF assms])
  let ?T = "S\<lparr>mch := (mch S)\<lparr>ch_pending := []\<rparr>, remaining := remaining S @ map snd (ch_pending (mch S))\<rparr>"
  note D = mux_okD [OF assms]
  show "ids_ok ?T" using D(1) by (rule ids_ok_cong) simp_all
  show "results_ok ?T" using D(2) by (rule results_ok_cong) simp_all
  show "tokens X ?T j + of_bool (j \<in> regd S) = tokens X S j + of_bool (j \<in> regd ?T)" for j
    using count_values [OF D(3), where f = "(!) (ids S)" and i = j] D(4) by (simp add: tokens_def reader_calls_def)
qed simp_all

lemma next_id_eq: "ch_next ch \<noteq> 0 \<Longrightarrow> next_id ch = (ch_next ch, ch\<lparr>ch_next := ch_next ch + 1\<rparr>)"
  by (simp add: next_id_def Let_def)

lemma mux_ok_count:
  assumes "mux_ok X S"
  shows "mux_ok X (S\<lparr>given := Suc (given S), mch := (mch S)\<lparr>ch_next := ch_next (mch S) + 1\<rparr>\<rparr>)"
proof (rule mux_okI [OF assms])
  let ?T = "S\<lparr>given := Suc (given S), mch := (mch S)\<lparr>ch_next := ch_next (mch S) + 1\<rparr>\<rparr>"
  note D = mux_okD [OF assms]
  show "ids_ok ?T" using D(1) by (auto simp: ids_ok_def)
  show "results_ok ?T" using D(2) by (rule results_ok_cong) simp_all
  show "tokens X ?T j + of_bool (j \<in> regd S) = tokens X S j + of_bool (j \<in> regd ?T)" for j
    by (simp add: tokens_def reader_calls_def)
qed (use mux_okD [OF assms] in simp_all)

text \<open>A new call with a number that was never used.\<close>

lemma mux_ok_new:
  assumes "mux_ok {} S" and "q \<notin> set (ids S)" and "q \<noteq> 0" and "unat q \<le> given S" and "new_call w k (mch S) = (i, ch)"
  shows "mux_ok {} (S\<lparr>mch := ch, ids := ids S @ [q]\<rparr>)"
proof (rule mux_okI [OF assms(1)])
  let ?T = "S\<lparr>mch := ch, ids := ids S @ [q]\<rparr>"
  note D = mux_okD [OF assms(1)]
  have ch: "ch = (mch S)\<lparr>ch_calls := ch_calls (mch S) @
      [\<lparr>pc_waiter = w, pc_worker = k, pc_payload = [], pc_error = [], pc_done = False, pc_failed = False\<rparr>]\<rparr>"
    using assms(5) by (simp add: new_call_def)
  have r: "i < length (ids S)" if "map_of (ch_pending (mch S)) q' = Some i" for q' i
  proof (rule D(7))
    show "i \<in> regd S" using D(4) [OF that] D(5) [of i] that by (cases "i \<in> regd S") (auto simp: tokens_def)
  qed
  have nth: "(ids S @ [q]) ! j = ids S ! j \<and> ch_calls ch ! j = ch_calls (mch S) ! j" if "j < length (ids S)" for j
    using that D(6) by (simp add: ch nth_append)
  show "ids_ok ?T" using D(1) assms(2-4) by (auto simp: ids_ok_def ch)
  show "results_ok ?T"
  proof -
    have o: "settled_by ?T j c = settled_by S j c" if "j < length (ids S)" for j c
      using nth [OF that] by (simp add: settled_by_def)
    have "result_ok ?T j" if "j < length (ids S)" for j
    proof -
      have "result_ok S j" using D(2) that by (simp add: results_ok_def)
      then show ?thesis using nth [OF that] o [OF that] by (simp add: result_ok_def) (simp add: ch)
    qed
    moreover have "filter (\<lambda>w. fst w = length (ids S)) (ch_wakeups (mch S)) = []"
      using D(2) by (auto simp: results_ok_def filter_empty_conv)
    then have "result_ok ?T (length (ids S))" using D(6) by (simp add: result_ok_def ch nth_append)
    ultimately have "\<forall>j < length (ids ?T). result_ok ?T j" by (simp add: less_Suc_eq)
    moreover have "(ids S @ [q]) ! j = ids S ! j" if "(j, h, p) \<in> set (transit S)" for j h p
    proof -
      have "j \<in> set (reader_calls S)" using that by (force simp: reader_calls_def)
      then have "count_list (reader_calls S) j \<noteq> 0" by (simp add: count_list_0_iff)
      then have "j \<in> regd S" using D(5) [of j] by (cases "j \<in> regd S") (auto simp: tokens_def)
      then show ?thesis using nth [OF D(7)] by simp
    qed
    ultimately show ?thesis using D(2) unfolding results_ok_def by (simp add: ch) (blast intro: less_SucI)
  qed
  show "smap_inv (ch_pending (mch ?T))" using D(3) by (simp add: ch)
  show "ids ?T ! j = q'" if "map_of (ch_pending (mch ?T)) q' = Some j" for q' j
    using that r [of q' j] nth [of j] D(4) [of q' j] by (simp add: ch)
  fix j
  have p: "is_pending ?T j = is_pending S j"
  proof (cases "j < length (ids S)")
    case True
    then show ?thesis using nth [OF True] by (simp add: ch)
  next
    case False
    then show ?thesis using r [of _ j] by (auto simp: ch)
  qed
  have d: "(j < length (ids ?T) \<and> call_done ?T j) = (j < length (ids S) \<and> call_done S j)"
    using nth [of j] D(6) by (cases "j < length (ids S)") (auto simp: ch nth_append less_Suc_eq)
  show "tokens {} ?T j + of_bool (j \<in> regd S) = tokens {} S j + of_bool (j \<in> regd ?T)"
    unfolding tokens_def p d by (simp add: reader_calls_def)
qed

lemma mux_inv_began:
  assumes "mux_inv S" and "check_request ok args = Inr bs"
    and "mux_prepare ser ok args service method waiter worker (mch S) = (r, ch)"
  shows "mux_inv (S\<lparr>given := Suc (given S), mch := ch, ids := ids S @ (case r of Inl _ \<Rightarrow> [] | Inr (req_id, _) \<Rightarrow> [req_id])\<rparr>)"
  unfolding mux_inv_def
proof
  assume "given (S\<lparr>given := Suc (given S), mch := ch, ids := ids S @ (case r of Inl _ \<Rightarrow> [] | Inr (req_id, _) \<Rightarrow> [req_id])\<rparr>) < 2 ^ 64 - 1"
  then have g: "Suc (given S) < 2 ^ 64 - 1" by simp
  then have ok: "mux_ok {} S" using assms(1) by (simp add: mux_inv_def)
  note D = mux_okD [OF ok]
  let ?q = "ch_next (mch S)" and ?S = "S\<lparr>given := Suc (given S), mch := (mch S)\<lparr>ch_next := ch_next (mch S) + 1\<rparr>\<rparr>"
  have "?q = of_nat (Suc (given S))" using D(1) by (simp add: ids_ok_def)
  then have u: "unat ?q = Suc (given S)" using g by (simp add: unsigned_of_nat take_bit_nat_eq_self del: of_nat_Suc)
  then have q: "?q \<noteq> 0" "?q \<notin> set (ids S)" using D(1) by (auto simp: ids_ok_def)
  have ok': "mux_ok {} ?S" by (rule mux_ok_count [OF ok])
  show "mux_ok {} (S\<lparr>given := Suc (given S), mch := ch, ids := ids S @ (case r of Inl _ \<Rightarrow> [] | Inr (req_id, _) \<Rightarrow> [req_id])\<rparr>)"
  proof (cases "encode_frame ser (request_header service method ?q bs) bs")
    case (Inl e)
    then show ?thesis using ok' assms(2,3) q by (auto simp: mux_prepare_def next_id_eq)
  next
    case (Inr frame)
    obtain i ch2 where n: "new_call waiter worker (mch ?S) = (i, ch2)" by (cases "new_call waiter worker (mch ?S)")
    then have "r = Inr (?q, i, frame)" "ch = ch2" using assms(2,3) q(1) Inr by (auto simp: mux_prepare_def next_id_eq)
    then show ?thesis using mux_ok_new [OF ok' _ q(1) _ n] q(2) u by simp
  qed
qed

lemma mux_ok_gave_up:
  assumes "mux_ok {} S" and "i \<in> regd S"
  shows "mux_ok {} (S\<lparr>mch := mux_send_failed (ids S ! i) (mch S),
      withdrawn := (if map_of (ch_pending (mch S)) (ids S ! i) = None then withdrawn S else insert i (withdrawn S))\<rparr>)"
proof (cases "map_of (ch_pending (mch S)) (ids S ! i)")
  case None
  then have "smap_erase (ids S ! i) (ch_pending (mch S)) = ch_pending (mch S)"
    by (force simp: smap_erase_def map_of_eq_None_iff filter_id_conv)
  then show ?thesis using assms(1) None by (simp add: mux_send_failed_def)
next
  case (Some j)
  then have "j = i" using pending_own [OF assms] by simp
  then show ?thesis using mux_ok_withdraw [OF mux_ok_erase [OF assms(1) Some], of i] Some
    by (simp add: mux_send_failed_def)
qed

lemma call_fail_settles:
  "reason = RequestTimeout \<or> reason = ConnectionClosed \<or>
    (\<exists>h p. (h, p) \<in> set (received S) \<and> request_id h = ids S ! i \<and> rpc_error_text h \<noteq> [] \<and> reason = RemoteError (rpc_error_text h)) \<Longrightarrow>
   mux_ok X S \<Longrightarrow> i \<in> X \<Longrightarrow> mux_ok (X - {i}) (S\<lparr>mch := wake i (call_fail reason i (mch S))\<rparr>)"
  unfolding call_fail_def by (rule mux_ok_complete) (auto simp: settled_by_def simp del: error_text.simps)

lemma mux_ok_timeout:
  assumes "mux_ok {} S" and "i \<in> regd S"
  shows "mux_ok {} (S\<lparr>mch := mux_timeout (ids S ! i) i (mch S)\<rparr>)"
proof (cases "map_of (ch_pending (mch S)) (ids S ! i)")
  case None
  then show ?thesis using assms(1) by (simp add: mux_timeout_def)
next
  case (Some j)
  then have "j = i" using pending_own [OF assms] by simp
  then show ?thesis using call_fail_settles [OF _ mux_ok_erase [OF assms(1) Some], of RequestTimeout i] Some
    by (simp add: mux_timeout_def)
qed

lemma mux_ok_received: "mux_ok X S \<Longrightarrow> mux_ok X (S\<lparr>received := received S @ [(h, p)]\<rparr>)"
proof (rule mux_okI, assumption)
  assume a: "mux_ok X S"
  show "ids_ok (S\<lparr>received := received S @ [(h, p)]\<rparr>)" using mux_okD(1) [OF a] by (rule ids_ok_cong) simp_all
  show "results_ok (S\<lparr>received := received S @ [(h, p)]\<rparr>)" using mux_okD(2) [OF a] by (rule results_ok_cong) auto
qed (use mux_okD in \<open>simp_all add: tokens_def reader_calls_def\<close>)

lemma mux_ok_response:
  assumes "mux_ok {} S" and "response_take (request_id h) (mch S) = (found, ch)"
  shows "mux_ok {} (S\<lparr>mch := ch, transit := (case found of None \<Rightarrow> transit S | Some i \<Rightarrow> (i, h, p) # transit S),
      received := received S @ [(h, p)]\<rparr>)"
proof (cases "map_of (ch_pending (mch S)) (request_id h)")
  case None
  then show ?thesis using assms mux_ok_received by (auto simp: response_take_def)
next
  case (Some i)
  then have "found = Some i" "ch = (mch S)\<lparr>ch_pending := smap_erase (request_id h) (ch_pending (mch S))\<rparr>"
    using assms(2) by (simp_all add: response_take_def)
  then show ?thesis
    using mux_ok_hold [OF mux_ok_erase [OF assms(1) Some], of i h p] mux_okD(4) [OF assms(1) Some] by simp
qed

lemma mux_ok_completed:
  assumes "mux_ok {} S" and "transit S = ts @ (i, h, p) # us"
  shows "mux_ok {} (S\<lparr>transit := ts @ us, mch := response_complete i h p (mch S)\<rparr>)"
proof -
  have r: "(h, p) \<in> set (received S)" "request_id h = ids S ! i" using transit_received [OF assms(1)] assms(2) by auto
  note t = mux_ok_transit [OF assms]
  show ?thesis
  proof (cases "rpc_error_text h = []")
    case True
    have "mux_ok ({i} - {i}) (S\<lparr>transit := ts @ us, mch := wake i (upd_call i (\<lambda>c. c\<lparr>pc_payload := p, pc_done := True\<rparr>) (mch S))\<rparr>)"
      using mux_ok_complete [OF t, of i "\<lambda>c. c\<lparr>pc_payload := p, pc_done := True\<rparr>"] r True
      by (auto simp: settled_by_def)
    then show ?thesis using True by (simp add: response_complete_def)
  next
    case False
    have "mux_ok ({i} - {i}) (S\<lparr>transit := ts @ us, mch := wake i (call_fail (RemoteError (rpc_error_text h)) i (mch S))\<rparr>)"
      using call_fail_settles [OF _ t, of "RemoteError (rpc_error_text h)" i] r False by auto
    then show ?thesis using False by (simp add: response_complete_def)
  qed
qed

lemma mux_ok_reader_fail:
  assumes "mux_ok {} S" and "remaining S = rs @ i # qs"
  shows "mux_ok {} (S\<lparr>remaining := rs @ qs, mch := reader_fail i (mch S)\<rparr>)"
proof -
  note r = mux_ok_remaining [OF assms]
  have "i \<in> regd S" using mux_okD(5) [OF assms(1), of i] assms(2) by (cases "i \<in> regd S") (auto simp: tokens_def reader_calls_def)
  then have "\<not> call_done S i"
    using mux_okD(5) [OF assms(1), of i] mux_okD(7) [OF assms(1), of i] assms(2) by (auto simp: tokens_def reader_calls_def)
  then show ?thesis using call_fail_settles [OF _ r, of ConnectionClosed i] by (simp add: reader_fail_def)
qed

lemma mux_inv_step: "mux_inv S \<Longrightarrow> mux_step S S' \<Longrightarrow> mux_inv S'"
proof -
  assume inv: "mux_inv S" and step: "mux_step S S'"
  have g: "mux_inv S'" if "given S' = given S" "mux_ok {} S \<Longrightarrow> mux_ok {} S'"
    using inv that by (simp add: mux_inv_def)
  show ?thesis
    using step
  proof (cases rule: mux_step.cases)
    case (mux_began ok args bs ser service meth waiter worker r ch)
    then show ?thesis using mux_inv_began [OF inv mux_began(2,3)] by simp
  next
    case (mux_connected k e ch)
    then show ?thesis
      by (intro g) (auto intro!: mux_ok_frame simp: mux_connect_def Let_def split: if_splits sum.splits)
  next
    case (mux_sent frame as err r out ch)
    then show ?thesis by (intro g) (auto intro!: mux_ok_frame simp: mux_send_def split: if_splits prod.splits)
  next
    case mux_left
    then show ?thesis by (intro g) (auto intro!: mux_ok_frame simp: reader_leave_def)
  next
    case mux_destroyed
    then show ?thesis by (intro g) (auto intro!: mux_ok_frame simp: Channel_destroy_def)
  next
    case (mux_swapped rs ch)
    then show ?thesis by (intro g) (use mux_ok_swap [of "{}" S] in \<open>auto simp: reader_swap_def\<close>)
  next
    case (mux_registered i)
    then show ?thesis by (intro g) (simp_all add: mux_ok_register)
  next
    case (mux_gave_up i)
    then show ?thesis by (intro g) (simp_all add: mux_ok_gave_up)
  next
    case (mux_timed_out i)
    then show ?thesis by (intro g) (simp_all add: mux_ok_timeout)
  next
    case (mux_response h found ch p)
    then show ?thesis by (intro g) (simp_all add: mux_ok_response)
  next
    case (mux_completed ts i h p us)
    then show ?thesis by (intro g) (simp_all add: mux_ok_completed)
  next
    case (mux_failed rs i qs)
    then show ?thesis by (intro g) (simp_all add: mux_ok_reader_fail)
  qed (use inv in simp)
qed

interpretation mux: invariant_of mux_init mux_step mux_inv
proof unfold_locales
  fix S
  assume S: "mux_init S"
  then obtain t where "mch S = Channel_new 1 t True" by (auto simp: mux_init_def)
  then show "mux_inv S" using S
    by (simp add: mux_init_def mux_inv_def mux_ok_def ids_ok_def tokens_ok_def tokens_def reader_calls_def results_ok_def Channel_new_def)
qed (rule mux_inv_step)

text \<open>
  C4: Every call on a multiplexed connection is completed exactly once and with its own answer.
  In every interleaving of callers, responses, timers, failing sends and ends of the reader,
  as long as the request numbers have not wrapped around: the Fiber of a call is submitted once
  if the call is done and otherwise not at all; a message the caller gets came in a response
  with the number of this call, and an error is that of such a response, the timeout, the end
  of the connection or that of the parser; and a call that was registered, not withdrawn and is not done is
  still in the table or in the hands of the reader, so it is not forgotten.
\<close>

theorem mux_calls_complete_once:
  assumes "mux_init S0" and "mux_step\<^sup>*\<^sup>* S0 S" and "given S < 2 ^ 64 - 1" and "i < length (ids S)"
  shows "filter (\<lambda>w. fst w = i) (ch_wakeups (mch S)) =
      (if call_done S i then [(i, pc_waiter (ch_calls (mch S) ! i), pc_worker (ch_calls (mch S) ! i))] else []) \<and>
    (call_done S i \<longrightarrow>
      (case mux_finish parses i (mch S) of
         Inr payload \<Rightarrow> parses payload \<and> (\<exists>h. (h, payload) \<in> set (received S) \<and> request_id h = ids S ! i \<and> rpc_error_text h = [])
       | Inl e \<Rightarrow> e \<in> error_text ` {RequestTimeout, ConnectionClosed, ResponseParseFailed} \<or>
           (\<exists>h p. (h, p) \<in> set (received S) \<and> request_id h = ids S ! i \<and> e = error_text (RemoteError (rpc_error_text h))))) \<and>
    (i \<in> regd S \<and> i \<notin> withdrawn S \<and> \<not> call_done S i \<longrightarrow> is_pending S i \<or> i \<in> set (reader_calls S))"
proof -
  have ok: "mux_ok {} S" using mux.inv_reachable [OF assms(1,2)] assms(3) by (simp add: mux_inv_def)
  have r: "result_ok S i" using mux_okD(2) [OF ok] assms(4) by (simp add: results_ok_def)
  have "case mux_finish parses i (mch S) of
         Inr payload \<Rightarrow> parses payload \<and> (\<exists>h. (h, payload) \<in> set (received S) \<and> request_id h = ids S ! i \<and> rpc_error_text h = [])
       | Inl e \<Rightarrow> e \<in> error_text ` {RequestTimeout, ConnectionClosed, ResponseParseFailed} \<or>
           (\<exists>h p. (h, p) \<in> set (received S) \<and> request_id h = ids S ! i \<and> e = error_text (RemoteError (rpc_error_text h)))"
    if "call_done S i"
    using r that by (auto simp: result_ok_def settled_by_def mux_finish_def Let_def simp del: error_text.simps split: if_splits)
  moreover have "is_pending S i \<or> i \<in> set (reader_calls S)" if "i \<in> regd S" "i \<notin> withdrawn S" "\<not> call_done S i"
  proof (rule ccontr)
    assume "\<not> (is_pending S i \<or> i \<in> set (reader_calls S))"
    then have "tokens {} S i = 0" using that(2,3) by (simp add: tokens_def count_list_0_iff)
    then show False using mux_okD(5) [OF ok, of i] that(1) by simp
  qed
  ultimately show ?thesis using r unfolding result_ok_def by blast
qed

text \<open>A channel with one call by Fiber 5 on worker 2.\<close>

definition example_mux :: mux_sys where
  "example_mux = \<lparr>mch = Channel_new 1 5000 True, given = 0, ids = [], regd = {}, withdrawn = {}, transit = [], remaining = [], received = []\<rparr>"

definition example_start :: "Connection option \<Rightarrow> mux_sys" where
  "example_start conn = example_mux\<lparr>mch := (Channel_new 1 5000 True)\<lparr>ch_conn := conn,
     ch_reader_running := conn \<noteq> None, ch_readers := (if conn = None then 0 else 2)\<rparr>\<rparr>"

definition example_called :: "Connection option \<Rightarrow> mux_sys" where
  "example_called conn = (example_start conn)\<lparr>given := 1, ids := [1], regd := {0},
     mch := (mch (example_start conn))\<lparr>ch_next := 2, ch_pending := [(1, 0)],
       ch_calls := [\<lparr>pc_waiter = 5, pc_worker = 2, pc_payload = [], pc_error = [], pc_done = False, pc_failed = False\<rparr>]\<rparr>\<rparr>"

lemmas example_mux_defs = example_called_def example_start_def example_mux_def Channel_new_def

lemma example_prepare:
  "mux_prepare (\<lambda>_. Some [9]) True (Some [1]) [69] [70] 5 2 ch =
    (let (q, ch) = next_id ch; (i, ch) = new_call 5 2 ch in (Inr (q, i, [1, 9, 1]), ch))"
proof -
  have v: "EncodeVarint32 1 = [1]" by (subst EncodeVarint32.simps) (simp add: word_le_nat_alt)
  show ?thesis by (simp add: mux_prepare_def check_request_def encode_frame_def kMaxHeader_def kMaxMessage_def v split: prod.splits)
qed

lemma example_called_reachable: "mux_step\<^sup>*\<^sup>* (example_start conn) (example_called conn)"
proof -
  let ?S = "example_start conn"
  let ?ch = "snd (mux_prepare (\<lambda>_. Some [9]) True (Some [1]) [69] [70] 5 2 (mch ?S))"
  have p: "mux_prepare (\<lambda>_. Some [9]) True (Some [1]) [69] [70] 5 2 (mch ?S) = (Inr (1, 0, [1, 9, 1]), ?ch)"
    unfolding example_prepare by (simp add: next_id_def new_call_def example_mux_defs)
  have "mux_step ?S (?S\<lparr>given := 1, mch := ?ch, ids := [1]\<rparr>)" (is "mux_step _ ?T")
    using mux_began [OF _ p, of "[1]"] by (simp add: check_request_def kMaxMessage_def example_mux_defs)
  moreover have "mux_step ?T (example_called conn)"
    using mux_registered [of 0 ?T] unfolding example_prepare
    by (simp add: example_mux_defs next_id_def new_call_def mux_register_def)
  ultimately show ?thesis by (meson rtranclp.rtrancl_into_rtrancl rtranclp.rtrancl_refl)
qed

lemma example_start_None: "example_start None = example_mux"
  by (simp add: example_mux_defs)

theorem mux_calls_complete_once_witness:
  "\<exists>S. mux_step\<^sup>*\<^sup>* example_mux S \<and> call_done S 0 \<and> filter (\<lambda>w. fst w = 0) (ch_wakeups (mch S)) = [(0, 5, 2)] \<and>
     mux_finish (\<lambda>_. True) 0 (mch S) = Inr [7]"
proof -
  let ?h = "request_header [] [] 1 [7]"
  let ?ch = "(mch (example_called None))\<lparr>ch_pending := []\<rparr>"
  have "mux_step (example_called None) ((example_called None)\<lparr>mch := ?ch, transit := [(0, ?h, [7])], received := [(?h, [7])]\<rparr>)" (is "mux_step _ ?S")
    using mux_response [of ?h "example_called None" "Some 0" ?ch "[7]"]
    by (simp add: response_take_def request_header_def example_mux_defs smap_erase_def)
  moreover have "mux_step ?S (?S\<lparr>transit := [], mch := response_complete 0 ?h [7] (mch ?S)\<rparr>)" (is "mux_step _ ?T")
    using mux_completed [of ?S "[]" 0 ?h "[7]" "[]"] by simp
  ultimately have r: "mux_step\<^sup>*\<^sup>* example_mux ?T" using example_called_reachable [of None] unfolding example_start_None by (meson rtranclp.rtrancl_into_rtrancl)
  have d: "call_done ?T 0" "given ?T < 2 ^ 64 - 1" "0 < length (ids ?T)" "mux_finish (\<lambda>_. True) 0 (mch ?T) = Inr [7]"
      "pc_waiter (ch_calls (mch ?T) ! 0) = 5" "pc_worker (ch_calls (mch ?T) ! 0) = 2"
    by (simp_all add: response_complete_def request_header_def wake_def upd_call_def example_mux_defs mux_finish_def)
  have "mux_init example_mux" by (simp add: mux_init_def example_mux_def Channel_new_def)
  then show ?thesis
    using mux_calls_complete_once [OF _ r d(2,3), of "\<lambda>_. True"] r d by (intro exI [of _ ?T]) simp
qed

text \<open>
  The reader closes its connection before it takes the table. A caller that connects anew in
  between loses its call: it is failed although its connection is open.
\<close>

lemma old_reader_fails_new_call:
  "\<exists>S c. mux_step\<^sup>*\<^sup>* example_mux S \<and> ch_conn (mch S) = Some c \<and> \<not> c_closed c \<and>
     mux_finish parses 0 (mch S) = Inl (error_text ConnectionClosed)"
proof -
  let ?c = "Connection_new 4"
  have "mux_step example_mux (example_mux\<lparr>mch := snd (mux_connect (Inr ?c) (mch example_mux))\<rparr>)" (is "mux_step _ ?A")
    by (rule mux_connected) (rule surjective_pairing)
  moreover have "mux_step ?A (?A\<lparr>mch := reader_leave (mch ?A)\<rparr>)" (is "mux_step _ ?B") by (rule mux_left)
  moreover have "mux_step ?B (?B\<lparr>mch := snd (mux_connect (Inr ?c) (mch ?B))\<rparr>)" by (rule mux_connected) (rule surjective_pairing)
  then have "mux_step ?B (example_start (Some ?c))"
    by (simp add: mux_connect_def usable_def reader_leave_def shut_def example_mux_defs Connection_new_def Let_def numeral_2_eq_2)
  ultimately have r: "mux_step\<^sup>*\<^sup>* example_mux (example_called (Some ?c))"
    using example_called_reachable [of "Some ?c"] by (meson converse_rtranclp_into_rtranclp)
  let ?S = "example_called (Some ?c)"
  have "mux_step ?S (?S\<lparr>mch := (mch ?S)\<lparr>ch_pending := []\<rparr>, remaining := [0]\<rparr>)" (is "mux_step _ ?T")
    using mux_swapped [of ?S "[0]" "(mch ?S)\<lparr>ch_pending := []\<rparr>"] by (simp add: reader_swap_def example_mux_defs)
  moreover have "mux_step ?T (?T\<lparr>remaining := [], mch := reader_fail 0 (mch ?T)\<rparr>)" (is "mux_step _ ?U")
    using mux_failed [of ?T "[]" 0 "[]"] by simp
  ultimately have "mux_step\<^sup>*\<^sup>* example_mux ?U" using r by (meson rtranclp.rtrancl_into_rtrancl)
  moreover have "ch_conn (mch ?U) = Some ?c" "\<not> c_closed ?c" "mux_finish parses 0 (mch ?U) = Inl (error_text ConnectionClosed)"
    by (simp_all add: reader_fail_def call_fail_def wake_def upd_call_def mux_finish_def example_mux_defs Connection_new_def)
  ultimately show ?thesis by blast
qed

end
