(* ===== verification/Rpc_Provider.thy ===== *)
theory Rpc_Provider
  imports Rpc_Codec
begin

text \<open>
  Model of \<^verbatim>\<open>rpc::Provider\<close>: registered services, the admission, execution and completion of calls
  of both protocols, and the orderly stop. Services are named by their address, a method by its
  descriptor; the message a service produces is its serialisation. The reading of a request is
  \<open>read_request\<close>.
\<close>

section \<open>State\<close>

record ServiceDescriptor =
  sd_name :: "byte list"
  sd_methods :: "(byte list \<times> nat) list"

record ServiceInfo =
  si_service :: nat
  si_methods :: "(byte list \<times> nat) list"

text \<open>\<open>cx_waiter\<close> is null for a multiplexed call. The outcome is 1 after \<^verbatim>\<open>done\<close>, 2 after a timeout, an error or a stop.\<close>

record CallContext =
  cx_waiter :: "fid option"
  cx_worker :: int
  cx_outcome :: u32

text \<open>
  \<open>pv_ctx\<close> has the call contexts by address, \<open>pv_pending\<close> the weak references to them, and
  \<open>pv_submitted\<close> the submissions of waiting Fibers.
\<close>

record Provider =
  pv_executor :: Executor
  pv_max_connections :: u64
  pv_request_timeout :: int
  pv_max_buffered_bytes :: u64
  pv_buffered_bytes :: u64
  pv_services :: "(byte list \<times> ServiceInfo) list"
  pv_server :: "Server option"
  pv_pending :: "nat list"
  pv_pending_count :: u64
  pv_outstanding :: u64
  pv_started :: bool
  pv_accepting :: bool
  pv_ctx :: "nat \<Rightarrow> CallContext"
  pv_next_ctx :: nat
  pv_submitted :: "(nat \<times> fid option \<times> int) list"

definition Provider_new :: "nat \<Rightarrow> u64 \<Rightarrow> int \<Rightarrow> u64 \<Rightarrow> Provider" where
  "Provider_new queued connections timeout buffer_limit =
     \<lparr>pv_executor = Executor_new queued, pv_max_connections = connections, pv_request_timeout = timeout,
      pv_max_buffered_bytes = buffer_limit, pv_buffered_bytes = 0, pv_services = [], pv_server = None,
      pv_pending = [], pv_pending_count = 0, pv_outstanding = 0, pv_started = False, pv_accepting = False,
      pv_ctx = (\<lambda>_. \<lparr>cx_waiter = None, cx_worker = - 1, cx_outcome = 0\<rparr>), pv_next_ctx = 0, pv_submitted = []\<rparr>"

section \<open>Services\<close>

definition emplace :: "'k \<Rightarrow> 'v \<Rightarrow> ('k \<times> 'v) list \<Rightarrow> ('k \<times> 'v) list" where
  "emplace k v m = (if map_of m k = None then m @ [(k, v)] else m)"

text \<open>The service and its descriptor may be null.\<close>

definition Register :: "(nat \<times> ServiceDescriptor option) option \<Rightarrow> Provider \<Rightarrow> bool \<times> Provider" where
  "Register service p =
     (case service of
        None \<Rightarrow> (False, p)
      | Some (s, descriptor) \<Rightarrow>
          if pv_started p then (False, p)
          else
            (case descriptor of
               None \<Rightarrow> (False, p)
             | Some d \<Rightarrow>
                 if map_of (pv_services p) (sd_name d) \<noteq> None then (False, p)
                 else
                   (let info = \<lparr>si_service = s, si_methods = fold (\<lambda>(name, m). emplace name m) (sd_methods d) []\<rparr> in
                    (True, p\<lparr>pv_services := emplace (sd_name d) info (pv_services p)\<rparr>))))"

definition find_method :: "RpcHeader \<Rightarrow> Provider \<Rightarrow> (nat \<times> nat) option" where
  "find_method header p =
     (case map_of (pv_services p) (service_name header) of
        None \<Rightarrow> None
      | Some info \<Rightarrow> map_option (\<lambda>m. (si_service info, m)) (map_of (si_methods info) (method_name header)))"

section \<open>Start and port\<close>

definition Provider_Start ::
  "(string \<Rightarrow> u32 option) \<Rightarrow> string \<Rightarrow> u16 \<Rightarrow> start_answers \<Rightarrow> Provider \<Rightarrow> bool \<times> Provider" where
  "Provider_Start inet_pton ip port k p =
     (if pv_started p \<or> pv_services p = [] then (False, p)
      else
        (case Server_Start inet_pton ip port k (Server_new True (pv_max_connections p)) of
           ((Some e, _), _) \<Rightarrow> (False, p)
         | ((None, server), _) \<Rightarrow> (True, p\<lparr>pv_server := Some server, pv_accepting := True, pv_started := True\<rparr>)))"

definition Provider_port :: "Provider \<Rightarrow> u16" where
  "Provider_port p = (case pv_server p of None \<Rightarrow> 0 | Some s \<Rightarrow> srv_port s)"

section \<open>Call contexts\<close>

definition new_context :: "fid option \<Rightarrow> int \<Rightarrow> Provider \<Rightarrow> nat \<times> Provider" where
  "new_context waiter worker p =
     (pv_next_ctx p,
      p\<lparr>pv_ctx := (pv_ctx p)(pv_next_ctx p := \<lparr>cx_waiter = waiter, cx_worker = worker, cx_outcome = 0\<rparr>),
        pv_next_ctx := Suc (pv_next_ctx p)\<rparr>)"

text \<open>\<^verbatim>\<open>CallContext::Finish\<close>; \<open>alive\<close>: the provider still exists.\<close>

definition ctx_Finish :: "bool \<Rightarrow> u32 \<Rightarrow> nat \<Rightarrow> Provider \<Rightarrow> Provider" where
  "ctx_Finish alive v x p =
     (let c = pv_ctx p x in
      if cx_outcome c \<noteq> 0 then p
      else
        (let p = p\<lparr>pv_ctx := (pv_ctx p)(x := c\<lparr>cx_outcome := v\<rparr>)\<rparr> in
         if alive then p\<lparr>pv_submitted := pv_submitted p @ [(x, cx_waiter c, cx_worker c)]\<rparr> else p))"

section \<open>Calls one at a time\<close>

text \<open>The admission under the lock. \<open>expired\<close> tells which weak references are dead.\<close>

definition admit_single :: "(nat \<Rightarrow> bool) \<Rightarrow> nat \<Rightarrow> Provider \<Rightarrow> bool \<times> Provider" where
  "admit_single expired x p =
     (if \<not> pv_accepting p \<or> pv_outstanding p \<ge> pv_max_connections p then (False, p)
      else (True, p\<lparr>pv_pending := filter (\<lambda>y. \<not> expired y) (pv_pending p) @ [x],
                     pv_pending_count := pv_pending_count p + 1, pv_outstanding := pv_outstanding p + 1\<rparr>))"

text \<open>The handler is queued; if it is not, the call is taken back by the two operations that follow.\<close>

definition submit_handler :: "callback \<Rightarrow> Provider \<Rightarrow> bool \<times> Provider" where
  "submit_handler task p = (case Submit task (pv_executor p) of (queued, e) \<Rightarrow> (queued, p\<lparr>pv_executor := e\<rparr>))"

definition count_down :: "Provider \<Rightarrow> Provider" where
  "count_down p = p\<lparr>pv_outstanding := pv_outstanding p - 1\<rparr>"

definition not_queued :: "nat \<Rightarrow> Provider \<Rightarrow> Provider" where
  "not_queued x p = ctx_Finish True 2 x (count_down p)"

definition DoneClosure_Run :: "bool \<Rightarrow> nat \<Rightarrow> Provider \<Rightarrow> Provider" where
  "DoneClosure_Run alive x p = ctx_Finish alive 1 x (if alive then count_down p else p)"

definition single_timer :: "Provider \<Rightarrow> u64 option" where
  "single_timer p = (if pv_request_timeout p \<ge> 0 then Some (word_of_int (pv_request_timeout p)) else None)"

text \<open>After the Fiber was resumed: whether the call completed.\<close>

definition single_resume :: "nat \<Rightarrow> Provider \<Rightarrow> bool \<times> Provider" where
  "single_resume x p = (cx_outcome (pv_ctx p x) = 1, p\<lparr>pv_pending_count := pv_pending_count p - 1\<rparr>)"

text \<open>The reply, or the end of the connection; \<open>r\<close> is the reservation, \<open>response\<close> what the serialisation gives.\<close>

definition single_reply ::
  "bool \<Rightarrow> bool \<Rightarrow> u64 \<Rightarrow> byte list option \<Rightarrow> u64 \<times> u64 \<Rightarrow> Provider \<Rightarrow> (byte list \<times> byte list) option \<times> (u64 \<times> u64)" where
  "single_reply completed conn_closed response_size response r p =
     (if \<not> completed \<or> conn_closed \<or> \<not> pv_accepting p then (None, r)
      else if unat response_size > kMaxMessage then (None, r)
      else
        (case Reservation_Add (pv_max_buffered_bytes p) response_size r of
           None \<Rightarrow> (None, r)
         | Some r \<Rightarrow>
             (case response of
                None \<Rightarrow> (None, r)
              | Some payload \<Rightarrow>
                  if length payload > kMaxMessage then (None, r)
                  else (Some (be32 (of_nat (length payload)), payload), r))))"

text \<open>The two writes, with the answers of the kernel for each: whether both succeeded and the bytes sent.\<close>

definition write_reply ::
  "byte list \<times> byte list \<Rightarrow> net_attempt list \<Rightarrow> net_attempt list \<Rightarrow> Connection \<Rightarrow> net_result \<times> byte list \<times> Connection" where
  "write_reply reply as bs c =
     (case WriteAll (fst reply) as c of
        (Got n, out, c) \<Rightarrow> (case WriteAll (snd reply) bs c of (r, out', c) \<Rightarrow> (r, out @ out', c))
      | (r, out, c) \<Rightarrow> (r, out, c))"

section \<open>Multiplexed calls\<close>

definition admit_mux :: "Provider \<Rightarrow> bool \<times> Provider" where
  "admit_mux p =
     (if \<not> pv_accepting p \<or> pv_outstanding p \<ge> pv_max_connections p * 64 then (False, p)
      else (True, p\<lparr>pv_outstanding := pv_outstanding p + 1, pv_pending_count := pv_pending_count p + 1\<rparr>))"

text \<open>The end of a call that was not queued or whose response was written.\<close>

definition mux_count_down :: "Provider \<Rightarrow> Provider" where
  "mux_count_down p = p\<lparr>pv_outstanding := pv_outstanding p - 1, pv_pending_count := pv_pending_count p - 1\<rparr>"

text \<open>The handler threw: \<^verbatim>\<open>outcome.store(2)\<close>.\<close>

definition mux_threw :: "nat \<Rightarrow> Provider \<Rightarrow> Provider" where
  "mux_threw x p = p\<lparr>pv_ctx := (pv_ctx p)(x := (pv_ctx p x)\<lparr>cx_outcome := 2\<rparr>)\<rparr>"

definition bytes_of :: "string \<Rightarrow> byte list" where
  "bytes_of s = map (\<lambda>c. of_nat (of_char c)) s"

text \<open>The task of \<^verbatim>\<open>MultiplexDoneClosure::Run\<close>: the text of an error, the header, the frame, the write.\<close>

definition mux_error :: "u32 \<Rightarrow> byte list option \<Rightarrow> string" where
  "mux_error v response =
     (if v = 2 then ''RPC handler execution error or timeout''
      else
        (case response of
           None \<Rightarrow> ''RPC response serialization failure''
         | Some payload \<Rightarrow> if length payload > kMaxMessage then ''RPC response serialization failure'' else []))"

definition mux_header :: "u64 \<Rightarrow> string \<Rightarrow> byte list \<Rightarrow> RpcHeader" where
  "mux_header req_id error_msg payload =
     \<lparr>service_name = [], method_name = [], args_size = (if error_msg \<noteq> [] then 0 else of_nat (length payload)),
      request_id = req_id, rpc_error_text = bytes_of error_msg\<rparr>"

definition mux_frame ::
  "(RpcHeader \<Rightarrow> byte list option) \<Rightarrow> u64 \<Rightarrow> u32 \<Rightarrow> byte list option \<Rightarrow> byte list" where
  "mux_frame ser req_id v response =
     (let error_msg = mux_error v response;
          payload = (case response of None \<Rightarrow> [] | Some payload \<Rightarrow> payload);
          encoded = (case ser (mux_header req_id error_msg payload) of None \<Rightarrow> [] | Some encoded \<Rightarrow> encoded) in
      EncodeVarint32 (of_nat (length encoded)) @ encoded @ (if error_msg = [] then payload else []))"

definition mux_reply ::
  "(RpcHeader \<Rightarrow> byte list option) \<Rightarrow> u64 \<Rightarrow> nat \<Rightarrow> byte list option \<Rightarrow> net_attempt list \<Rightarrow> Connection option \<Rightarrow> Provider \<Rightarrow>
   byte list \<times> Connection option \<times> Provider" where
  "mux_reply ser req_id x response as conn p =
     (let frame = mux_frame ser req_id (cx_outcome (pv_ctx p x)) response in
      case conn of
        Some c \<Rightarrow>
          if c_closed c then ([], conn, mux_count_down p)
          else (case WriteAll frame as c of (_, out, c) \<Rightarrow> (out, Some c, mux_count_down p))
      | None \<Rightarrow> ([], conn, mux_count_down p))"

section \<open>The loop of a connection\<close>

text \<open>
  One round of \<^verbatim>\<open>Handle\<close> up to the wait of a single call or the end of the round, without other
  threads in between. \<open>parses\<close> tells whether the arguments parse as a request of the method, \<open>task\<close> is
  the handler that is queued. A single call keeps its reservation of the given bytes while it waits; a
  round that ends gives it back.
\<close>

datatype handle_next = Break | Handle_blocked | Wait_single nat u64 | Next_round nat

definition handle_round ::
  "(nat \<Rightarrow> 's \<Rightarrow> net_result \<times> 's) \<Rightarrow> (byte list \<Rightarrow> RpcHeader option) \<Rightarrow> (nat \<times> nat \<Rightarrow> byte list \<Rightarrow> bool) \<Rightarrow> (nat \<Rightarrow> bool) \<Rightarrow>
   fid \<Rightarrow> int \<Rightarrow> callback \<Rightarrow> bool \<Rightarrow> 's \<Rightarrow> Provider \<Rightarrow> handle_next \<times> 's \<times> Provider" where
  "handle_round rd parse parses expired waiter worker task closed s p =
     (if \<not> pv_accepting p \<or> closed then (Break, s, p)
      else
        (case read_request rd parse (pv_max_buffered_bytes p) (pv_buffered_bytes p) s of
           (req, r, s) \<Rightarrow>
             (let give_back = (\<lambda>p. p\<lparr>pv_buffered_bytes := Reservation_release r\<rparr>);
                  p = p\<lparr>pv_buffered_bytes := fst r\<rparr> in
              case req of
                Request_blocked \<Rightarrow> (Handle_blocked, s, p)
              | End_loop \<Rightarrow> (Break, s, give_back p)
              | Request header args \<Rightarrow>
                  (case find_method header p of
                     None \<Rightarrow> (Break, s, give_back p)
                   | Some m \<Rightarrow>
                       if \<not> parses m args then (Break, s, give_back p)
                       else if request_id header = 0
                       then
                         (let (x, p) = new_context (Some waiter) worker p;
                              (admitted, p) = admit_single expired x p in
                          if \<not> admitted then (Break, s, give_back p)
                          else
                            (let (queued, p) = submit_handler task p in
                             (Wait_single x (snd r), s, if queued then p else not_queued x p)))
                       else
                         (let (x, p) = new_context None (- 1) p;
                              (admitted, p) = admit_mux p in
                          if \<not> admitted then (Break, s, give_back p)
                          else
                            (let (queued, p) = submit_handler task p in
                             if queued then (Next_round x, s, give_back p)
                             else (Break, s, give_back (mux_count_down p))))))))"

section \<open>Stop\<close>

text \<open>
  The part under the lock gives the server and the live contexts; then the server is stopped,
  the contexts are finished, and \<open>drained\<close> is the condition of the wait, which is the result.
\<close>

definition stop_collect :: "(nat \<Rightarrow> bool) \<Rightarrow> Provider \<Rightarrow> Server option \<times> nat list \<times> Provider" where
  "stop_collect expired p =
     (pv_server p, filter (\<lambda>x. \<not> expired x) (pv_pending p),
      p\<lparr>pv_accepting := False, pv_server := None, pv_pending := []\<rparr>)"

definition drained :: "Provider \<Rightarrow> bool" where
  "drained p \<longleftrightarrow> pv_pending_count p = 0 \<and> pv_outstanding p = 0"

text \<open>\<^verbatim>\<open>Stop\<close> without other threads in between, up to the wait.\<close>

definition Provider_Stop :: "(nat \<Rightarrow> bool) \<Rightarrow> (conn_id \<Rightarrow> bool) \<Rightarrow> Provider \<Rightarrow> Server option \<times> Provider" where
  "Provider_Stop expired gone p =
     (case stop_collect expired p of
        (server, pending, p) \<Rightarrow> (map_option (Server_Stop gone) server, fold (ctx_Finish True 2) pending p))"

end
