(* ===== verification/Rpc_Slots.thy ===== *)
theory Rpc_Slots
  imports Rpc_Channel
begin

text \<open>
  The channel with one call per connection: the slots of the pool are used exclusively, and a
  call gives exactly the message of the reply to it.
\<close>

section \<open>The pool of slots\<close>

lemma acquire_slot_None: "acquire_slot slots = None \<longleftrightarrow> (\<forall>s \<in> set slots. slot_busy s)"
  by (induction slots) auto

lemma acquire_slot_Some:
  "acquire_slot slots = Some (i, slots') \<Longrightarrow>
     i < length slots \<and> \<not> slot_busy (slots ! i) \<and> slots' = slots[i := (slots ! i)\<lparr>slot_busy := True\<rparr>]"
  by (induction slots arbitrary: i slots') (auto split: if_splits)

text \<open>Callers of the pool: \<open>users\<close> are the slots of the calls in progress.\<close>

record slot_sys =
  pool :: "Slot list"
  users :: "nat list"

inductive slot_step :: "slot_sys \<Rightarrow> slot_sys \<Rightarrow> bool" where
  slot_enter: "acquire_slot (pool S) = Some (i, slots) \<Longrightarrow> slot_step S (S\<lparr>pool := slots, users := i # users S\<rparr>)"
| slot_work: "i \<in> set (users S) \<Longrightarrow> slot_step S (S\<lparr>pool := (pool S)[i := (pool S ! i)\<lparr>slot_conn := conn\<rparr>]\<rparr>)"
| slot_exit: "users S = us @ i # vs \<Longrightarrow> slot_step S (S\<lparr>pool := release_slot success i (pool S), users := us @ vs\<rparr>)"

inductive_cases slot_stepE: "slot_step S S'"

definition slot_init :: "nat \<Rightarrow> slot_sys \<Rightarrow> bool" where
  "slot_init n S \<longleftrightarrow> pool S = ch_slots (Channel_new n 5000 False) \<and> users S = []"

definition slot_inv :: "nat \<Rightarrow> slot_sys \<Rightarrow> bool" where
  "slot_inv n S \<longleftrightarrow> length (pool S) = n \<and> distinct (users S) \<and> set (users S) \<subseteq> {..<n} \<and>
     (\<forall>i < n. slot_busy (pool S ! i) \<longleftrightarrow> i \<in> set (users S))"

lemma slot_inv_step: "slot_inv n S \<Longrightarrow> slot_step S S' \<Longrightarrow> slot_inv n S'"
  by (erule slot_stepE)
    (auto simp: slot_inv_def release_slot_def nth_list_update dest!: acquire_slot_Some split: if_splits)

interpretation slots: invariant_of "slot_init n" slot_step "slot_inv n" for n
proof unfold_locales
  show "slot_inv n S" if "slot_init n S" for S using that by (simp add: slot_init_def slot_inv_def Channel_new_def)
qed (rule slot_inv_step)

text \<open>
  C37: Each connection of the pool carries one call at a time: in every interleaving of callers
  the calls in progress have different slots, at most as many as the pool has. A new caller
  gets a free slot and changes no other, and is refused exactly when all are in use.
\<close>

theorem slots_exclusive:
  assumes "slot_init n S0" and "slot_step\<^sup>*\<^sup>* S0 S"
  shows "distinct (users S) \<and> length (users S) \<le> n \<and>
    (case acquire_slot (pool S) of
       None \<Rightarrow> length (users S) = n
     | Some (i, slots) \<Rightarrow> i < n \<and> i \<notin> set (users S) \<and> length (users S) < n \<and> (\<forall>j. j \<noteq> i \<longrightarrow> slots ! j = pool S ! j))"
proof -
  have inv: "slot_inv n S" by (rule slots.inv_reachable [OF assms])
  then have c: "card (set (users S)) = length (users S)" "set (users S) \<subseteq> {..<n}"
    by (simp_all add: slot_inv_def distinct_card)
  then have le: "length (users S) \<le> n" by (metis card_lessThan card_mono finite_lessThan)
  show ?thesis
  proof (cases "acquire_slot (pool S)")
    case None
    then have "slot_busy (pool S ! i)" if "i < n" for i
      using inv that by (simp add: acquire_slot_None slot_inv_def)
    then have "{..<n} \<subseteq> set (users S)" using inv by (auto simp: slot_inv_def)
    then have "set (users S) = {..<n}" using c(2) by blast
    then show ?thesis using None c(1) inv by (simp add: slot_inv_def)
  next
    case (Some a)
    obtain i slots where a: "a = (i, slots)" by (cases a)
    then have i: "i < n" "i \<notin> set (users S)" "slots = (pool S)[i := (pool S ! i)\<lparr>slot_busy := True\<rparr>]"
      using acquire_slot_Some [of "pool S" i slots] Some inv by (auto simp: slot_inv_def)
    then have "card (set (users S)) < card {..<n}" using c(2) by (intro psubset_card_mono) auto
    then show ?thesis using Some i a c(1) inv by (simp add: slot_inv_def)
  qed
qed

theorem slots_exclusive_witness:
  "\<exists>S. slot_step\<^sup>*\<^sup>* \<lparr>pool = replicate 1 \<lparr>slot_busy = False, slot_conn = None\<rparr>, users = []\<rparr> S \<and>
     users S = [0] \<and> acquire_slot (pool S) = None \<and> length (users S) = 1"
proof -
  let ?S = "\<lparr>pool = replicate 1 \<lparr>slot_busy = False, slot_conn = None\<rparr>, users = []\<rparr>"
  let ?T = "\<lparr>pool = [\<lparr>slot_busy = True, slot_conn = None\<rparr>], users = [0]\<rparr>"
  have s: "slot_step\<^sup>*\<^sup>* ?S ?T"
    using slot_enter [of ?S 0 "[\<lparr>slot_busy = True, slot_conn = None\<rparr>]"] by (intro r_into_rtranclp) simp
  have "slot_init 1 ?S" by (simp add: slot_init_def Channel_new_def)
  then show ?thesis using slots_exclusive [OF _ s, of 1] s by (intro exI [of _ ?T]) simp
qed

section \<open>Replies\<close>

lemma length_be32 [simp]: "length (be32 w) = 4"
  by (simp add: be32_def)

lemma byte_bit: "bit (b :: u8) k \<Longrightarrow> k < 8"
  using bit_imp_le_length [of b k] by simp

lemma be32_value_bit:
  "bit (be32_value [a, b, c, d]) n \<longleftrightarrow>
     (if n < 8 then bit d n else if n < 16 then bit c (n - 8) else if n < 24 then bit b (n - 16) else bit a (n - 24))"
proof -
  consider "n < 8" | "8 \<le> n" "n < 16" | "16 \<le> n" "n < 24" | "24 \<le> n" by linarith
  then show ?thesis
    by cases (auto simp: be32_value_def bit_simps dest: byte_bit)
qed

lemma be32_value_be32: "be32_value (be32 w) = w"
proof (rule bit_eqI)
  fix n
  assume "possible_bit TYPE(32 word) n"
  then have "n < 32" by (simp add: possible_bit_word)
  then show "bit (be32_value (be32 w)) n = bit w n"
    by (auto simp: be32_def be32_value_bit bit_simps)
qed

lemma be32_be32_value: "length bs = 4 \<Longrightarrow> be32 (be32_value bs) = bs"
proof -
  assume "length bs = 4"
  then obtain a b c d where bs: "bs = [a, b, c, d]" by (auto simp: numeral_eq_Suc length_Suc_conv)
  have "ucast (drop_bit 24 (be32_value bs)) = a" "ucast (drop_bit 16 (be32_value bs)) = b"
      "ucast (drop_bit 8 (be32_value bs)) = c" "ucast (be32_value bs) = d"
    by (rule bit_word_eqI; simp add: bs bit_simps be32_value_bit)+
  then show ?thesis by (simp add: be32_def bs)
qed

context byte_reader
begin

lemma read_body_sound:
  "read_body rd n s = (Value bs, s') \<Longrightarrow> contents s = bs @ contents s' \<and> length bs = n"
  by (auto simp: read_body_def dest: rd_sound split: if_splits prod.splits net_result.splits)

lemma read_reply_exact:
  assumes "ready s" and "contents s = be32 (of_nat (length p)) @ p @ rest" and "length p \<le> kMaxMessage" and "parses p"
  shows "\<exists>s'. read_reply rd parses s = (Some (Inr p), s') \<and> ready s' \<and> contents s' = rest"
proof -
  obtain s1 where s1: "rd 4 s = (Got (be32 (of_nat (length p))), s1)" "ready s1" "contents s1 = p @ rest"
    using rd_exact [OF assms(1,2)] by auto
  obtain s2 where s2: "read_body rd (length p) s1 = (Value p, s2)" "ready s2" "contents s2 = rest"
    using read_body_exact [OF s1(2,3)] by blast
  have "unat (of_nat (length p) :: u32) = length p"
    using assms(3) by (simp add: unsigned_of_nat kMaxMessage_def take_bit_nat_eq_self)
  then show ?thesis using assms(3,4) s1(1) s2 by (simp add: read_reply_def be32_value_be32)
qed

lemma read_reply_sound:
  assumes "read_reply rd parses s = (Some (Inr p), s')"
  shows "contents s = be32 (of_nat (length p)) @ p @ contents s' \<and> length p \<le> kMaxMessage \<and> parses p"
proof -
  obtain bs s1 where 1: "rd 4 s = (Got bs, s1)"
    using assms by (auto simp: read_reply_def split: prod.splits net_result.splits)
  then have 2: "unat (be32_value bs) \<le> kMaxMessage" "read_body rd (unat (be32_value bs)) s1 = (Value p, s')" "parses p"
    using assms by (auto simp: read_reply_def Let_def split: if_splits prod.splits read_out.splits)
  have 3: "contents s = bs @ contents s1" "length bs = 4" using rd_sound [OF 1] by auto
  have 4: "contents s1 = p @ contents s'" "length p = unat (be32_value bs)" using read_body_sound [OF 2(2)] by auto
  have "be32 (of_nat (length p)) = bs" using be32_be32_value [OF 3(2)] by (simp add: 4(2))
  then show ?thesis using 2(1,3) 3(1) 4 by simp
qed

end

lemma WriteAll_Got: "WriteAll frame as c = (Got bs, out, c') \<Longrightarrow> out = frame \<and> bs = frame \<and> c' = c"
  by (cases "WriteAll_loop frame [] as")
    (use WriteAll_loop_out [of frame "[]" as] in \<open>force simp: WriteAll_def split: if_splits\<close>)

lemma slot_call_Inr:
  assumes "slot_call ser parses env conn = (Some (Inr payload), conn', out, stream)"
  shows "parses payload \<and> ce_stream env = be32 (of_nat (length payload)) @ payload @ stream \<and>
    (\<exists>args. ce_args env = Some args \<and> encode_frame ser (request_header (ce_service env) (ce_method env) 0 args) args = Inr out)"
proof -
  obtain args where a: "check_request (ce_ok env) (ce_args env) = Inr args"
    using assms by (auto simp: slot_call_def split: sum.splits)
  then have args: "ce_args env = Some args" by (auto simp: check_request_def split: if_splits option.splits)
  obtain frame where f: "encode_frame ser (request_header (ce_service env) (ce_method env) 0 args) args = Inr frame"
    using assms a by (auto simp: slot_call_def split: sum.splits)
  obtain c where c: "(if usable conn then Inr (the conn) else ce_connect env) = Inr c"
    using assms a f by (auto simp: slot_call_def split: sum.splits)
  obtain r c' where w: "WriteAll frame (ce_writes env) c = (r, out, c')"
    and r: "\<exists>as' d. read_reply net_read parses (ce_reads env, ce_stream env, c') = (Some (Inr payload), (as', stream, d))" "\<exists>bs. r = Got bs"
    using assms a f c by (auto simp: slot_call_def split: prod.splits net_result.splits)
  have "out = frame" using w r(2) WriteAll_Got by blast
  then show ?thesis using args f r(1) net.read_reply_sound by fastforce
qed

lemma CallMethod_slot_cases:
  assumes "CallMethod_slot ser parses env ch = ((Some r, out, stream), ch')"
  obtains (refused) "acquire_slot (ch_slots ch) = None" "r = Inl Overloaded" "out = []" "stream = ce_stream env" "ch' = ch"
  | (called) i conn where "i < length (ch_slots ch)" "\<not> slot_busy (ch_slots ch ! i)"
      "slot_call ser parses env (slot_conn (ch_slots ch ! i)) = (Some r, conn, out, stream)"
      "ch' = ch\<lparr>ch_slots := (ch_slots ch)[i :=
         \<lparr>slot_busy = False, slot_conn = (case r of Inr _ \<Rightarrow> conn | Inl _ \<Rightarrow> None)\<rparr>]\<rparr>"
proof (cases "acquire_slot (ch_slots ch)")
  case None
  show ?thesis by (rule refused [OF None]) (use assms None in \<open>simp_all add: CallMethod_slot_def\<close>)
next
  case (Some a)
  obtain i slots where a: "a = (i, slots)" by (cases a)
  then have i: "i < length (ch_slots ch)" "\<not> slot_busy (ch_slots ch ! i)"
      "slots = (ch_slots ch)[i := (ch_slots ch ! i)\<lparr>slot_busy := True\<rparr>]"
    using acquire_slot_Some [of "ch_slots ch" i slots] Some by auto
  obtain r' conn out' stream' where c: "slot_call ser parses env (slot_conn (ch_slots ch ! i)) = (r', conn, out', stream')"
    by (cases "slot_call ser parses env (slot_conn (ch_slots ch ! i))") auto
  have s: "slot_conn (slots ! i) = slot_conn (ch_slots ch ! i)" using i by simp
  have e: "CallMethod_slot ser parses env ch =
      ((r', out', stream'),
       ch\<lparr>ch_slots := (case r' of None \<Rightarrow> slots[i := (slots ! i)\<lparr>slot_conn := conn\<rparr>]
         | Some r \<Rightarrow> release_slot (case r of Inr _ \<Rightarrow> True | Inl _ \<Rightarrow> False) i (slots[i := (slots ! i)\<lparr>slot_conn := conn\<rparr>]))\<rparr>)"
    by (simp add: CallMethod_slot_def Some a c s Let_def)
  have r: "r' = Some r" "out' = out" "stream' = stream" using assms e by simp_all
  show ?thesis
  proof (rule called [OF i(1,2)])
    show "slot_call ser parses env (slot_conn (ch_slots ch ! i)) = (Some r, conn, out, stream)" using c r by simp
    have "ch' = ch\<lparr>ch_slots := release_slot (case r of Inr _ \<Rightarrow> True | Inl _ \<Rightarrow> False) i (slots[i := (slots ! i)\<lparr>slot_conn := conn\<rparr>])\<rparr>"
      using assms e r by simp
    then show "ch' = ch\<lparr>ch_slots := (ch_slots ch)[i :=
         \<lparr>slot_busy = False, slot_conn = (case r of Inr _ \<Rightarrow> conn | Inl _ \<Rightarrow> None)\<rparr>]\<rparr>"
      using i(1) by (cases r; cases "ch_slots ch ! i") (simp_all add: release_slot_def i(3))
  qed
qed

text \<open>
  C38: A call on a slot reports success only with the message the server sent as the reply to
  this call: the frame of the request was sent completely, and the stream began with the
  length and the bytes of the message, which are all that was taken. After a failure the slot has no
  connection, so no later call can meet the rest of an old reply. No other slot changes, and
  the slot is free again.
\<close>

theorem slot_call_outcome:
  assumes "CallMethod_slot ser parses env ch = ((Some r, out, stream), ch')"
  shows "(case r of
      Inr payload \<Rightarrow> parses payload \<and> ce_stream env = be32 (of_nat (length payload)) @ payload @ stream \<and>
        (\<exists>args. ce_args env = Some args \<and>
           encode_frame ser (request_header (ce_service env) (ce_method env) 0 args) args = Inr out)
    | Inl e \<Rightarrow> (e = Overloaded \<and> (\<forall>s \<in> set (ch_slots ch). slot_busy s) \<and> ch' = ch \<and> out = []) \<or>
        (\<exists>i < length (ch_slots ch). \<not> slot_busy (ch_slots ch ! i) \<and>
           ch' = ch\<lparr>ch_slots := (ch_slots ch)[i := \<lparr>slot_busy = False, slot_conn = None\<rparr>]\<rparr>)) \<and>
    map slot_busy (ch_slots ch') = map slot_busy (ch_slots ch)"
  using assms
proof (cases rule: CallMethod_slot_cases)
  case refused
  then show ?thesis by (simp add: acquire_slot_None)
next
  case (called i conn)
  have b: "map slot_busy (ch_slots ch') = map slot_busy (ch_slots ch)"
    using called(1,2,4) by (auto simp: list_eq_iff_nth_eq nth_list_update)
  show ?thesis
  proof (cases r)
    case (Inl e)
    then show ?thesis using called(1,2,4) b by auto
  next
    case (Inr payload)
    from slot_call_Inr [OF called(3) [unfolded Inr]] show ?thesis using b Inr by simp
  qed
qed

definition example_env :: call_env where
  "example_env = \<lparr>ce_ok = True, ce_args = Some [1, 2, 3], ce_service = [69], ce_method = [70],
     ce_connect = Inr (Connection_new 4), ce_writes = [example_attempt],
     ce_reads = replicate 8 example_attempt, ce_stream = be32 2 @ [7, 8] @ [5]\<rparr>"

text \<open>A call on an example channel; \<open>ser\<close> knows the header of its request only.\<close>

definition example_ser :: "RpcHeader \<Rightarrow> byte list option" where
  "example_ser h = (if h = request_header [69] [70] 0 [1, 2, 3] then Some [9, 9] else None)"

lemma example_frame: "encode_frame example_ser (request_header [69] [70] 0 [1, 2, 3]) [1, 2, 3] = Inr [2, 9, 9, 1, 2, 3]"
proof -
  have v: "EncodeVarint32 2 = [2]" by (subst EncodeVarint32.simps) simp
  show ?thesis by (simp add: encode_frame_def example_ser_def v kMaxHeader_def kMaxMessage_def)
qed

text \<open>
  What the provider answers is what the caller gets: if there is a free slot, the request is
  valid, its frame is sent completely and the peer sends the reply the provider writes for a
  message, then the call gives exactly that message and leaves what follows it.
\<close>

theorem slot_reply_roundtrip:
  assumes "acquire_slot (ch_slots ch) = Some (i, slots)" and "check_request (ce_ok env) (ce_args env) = Inr args"
    and "encode_frame ser (request_header (ce_service env) (ce_method env) 0 args) args = Inr frame"
    and "(if usable (slot_conn (slots ! i)) then Inr (the (slot_conn (slots ! i))) else ce_connect env) = Inr c"
    and "WriteAll frame (ce_writes env) c = (Got out, out, c')"
    and "ce_stream env = be32 (of_nat (length payload)) @ payload @ rest"
    and "length payload \<le> kMaxMessage" and "parses payload" and "net_ready (ce_reads env, ce_stream env, c')"
  shows "fst (CallMethod_slot ser parses env ch) = (Some (Inr payload), frame, rest)"
proof -
  obtain s' where "read_reply net_read parses (ce_reads env, ce_stream env, c') = (Some (Inr payload), s')" "fst (snd s') = rest"
    using net.read_reply_exact [OF assms(9), where p = payload and rest = rest and parses = parses] assms(6-8) by auto
  then show ?thesis using assms(1-5) WriteAll_Got [OF assms(5)]
    by (cases s') (auto simp: CallMethod_slot_def slot_call_def Let_def split: prod.splits)
qed

lemma example_write: "WriteAll [2, 9, 9, 1, 2, 3] [example_attempt] (Connection_new 4) = (Got [2, 9, 9, 1, 2, 3], [2, 9, 9, 1, 2, 3], Connection_new 4)"
  by (simp add: WriteAll_def Connection_new_def example_attempt_def)

theorem slot_reply_roundtrip_witness:
  "fst (CallMethod_slot example_ser (\<lambda>_. True) example_env (Channel_new 1 5000 False)) = (Some (Inr [7, 8]), [2, 9, 9, 1, 2, 3], [5])"
proof (rule slot_reply_roundtrip [where i = 0 and slots = "[\<lparr>slot_busy = True, slot_conn = None\<rparr>]" and c = "Connection_new 4"])
  show "encode_frame example_ser (request_header (ce_service example_env) (ce_method example_env) 0 [1, 2, 3]) [1, 2, 3] = Inr [2, 9, 9, 1, 2, 3]"
    using example_frame by (simp add: example_env_def)
  show "WriteAll [2, 9, 9, 1, 2, 3] (ce_writes example_env) (Connection_new 4) = (Got [2, 9, 9, 1, 2, 3], [2, 9, 9, 1, 2, 3], Connection_new 4)"
    using example_write by (simp add: example_env_def)
  show "net_ready (ce_reads example_env, ce_stream example_env, Connection_new 4)"
    using example_ready [of "ce_stream example_env" 8] by (simp add: example_env_def)
qed (simp_all add: Channel_new_def example_env_def check_request_def kMaxMessage_def usable_def)

definition example_failing :: "Channel" where
  "example_failing = (Channel_new 1 5000 False)\<lparr>ch_slots := [\<lparr>slot_busy = False, slot_conn = Some (Connection_new 7)\<rparr>]\<rparr>"

lemma example_failed_call:
  "CallMethod_slot example_ser (\<lambda>_. True) (example_env\<lparr>ce_args := None\<rparr>) example_failing =
     ((Some (Inl RequestSize), [], ce_stream example_env), Channel_new 1 5000 False)"
  by (simp add: CallMethod_slot_def Channel_new_def example_env_def example_failing_def slot_call_def check_request_def release_slot_def)

theorem slot_call_outcome_witness:
  "map slot_busy (ch_slots (Channel_new 1 5000 False)) = map slot_busy (ch_slots example_failing) \<and>
   Channel_new 1 5000 False = example_failing\<lparr>ch_slots := [\<lparr>slot_busy = False, slot_conn = None\<rparr>]\<rparr>"
  using slot_call_outcome [OF example_failed_call] by (auto simp: example_failing_def)

end
