(* ===== verification/Rpc_Provider_Safety.thy ===== *)
theory Rpc_Provider_Safety
  imports Rpc_Provider Rpc_Slots
begin

text \<open>
  The provider: memory for requests stays within its limit, the counters that a stop waits for
  are exact, and the Fiber of every call is resumed exactly once.
\<close>

section \<open>Memory for requests\<close>

text \<open>The reservations of all connections: \<open>live\<close> has the bytes of each that exists.\<close>

record res_sys =
  buffered :: u64
  live :: "u64 list"

inductive res_step :: "u64 \<Rightarrow> res_sys \<Rightarrow> res_sys \<Rightarrow> bool" for max_buffered :: u64 where
  res_open: "res_step max_buffered R (R\<lparr>live := live R @ [0]\<rparr>)"
| res_add: "live R = xs @ n # ys \<Longrightarrow> Reservation_Add max_buffered amount (buffered R, n) = Some (b, n') \<Longrightarrow>
    res_step max_buffered R (R\<lparr>buffered := b, live := xs @ n' # ys\<rparr>)"
| res_drop: "live R = xs @ n # ys \<Longrightarrow>
    res_step max_buffered R (R\<lparr>buffered := Reservation_release (buffered R, n), live := xs @ ys\<rparr>)"

inductive_cases res_stepE: "res_step max_buffered R R'"

definition res_inv :: "u64 \<Rightarrow> res_sys \<Rightarrow> bool" where
  "res_inv m R \<longleftrightarrow> unat (buffered R) = sum_list (map unat (live R)) \<and> buffered R \<le> m"

lemma res_inv_step:
  assumes "res_inv m R" and "res_step m R R'"
  shows "res_inv m R'"
  using assms(2)
proof (cases rule: res_step.cases)
  case res_open
  then show ?thesis using assms(1) by (simp add: res_inv_def)
next
  case (res_add xs n ys amount b n')
  then have a: "amount \<le> m" "buffered R \<le> m - amount" "b = buffered R + amount" "n' = n + amount"
    by (auto simp: Reservation_Add_def split: if_splits)
  note u = unat_add_room [OF a(1,2)]
  have "unat n \<le> unat (buffered R)" using assms(1) res_add(2) by (simp add: res_inv_def)
  then have "unat n + unat amount < 2 ^ 64" using u(2) unsigned_less [of m, where 'a = nat] by simp
  then have "unat n' = unat n + unat amount" using unat_add_lem [of n amount] a(4) by simp
  moreover have "unat b = unat (buffered R) + unat amount" using u(1) a(3) by (simp add: add.commute)
  moreover have "b \<le> m" using u by (simp add: word_le_nat_alt a(3) add.commute)
  ultimately show ?thesis using assms(1) res_add(1,2) by (simp add: res_inv_def)
next
  case (res_drop xs n ys)
  have e: "unat (buffered R) = unat n + sum_list (map unat (xs @ ys))" using assms(1) res_drop(2) by (simp add: res_inv_def)
  then have "n \<le> buffered R" by (simp add: word_le_nat_alt)
  then have "unat (buffered R - n) = sum_list (map unat (xs @ ys))" using e by (simp add: unat_sub)
  moreover have "buffered R - n \<le> m"
    using calculation e assms(1) by (simp add: res_inv_def word_le_nat_alt)
  ultimately show ?thesis using res_drop(1) by (simp add: res_inv_def Reservation_release_def)
qed

interpretation res: invariant_of "\<lambda>R. buffered R = 0 \<and> live R = []" "res_step m" "res_inv m" for m
proof unfold_locales
  show "res_inv m R" if "buffered R = 0 \<and> live R = []" for R using that by (simp add: res_inv_def)
qed (rule res_inv_step)

text \<open>
  C39: The provider never holds more than \<^verbatim>\<open>max_buffered_bytes\<close> for requests and responses: in every
  interleaving of connections \<^verbatim>\<open>buffered_bytes\<close> is exactly the sum of the reservations that exist,
  without overflow, and a request of more bytes than are free is refused and changes nothing.
\<close>

theorem buffered_bytes_bounded:
  assumes "buffered R0 = 0" and "live R0 = []" and "(res_step m)\<^sup>*\<^sup>* R0 R"
  shows "unat (buffered R) = sum_list (map unat (live R)) \<and> sum_list (map unat (live R)) \<le> unat m \<and>
    (Reservation_Add m amount (buffered R, n) = None \<longleftrightarrow> unat m < sum_list (map unat (live R)) + unat amount)"
proof -
  have "res_inv m R" using res.inv_reachable [OF _ assms(3)] assms(1,2) by simp
  then have i: "unat (buffered R) = sum_list (map unat (live R))" "unat (buffered R) \<le> unat m"
    by (simp_all add: res_inv_def word_le_nat_alt)
  have "Reservation_Add m amount (buffered R, n) = None \<longleftrightarrow> unat m < unat (buffered R) + unat amount"
    by (cases "amount \<le> m") (auto simp: Reservation_Add_def word_less_nat_alt word_le_nat_alt unat_sub)
  then show ?thesis using i by simp
qed

theorem buffered_bytes_bounded_witness:
  "\<exists>R. (res_step 10)\<^sup>*\<^sup>* \<lparr>buffered = 0, live = []\<rparr> R \<and> live R = [7] \<and> unat (buffered R) = 7 \<and>
     Reservation_Add 10 4 (buffered R, 7) = None"
proof -
  let ?S = "\<lparr>buffered = 0 :: u64, live = []\<rparr>" and ?R = "\<lparr>buffered = 7 :: u64, live = [7]\<rparr>"
  have "res_step 10 ?S \<lparr>buffered = 0, live = [0]\<rparr>" using res_open [of 10 ?S] by simp
  moreover have "res_step 10 \<lparr>buffered = 0, live = [0]\<rparr> ?R"
    using res_add [of "\<lparr>buffered = 0, live = [0]\<rparr>" "[]" 0 "[]" 10 7 7 7] by (simp add: Reservation_Add_def word_less_nat_alt)
  ultimately have r: "(res_step 10)\<^sup>*\<^sup>* ?S ?R" by (meson rtranclp.rtrancl_into_rtrancl rtranclp.rtrancl_refl)
  show ?thesis using buffered_bytes_bounded [OF _ _ r, of 4 7] r by (intro exI [of _ ?R]) simp
qed

section \<open>Rounds of a connection\<close>

lemma Reservation_Add_difference:
  "Reservation_Add m a q = Some r \<Longrightarrow> fst r - snd r = fst q - snd q"
  by (cases q) (auto simp: Reservation_Add_def split: if_splits)

lemma read_request_reservation:
  assumes "read_request rd parse m b s = (req, r, s')"
  shows "Reservation_release r = b"
proof -
  have "fst r - snd r = b"
    using assms
    by (auto simp: read_request_def Let_def split: prod.splits read_out.splits if_splits option.splits
        dest!: Reservation_Add_difference)
  then show ?thesis by (cases r) (simp add: Reservation_release_def)
qed

text \<open>A round that ends gives back the memory it reserved.\<close>

lemma handle_round_gives_back:
  assumes "handle_round rd parse parses expired waiter worker task closed s p = (next, s', p')"
    and "next = Break \<or> next = Next_round x"
  shows "pv_buffered_bytes p' = pv_buffered_bytes p"
proof (cases "\<not> pv_accepting p \<or> closed")
  case False
  obtain req r t where q: "read_request rd parse (pv_max_buffered_bytes p) (pv_buffered_bytes p) s = (req, r, t)"
    by (metis prod_cases3)
  show ?thesis
    using assms False read_request_reservation [OF q]
    by (auto simp: handle_round_def q Let_def split: request_next.splits option.splits if_splits prod.splits)
qed (use assms(1) in \<open>simp add: handle_round_def\<close>)

section \<open>Calls in progress\<close>

text \<open>
  The provider with its handlers: \<open>singles\<close> and \<open>muxes\<close> are the contexts ever admitted by the two
  protocols. \<open>waiting\<close> are the handlers that have not yet left their wait, \<open>working\<close> the calls whose
  \<^verbatim>\<open>done\<close> was not run, \<open>muxed\<close> the multiplexed calls whose response was not written; \<open>stopq\<close> are the
  contexts a stop has collected and not yet finished. A service runs \<^verbatim>\<open>done\<close> once, which is its
  contract.
\<close>

record pv_sys =
  prov :: Provider
  waiting :: "nat set"
  working :: "nat set"
  muxed :: "nat set"
  singles :: "nat set"
  muxes :: "nat set"
  stopq :: "nat list"

inductive pv_step :: "pv_sys \<Rightarrow> pv_sys \<Rightarrow> bool" where
  pv_register: "Register s (prov S) = (b, p) \<Longrightarrow> pv_step S (S\<lparr>prov := p\<rparr>)"
| pv_start: "Provider_Start inet_pton ip port k (prov S) = (b, p) \<Longrightarrow> pv_step S (S\<lparr>prov := p\<rparr>)"
| pv_context: "new_context w k (prov S) = (x, p) \<Longrightarrow> pv_step S (S\<lparr>prov := p\<rparr>)"
| pv_admit: "x < pv_next_ctx (prov S) \<Longrightarrow> x \<notin> singles S \<union> muxes S \<Longrightarrow> \<forall>y \<in> waiting S. \<not> expired y \<Longrightarrow>
    admit_single expired x (prov S) = (True, p) \<Longrightarrow>
    pv_step S (S\<lparr>prov := p, waiting := insert x (waiting S), working := insert x (working S), singles := insert x (singles S)\<rparr>)"
| pv_queue: "submit_handler task (prov S) = (b, p) \<Longrightarrow> pv_step S (S\<lparr>prov := p\<rparr>)"
| pv_take: "executor_take (pv_executor (prov S)) = (a, e) \<Longrightarrow> pv_step S (S\<lparr>prov := (prov S)\<lparr>pv_executor := e\<rparr>\<rparr>)"
| pv_count: "x \<in> working S \<Longrightarrow> pv_step S (S\<lparr>prov := count_down (prov S), working := working S - {x}\<rparr>)"
| pv_finish: "x \<in> singles S \<Longrightarrow> v \<in> {1, 2} \<Longrightarrow> pv_step S (S\<lparr>prov := ctx_Finish True v x (prov S)\<rparr>)"
| pv_resume: "x \<in> waiting S \<Longrightarrow> cx_outcome (pv_ctx (prov S) x) \<noteq> 0 \<Longrightarrow> single_resume x (prov S) = (completed, p) \<Longrightarrow>
    pv_step S (S\<lparr>prov := p, waiting := waiting S - {x}\<rparr>)"
| pv_mux: "x < pv_next_ctx (prov S) \<Longrightarrow> x \<notin> singles S \<union> muxes S \<Longrightarrow> admit_mux (prov S) = (True, p) \<Longrightarrow>
    pv_step S (S\<lparr>prov := p, muxed := insert x (muxed S), muxes := insert x (muxes S)\<rparr>)"
| pv_mux_threw: "x \<in> muxed S \<Longrightarrow> pv_step S (S\<lparr>prov := mux_threw x (prov S)\<rparr>)"
| pv_mux_end: "x \<in> muxed S \<Longrightarrow> pv_step S (S\<lparr>prov := mux_count_down (prov S), muxed := muxed S - {x}\<rparr>)"
| pv_stop: "\<forall>y \<in> waiting S. \<not> expired y \<Longrightarrow> stop_collect expired (prov S) = (server, xs, p) \<Longrightarrow>
    pv_step S (S\<lparr>prov := p, stopq := stopq S @ xs\<rparr>)"
| pv_stop_finish: "stopq S = xs @ x # ys \<Longrightarrow> pv_step S (S\<lparr>prov := ctx_Finish True 2 x (prov S), stopq := xs @ ys\<rparr>)"

inductive_cases pv_stepE: "pv_step S S'"

definition pv_init :: "u64 \<Rightarrow> pv_sys \<Rightarrow> bool" where
  "pv_init n S \<longleftrightarrow> (\<exists>queued timeout limit. prov S = Provider_new queued n timeout limit) \<and> waiting S = {} \<and> working S = {} \<and>
     muxed S = {} \<and> singles S = {} \<and> muxes S = {} \<and> stopq S = []"

lemma mux_reply_counts: "snd (snd (mux_reply ser req_id x response as conn p)) = mux_count_down p"
  by (auto simp: mux_reply_def Let_def split: option.splits prod.splits)

lemma ctx_Finish_sel [simp]:
  "pv_pending_count (ctx_Finish alive v x p) = pv_pending_count p"
  "pv_outstanding (ctx_Finish alive v x p) = pv_outstanding p"
  "pv_max_connections (ctx_Finish alive v x p) = pv_max_connections p"
  "pv_next_ctx (ctx_Finish alive v x p) = pv_next_ctx p"
  "pv_pending (ctx_Finish alive v x p) = pv_pending p"
  "pv_accepting (ctx_Finish alive v x p) = pv_accepting p"
  by (simp_all add: ctx_Finish_def Let_def)

section \<open>The counters\<close>

definition counts_ok :: "u64 \<Rightarrow> pv_sys \<Rightarrow> bool" where
  "counts_ok n S \<longleftrightarrow> unat (pv_pending_count (prov S)) = card (waiting S) + card (muxed S) \<and>
     unat (pv_outstanding (prov S)) = card (working S) + card (muxed S) \<and>
     pv_outstanding (prov S) \<le> max n (n * 64)"

definition sets_ok :: "u64 \<Rightarrow> pv_sys \<Rightarrow> bool" where
  "sets_ok n S \<longleftrightarrow> waiting S \<union> working S \<subseteq> singles S \<and> muxed S \<subseteq> muxes S \<and> singles S \<inter> muxes S = {} \<and>
     singles S \<union> muxes S \<subseteq> {..<pv_next_ctx (prov S)} \<and> pv_max_connections (prov S) = n"

definition counts_inv :: "u64 \<Rightarrow> pv_sys \<Rightarrow> bool" where
  "counts_inv n S \<longleftrightarrow> sets_ok n S \<and> (pv_next_ctx (prov S) < 2 ^ 64 \<longrightarrow> counts_ok n S)"

lemma sets_okD:
  assumes "sets_ok n S"
  shows "finite (waiting S)" and "finite (working S)" and "finite (muxed S)"
    and "x \<in> waiting S \<Longrightarrow> x \<in> singles S" and "x \<in> working S \<Longrightarrow> x \<in> singles S" and "x \<in> muxed S \<Longrightarrow> x \<in> muxes S"
    and "x \<in> singles S \<Longrightarrow> x \<notin> muxes S" and "x \<in> singles S \<Longrightarrow> x < pv_next_ctx (prov S)"
    and "x \<in> muxes S \<Longrightarrow> x < pv_next_ctx (prov S)"
proof -
  have "A \<subseteq> {..<pv_next_ctx (prov S)}" if "A \<in> {waiting S, working S, muxed S}" for A
    using assms that unfolding sets_ok_def by blast
  then have "finite A" if "A \<in> {waiting S, working S, muxed S}" for A
    using that by (meson finite_lessThan finite_subset)
  then show "finite (waiting S)" "finite (working S)" "finite (muxed S)" by simp_all
qed (use assms in \<open>auto simp: sets_ok_def\<close>)

lemma room_for_one:
  assumes "sets_ok n S" and "x < pv_next_ctx (prov S)" and "x \<notin> singles S \<union> muxes S"
  shows "card (waiting S) + card (muxed S) < pv_next_ctx (prov S)" and "card (working S) + card (muxed S) < pv_next_ctx (prov S)"
proof -
  note D = sets_okD [OF assms(1)]
  have "card (A \<union> muxed S) < card {..<pv_next_ctx (prov S)}" if "A \<subseteq> singles S" for A
    using assms that by (intro psubset_card_mono) (auto simp: sets_ok_def)
  moreover have "card (A \<union> muxed S) = card A + card (muxed S)" if "finite A" "A \<subseteq> singles S" for A
    using that D(3,6,7) by (intro card_Un_disjoint) auto
  ultimately show "card (waiting S) + card (muxed S) < pv_next_ctx (prov S)" "card (working S) + card (muxed S) < pv_next_ctx (prov S)"
    using D(1,2,4,5) by (metis card_lessThan subsetI)+
qed

lemma unat_Suc: "unat w = m \<Longrightarrow> Suc m < 2 ^ 64 \<Longrightarrow> unat (w + 1) = Suc m" for w :: u64
  using unat_add_lem [of w 1] by simp

lemma counts_admit:
  assumes "counts_inv n S" and "x < pv_next_ctx (prov S)" and "x \<notin> singles S \<union> muxes S"
    and "admit_single expired x (prov S) = (True, p)"
  shows "counts_inv n (S\<lparr>prov := p, waiting := insert x (waiting S), working := insert x (working S), singles := insert x (singles S)\<rparr>)"
    (is "counts_inv n ?T")
proof -
  have s: "sets_ok n S" using assms(1) by (simp add: counts_inv_def)
  have a: "pv_outstanding (prov S) < n" "p = (prov S)\<lparr>pv_pending := filter (\<lambda>y. \<not> expired y) (pv_pending (prov S)) @ [x],
      pv_pending_count := pv_pending_count (prov S) + 1, pv_outstanding := pv_outstanding (prov S) + 1\<rparr>"
    using assms(4) s by (auto simp: admit_single_def sets_ok_def split: if_splits)
  note D = sets_okD [OF s] and R = room_for_one [OF s assms(2,3)]
  have new: "x \<notin> waiting S" "x \<notin> working S" using assms(3) D(4,5) by auto
  have "sets_ok n ?T" using s assms(2,3) unfolding sets_ok_def a(2) by auto
  moreover have "counts_ok n ?T" if "pv_next_ctx (prov S) < 2 ^ 64"
  proof -
    have c: "unat (pv_pending_count (prov S)) = card (waiting S) + card (muxed S)"
        "unat (pv_outstanding (prov S)) = card (working S) + card (muxed S)"
      using assms(1) that by (simp_all add: counts_inv_def counts_ok_def)
    have "unat (pv_outstanding (prov S) + 1) = Suc (unat (pv_outstanding (prov S)))" using unat_Suc [OF c(2)] R(2) that c(2) by simp
    then have "pv_outstanding (prov S) + 1 \<le> n" using a(1) by (simp add: word_less_nat_alt word_le_nat_alt)
    then show ?thesis using unat_Suc [OF c(1)] unat_Suc [OF c(2)] R that new D(1,2)
      by (auto simp: counts_ok_def a(2) le_max_iff_disj)
  qed
  ultimately show ?thesis by (simp add: counts_inv_def a(2))
qed

lemma counts_mux:
  assumes "counts_inv n S" and "x < pv_next_ctx (prov S)" and "x \<notin> singles S \<union> muxes S" and "admit_mux (prov S) = (True, p)"
  shows "counts_inv n (S\<lparr>prov := p, muxed := insert x (muxed S), muxes := insert x (muxes S)\<rparr>)" (is "counts_inv n ?T")
proof -
  have s: "sets_ok n S" using assms(1) by (simp add: counts_inv_def)
  have a: "pv_outstanding (prov S) < n * 64" "p = (prov S)\<lparr>pv_outstanding := pv_outstanding (prov S) + 1,
      pv_pending_count := pv_pending_count (prov S) + 1\<rparr>"
    using assms(4) s by (auto simp: admit_mux_def sets_ok_def split: if_splits)
  note D = sets_okD [OF s] and R = room_for_one [OF s assms(2,3)]
  have new: "x \<notin> muxed S" using assms(3) D(6) by auto
  have "sets_ok n ?T" using s assms(2,3) unfolding sets_ok_def a(2) by auto
  moreover have "counts_ok n ?T" if "pv_next_ctx (prov S) < 2 ^ 64"
  proof -
    have c: "unat (pv_pending_count (prov S)) = card (waiting S) + card (muxed S)"
        "unat (pv_outstanding (prov S)) = card (working S) + card (muxed S)"
      using assms(1) that by (simp_all add: counts_inv_def counts_ok_def)
    have "unat (pv_outstanding (prov S) + 1) = Suc (unat (pv_outstanding (prov S)))" using unat_Suc [OF c(2)] R(2) that c(2) by simp
    then have "pv_outstanding (prov S) + 1 \<le> n * 64" using a(1) by (simp add: word_less_nat_alt word_le_nat_alt)
    then show ?thesis using unat_Suc [OF c(1)] unat_Suc [OF c(2)] R that new D(3)
      by (auto simp: counts_ok_def a(2) le_max_iff_disj)
  qed
  ultimately show ?thesis by (simp add: counts_inv_def a(2))
qed

lemma unat_pred: "unat w = m \<Longrightarrow> 0 < m \<Longrightarrow> unat (w - 1) = m - 1 \<and> w - 1 \<le> w" for w :: u64
  using unat_sub [of 1 w] by (simp add: word_le_nat_alt)

lemma counts_frame:
  assumes "counts_inv n S" and "pv_pending_count p = pv_pending_count (prov S)" and "pv_outstanding p = pv_outstanding (prov S)"
    and "pv_max_connections p = pv_max_connections (prov S)" and "pv_next_ctx (prov S) \<le> pv_next_ctx p"
  shows "counts_inv n (S\<lparr>prov := p, stopq := q\<rparr>)" and "counts_inv n (S\<lparr>prov := p\<rparr>)"
  using assms by (auto simp: counts_inv_def sets_ok_def counts_ok_def)

lemma counts_inv_step:
  assumes "counts_inv n S" and "pv_step S S'"
  shows "counts_inv n S'"
proof -
  have s: "sets_ok n S" using assms(1) by (simp add: counts_inv_def)
  note D = sets_okD [OF s] and F = counts_frame [OF assms(1)]
  have C: "unat (pv_pending_count (prov S)) = card (waiting S) + card (muxed S)"
      "unat (pv_outstanding (prov S)) = card (working S) + card (muxed S)" "pv_outstanding (prov S) \<le> max n (n * 64)"
    if "pv_next_ctx (prov S) < 2 ^ 64"
    using assms(1) that by (simp_all add: counts_inv_def counts_ok_def)
  have pos: "0 < card A" "card (A - {x}) = card A - 1" if "x \<in> A" "finite A" for x and A :: "nat set"
    using that by (auto simp: card_gt_0_iff)
  show ?thesis
    using assms(2)
  proof (cases rule: pv_step.cases)
    case (pv_register s b p)
    then show ?thesis by (auto intro!: F simp: Register_def split: option.splits if_splits prod.splits)
  next
    case (pv_start inet_pton ip port k b p)
    then show ?thesis by (auto intro!: F simp: Provider_Start_def split: option.splits if_splits prod.splits)
  next
    case (pv_admit x expired p)
    then show ?thesis using counts_admit [OF assms(1)] by simp
  next
    case (pv_mux x p)
    then show ?thesis using counts_mux [OF assms(1)] by simp
  next
    case (pv_count x)
    have "counts_ok n S'" if "pv_next_ctx (prov S) < 2 ^ 64"
      using unat_pred [OF C(2) [OF that]] pos [OF pv_count(2) D(2)] C [OF that]
      by (auto simp: pv_count(1) counts_ok_def count_down_def)
    then show ?thesis using s by (auto simp: counts_inv_def pv_count(1) sets_ok_def count_down_def)
  next
    case (pv_resume x completed p)
    have p: "p = (prov S)\<lparr>pv_pending_count := pv_pending_count (prov S) - 1\<rparr>" using pv_resume(4) by (simp add: single_resume_def)
    have "counts_ok n S'" if "pv_next_ctx (prov S) < 2 ^ 64"
      using unat_pred [OF C(1) [OF that]] pos [OF pv_resume(2) D(1)] C [OF that]
      by (auto simp: pv_resume(1) counts_ok_def p)
    then show ?thesis using s by (auto simp: counts_inv_def pv_resume(1) sets_ok_def p)
  next
    case (pv_mux_end x)
    have "counts_ok n S'" if "pv_next_ctx (prov S) < 2 ^ 64"
      using unat_pred [OF C(1) [OF that]] unat_pred [OF C(2) [OF that]] pos [OF pv_mux_end(2) D(3)] C [OF that]
      by (auto simp: pv_mux_end(1) counts_ok_def mux_count_down_def)
    then show ?thesis using s by (auto simp: counts_inv_def pv_mux_end(1) sets_ok_def mux_count_down_def)
  qed (auto intro!: F simp: new_context_def submit_handler_def stop_collect_def mux_threw_def split: prod.splits)
qed

interpretation counts: invariant_of "pv_init n" pv_step "counts_inv n" for n
proof unfold_locales
  show "counts_inv n S" if "pv_init n S" for S
    using that by (auto simp: pv_init_def counts_inv_def sets_ok_def counts_ok_def Provider_new_def)
qed (rule counts_inv_step)

section \<open>Resuming the handlers\<close>

definition submitted_ok :: "pv_sys \<Rightarrow> nat \<Rightarrow> bool" where
  "submitted_ok S x \<longleftrightarrow> filter (\<lambda>w. fst w = x) (pv_submitted (prov S)) =
     (if cx_outcome (pv_ctx (prov S) x) = 0 then []
      else [(x, cx_waiter (pv_ctx (prov S) x), cx_worker (pv_ctx (prov S) x))])"

definition resume_inv :: "pv_sys \<Rightarrow> bool" where
  "resume_inv S \<longleftrightarrow>
     (\<forall>x \<in> waiting S. cx_outcome (pv_ctx (prov S) x) = 0 \<longrightarrow> x \<in> set (pv_pending (prov S)) \<union> set (stopq S)) \<and>
     set (pv_pending (prov S)) \<union> set (stopq S) \<subseteq> singles S \<and>
     (\<forall>x \<in> singles S. submitted_ok S x) \<and> (\<forall>w \<in> set (pv_submitted (prov S)). fst w \<in> singles S) \<and>
     (\<forall>x < pv_next_ctx (prov S). x \<notin> singles S \<union> muxes S \<longrightarrow> cx_outcome (pv_ctx (prov S) x) = 0)"

lemma resume_frame:
  assumes "resume_inv S" and "pv_ctx p = pv_ctx (prov S)" and "pv_submitted p = pv_submitted (prov S)"
    and "pv_next_ctx p = pv_next_ctx (prov S)" and "pv_pending p = pv_pending (prov S)"
  shows "resume_inv (S\<lparr>prov := p\<rparr>)"
  using assms by (simp add: resume_inv_def submitted_ok_def)

text \<open>A context is finished by whoever comes first, and its Fiber submitted then.\<close>

lemma resume_Finish:
  assumes "resume_inv S" and "x \<in> singles S" and "v \<noteq> 0" and "set xs \<subseteq> set (stopq S)" and "set (stopq S) \<subseteq> insert x (set xs)"
  shows "resume_inv (S\<lparr>prov := ctx_Finish True v x (prov S), stopq := xs\<rparr>)" (is "resume_inv ?T")
proof -
  have o: "cx_outcome (pv_ctx (prov ?T) y) = (if y = x \<and> cx_outcome (pv_ctx (prov S) y) = 0 then v else cx_outcome (pv_ctx (prov S) y))" for y
    by (auto simp: ctx_Finish_def Let_def)
  have x: "submitted_ok S x" using assms(1,2) by (simp add: resume_inv_def)
  have "submitted_ok ?T y" if "submitted_ok S y" for y
    using that x assms(3) by (cases "y = x") (auto simp: submitted_ok_def ctx_Finish_def Let_def)
  then have 1: "\<forall>y \<in> singles ?T. submitted_ok ?T y" using assms(1) by (simp add: resume_inv_def)
  have 2: "\<forall>w \<in> set (pv_submitted (prov ?T)). fst w \<in> singles ?T"
    using assms(1,2) by (auto simp: resume_inv_def ctx_Finish_def Let_def)
  have "y \<in> set (pv_pending (prov ?T)) \<union> set (stopq ?T)" if "y \<in> waiting S" "cx_outcome (pv_ctx (prov ?T) y) = 0" for y
  proof -
    have "y \<noteq> x" "cx_outcome (pv_ctx (prov S) y) = 0" using that(2) assms(3) unfolding o by (auto split: if_splits)
    then show ?thesis using assms(1,5) that(1) by (auto simp: resume_inv_def)
  qed
  then have 3: "\<forall>y \<in> waiting ?T. cx_outcome (pv_ctx (prov ?T) y) = 0 \<longrightarrow> y \<in> set (pv_pending (prov ?T)) \<union> set (stopq ?T)" by simp
  have "cx_outcome (pv_ctx (prov ?T) y) = 0" if "y < pv_next_ctx (prov S)" "y \<notin> singles S \<union> muxes S" for y
    using assms(1,2) that unfolding o by (auto simp: resume_inv_def)
  then have 4: "\<forall>y < pv_next_ctx (prov ?T). y \<notin> singles ?T \<union> muxes ?T \<longrightarrow> cx_outcome (pv_ctx (prov ?T) y) = 0" by simp
  have 5: "set (pv_pending (prov ?T)) \<union> set (stopq ?T) \<subseteq> singles ?T" using assms(1,4) by (auto simp: resume_inv_def)
  show ?thesis unfolding resume_inv_def using 1 2 3 4 5 by blast
qed

lemma resume_context:
  assumes "resume_inv S" and "sets_ok n S" and "new_context w k (prov S) = (x, p)"
  shows "resume_inv (S\<lparr>prov := p\<rparr>)" (is "resume_inv ?T")
proof -
  have p: "x = pv_next_ctx (prov S)" "p = (prov S)\<lparr>pv_ctx := (pv_ctx (prov S))(x := \<lparr>cx_waiter = w, cx_worker = k, cx_outcome = 0\<rparr>),
      pv_next_ctx := Suc x\<rparr>"
    using assms(3) by (auto simp: new_context_def)
  note D = sets_okD [OF assms(2)]
  have n: "x \<notin> singles S" "x \<notin> waiting S" using D(4,8) p(1) by blast+
  have "submitted_ok ?T y" if "y \<in> singles S" for y
    using assms(1) that n(1) by (auto simp: resume_inv_def submitted_ok_def p(2))
  then show ?thesis using assms(1) n p(1) unfolding resume_inv_def by (auto simp: p(2) less_Suc_eq)
qed

lemma resume_admit:
  assumes "resume_inv S" and "x < pv_next_ctx (prov S)" and "x \<notin> singles S \<union> muxes S" and "\<forall>y \<in> waiting S. \<not> expired y"
    and "admit_single expired x (prov S) = (True, p)"
  shows "resume_inv (S\<lparr>prov := p, waiting := insert x (waiting S), working := W, singles := insert x (singles S)\<rparr>)"
    (is "resume_inv ?T")
proof -
  have p: "p = (prov S)\<lparr>pv_pending := filter (\<lambda>y. \<not> expired y) (pv_pending (prov S)) @ [x],
      pv_pending_count := pv_pending_count (prov S) + 1, pv_outstanding := pv_outstanding (prov S) + 1\<rparr>"
    using assms(5) by (auto simp: admit_single_def split: if_splits)
  have "\<forall>w \<in> set (pv_submitted (prov S)). fst w \<noteq> x" using assms(1,3) by (auto simp: resume_inv_def)
  then have "submitted_ok ?T x" using assms(1-3) by (force simp: resume_inv_def submitted_ok_def p filter_empty_conv)
  moreover have "submitted_ok ?T y" if "y \<in> singles S" for y
    using assms(1) that by (simp add: resume_inv_def submitted_ok_def p)
  ultimately show ?thesis using assms(1,4) unfolding resume_inv_def by (auto simp: p)
qed

definition pv_inv :: "u64 \<Rightarrow> pv_sys \<Rightarrow> bool" where
  "pv_inv n S \<longleftrightarrow> counts_inv n S \<and> resume_inv S"

lemma resume_inv_step:
  assumes "pv_inv n S" and "pv_step S S'"
  shows "resume_inv S'"
proof -
  have r: "resume_inv S" and s: "sets_ok n S" using assms(1) by (simp_all add: pv_inv_def counts_inv_def)
  note F = resume_frame [OF r] and D = sets_okD [OF s]
  show ?thesis
    using assms(2)
  proof (cases rule: pv_step.cases)
    case (pv_register s b p)
    then show ?thesis by (auto intro!: F simp: Register_def split: option.splits if_splits prod.splits)
  next
    case (pv_start inet_pton ip port k b p)
    then show ?thesis by (auto intro!: F simp: Provider_Start_def split: option.splits if_splits prod.splits)
  next
    case (pv_context w k x p)
    then show ?thesis using resume_context [OF r s] by simp
  next
    case (pv_admit x expired p)
    then show ?thesis using resume_admit [OF r] by simp
  next
    case (pv_finish x v)
    then have "v \<noteq> 0" by auto
    then show ?thesis using resume_Finish [OF r pv_finish(2), of v "stopq S"] pv_finish(1) by auto
  next
    case (pv_stop_finish xs x ys)
    then have "x \<in> singles S" using r by (simp add: resume_inv_def)
    then show ?thesis using resume_Finish [OF r, of x 2 "xs @ ys"] pv_stop_finish by auto
  next
    case (pv_resume x completed p)
    then have "p = (prov S)\<lparr>pv_pending_count := pv_pending_count (prov S) - 1\<rparr>" by (simp add: single_resume_def)
    then show ?thesis using r by (simp add: resume_inv_def submitted_ok_def pv_resume(1))
  next
    case (pv_mux x p)
    then have "p = (prov S)\<lparr>pv_outstanding := pv_outstanding (prov S) + 1, pv_pending_count := pv_pending_count (prov S) + 1\<rparr>"
      by (auto simp: admit_mux_def split: if_splits)
    then show ?thesis using r by (simp add: resume_inv_def submitted_ok_def pv_mux(1))
  next
    case (pv_mux_threw x)
    have x: "x \<in> muxes S" "x \<notin> singles S" "x \<notin> waiting S" using D(4,6,7) pv_mux_threw(2) by blast+
    have "submitted_ok S' y" if "y \<in> singles S" for y
      using r that x(2) by (auto simp: resume_inv_def submitted_ok_def mux_threw_def pv_mux_threw(1))
    then show ?thesis using r x unfolding resume_inv_def by (auto simp: mux_threw_def pv_mux_threw(1))
  next
    case (pv_stop expired server xs p)
    then show ?thesis using r by (auto simp: resume_inv_def submitted_ok_def stop_collect_def)
  next
    case (pv_count x)
    then show ?thesis using r by (simp add: resume_inv_def submitted_ok_def count_down_def)
  next
    case (pv_mux_end x)
    then show ?thesis using r by (simp add: resume_inv_def submitted_ok_def mux_count_down_def)
  qed (auto intro!: F simp: submit_handler_def split: prod.splits)
qed

interpretation provider: invariant_of "pv_init n" pv_step "pv_inv n" for n
proof unfold_locales
  show "pv_inv n S" if "pv_init n S" for S
    using that counts.inv_init [OF that] by (auto simp: pv_inv_def pv_init_def resume_inv_def Provider_new_def)
  show "pv_inv n S'" if "pv_inv n S" "pv_step S S'" for S S'
    using resume_inv_step [OF that] counts_inv_step [of n S S'] that by (simp add: pv_inv_def)
qed

section \<open>Properties of the provider\<close>


lemma fold_Finish_outcome:
  "v \<noteq> 0 \<Longrightarrow> x \<in> set xs \<or> cx_outcome (pv_ctx p x) \<noteq> 0 \<Longrightarrow> cx_outcome (pv_ctx (fold (ctx_Finish True v) xs p) x) \<noteq> 0"
proof (induction xs arbitrary: p)
  case (Cons y xs)
  have "x \<in> set xs \<or> cx_outcome (pv_ctx (ctx_Finish True v y p) x) \<noteq> 0"
    using Cons.prems by (auto simp: ctx_Finish_def Let_def)
  then show ?case using Cons by simp
qed simp


text \<open>An example: a provider with one service, started, with one call admitted.\<close>

definition example_service :: ServiceDescriptor where
  "example_service = \<lparr>sd_name = [69], sd_methods = [([70], 3)]\<rparr>"

definition example_accepting :: Provider where
  "example_accepting = snd (Provider_Start (\<lambda>_. Some 1) ''127.0.0.1'' 8080 example_answers
     (snd (Register (Some (1, Some example_service)) (Provider_new 8 2 5000 1000))))"

definition example_admitted :: pv_sys where
  "example_admitted =
     \<lparr>prov = snd (admit_single (\<lambda>_. False) 0 (snd (new_context (Some 5) 2 example_accepting))),
      waiting = {0}, working = {0}, muxed = {}, singles = {0}, muxes = {}, stopq = []\<rparr>"

definition example_provider :: pv_sys where
  "example_provider = \<lparr>prov = Provider_new 8 2 5000 1000, waiting = {}, working = {}, muxed = {}, singles = {}, muxes = {}, stopq = []\<rparr>"

lemmas example_provider_defs = example_accepting_def example_service_def example_answers_def Register_def Provider_Start_def Provider_new_def
  Server_Start_def Server_new_def new_conn_def Address_def emplace_def new_context_def admit_single_def

lemma example_admitted_reachable: "pv_step\<^sup>*\<^sup>* example_provider example_admitted"
proof -
  let ?S = example_provider
  have "pv_step ?S (?S\<lparr>prov := snd (Register (Some (1, Some example_service)) (prov ?S))\<rparr>)" (is "pv_step _ ?A")
    by (rule pv_register) (rule surjective_pairing)
  moreover have "pv_step ?A (?A\<lparr>prov := example_accepting\<rparr>)" (is "pv_step _ ?B")
    unfolding example_accepting_def by (rule pv_start) (simp add: example_provider_def prod_eq_iff)
  moreover have "pv_step ?B (?B\<lparr>prov := snd (new_context (Some 5) 2 (prov ?B))\<rparr>)" (is "pv_step _ ?C")
    by (rule pv_context) (rule surjective_pairing)
  moreover have "pv_step ?C example_admitted"
    using pv_admit [of 0 ?C "\<lambda>_. False" "prov example_admitted"]
    by (simp add: example_admitted_def example_provider_def example_provider_defs)
  ultimately show ?thesis by (meson rtranclp.rtrancl_into_rtrancl rtranclp.rtrancl_refl)
qed

lemma example_provider_init: "pv_init 2 example_provider"
  unfolding pv_init_def example_provider_def by auto



text \<open>A service that runs \<^verbatim>\<open>done\<close> and then throws makes the closure run twice: the counters wrap around.\<close>

lemma second_run_wraps:
  "pv_outstanding p = 1 \<Longrightarrow> pv_outstanding (mux_count_down (mux_count_down p)) = - 1 \<and> \<not> drained (mux_count_down (mux_count_down p))"
  by (simp add: mux_count_down_def drained_def)

section \<open>Services\<close>

lemma map_of_emplace: "map_of (emplace k v m) j = (case map_of m j of Some w \<Rightarrow> Some w | None \<Rightarrow> if j = k then Some v else None)"
  by (auto simp: emplace_def map_add_def split: option.splits)

lemma map_of_fold_emplace:
  "map_of (fold (\<lambda>(name, m). emplace name m) xs m0) j = (case map_of m0 j of Some w \<Rightarrow> Some w | None \<Rightarrow> map_of xs j)"
  by (induction xs arbitrary: m0) (auto simp: map_of_emplace split: option.splits)

text \<open>
  A registered service is found and no other is disturbed: after \<^verbatim>\<open>Register\<close> succeeded, a request
  that names the service is given to it with the method of that name, if it has one, and every
  other request is dispatched as before; a second service of the same name, a null service and a registration
  after the start are refused without effect.
\<close>

theorem register_dispatch:
  "Register (Some (s, Some d)) p = (b, p') \<Longrightarrow>
    (b \<longleftrightarrow> \<not> pv_started p \<and> map_of (pv_services p) (sd_name d) = None) \<and>
    (if b then find_method h p' =
       (if service_name h = sd_name d then map_option (Pair s) (map_of (sd_methods d) (method_name h)) else find_method h p)
     else p' = p)"
  by (auto simp: Register_def find_method_def map_of_emplace map_of_fold_emplace split: if_splits option.splits)

theorem register_dispatch_witness:
  "find_method \<lparr>service_name = [69], method_name = [70], args_size = 0, request_id = 0, rpc_error_text = []\<rparr>
     (snd (Register (Some (1, Some example_service)) (Provider_new 8 2 5000 1000))) = Some (1, 3)"
  using register_dispatch [of 1 example_service "Provider_new 8 2 5000 1000" True _
      "\<lparr>service_name = [69], method_name = [70], args_size = 0, request_id = 0, rpc_error_text = []\<rparr>"]
  by (simp add: example_service_def Register_def Provider_new_def)

end
