(* ===== verification/Spec2Isabelle.thy ===== *)
theory Spec2Isabelle
  imports Scheduler_Safety Timer_Safety Sync_Semaphore Hook Rpc_Mux Rpc_Provider_Safety
begin

text \<open>
  Verification of Pulsar, a C++ runtime with stackful fibers, a work stealing scheduler,
  timers, an epoll based I/O manager with hooked system calls, synchronisation of fibers, TCP
  connections and Protobuf RPC.

  \<^bold>\<open>The program.\<close> A \<^verbatim>\<open>Fiber\<close> runs a callback on a stack of a
  \<^verbatim>\<open>FiberStackAllocator\<close> and switches to the fiber that resumed it with \<^verbatim>\<open>yield\<close>. The
  \<^verbatim>\<open>Scheduler\<close> has worker threads with a queue each, which take fibers and callbacks, steal from
  each other, and cache fibers for callbacks. The \<^verbatim>\<open>IOManager\<close> is a scheduler whose idle fiber waits
  in \<^verbatim>\<open>epoll_wait\<close>, submits the waiters of ready descriptors and of expired timers of its
  \<^verbatim>\<open>TimerManager\<close>, and hands blocking functions to a thread pool. The hooks replace blocking system
  calls by a registration and a \<^verbatim>\<open>yield\<close>, with the flags of sockets kept by \<^verbatim>\<open>FdManager\<close>.
  \<^verbatim>\<open>FiberMutex\<close>, \<^verbatim>\<open>FiberConditionVariable\<close> and \<^verbatim>\<open>FiberSemaphore\<close> park fibers in a \<^verbatim>\<open>FiberWaitQueue\<close>.
  \<^verbatim>\<open>net::Connection\<close> and \<^verbatim>\<open>net::Server\<close> use the I/O manager directly, and \<^verbatim>\<open>rpc::Channel\<close> and
  \<^verbatim>\<open>rpc::Provider\<close> are built on them.

  \<^bold>\<open>How it is modelled.\<close> Classes are records, enumerations are datatypes, machine integers are
  words and wrap around. A function of the source is a definition with the name it has there where
  possible. An exception, a failed \<^verbatim>\<open>CondPanic\<close> and undefined behaviour are values of \<open>failure\<close>,
  an \<^verbatim>\<open>errno\<close> is an integer. Everything the operating system and other code outside the repository decides
  is an argument: answers of system calls, the clock, addresses of new memory, whether a weak reference
  is dead, and for RPC the serialisation and parsing of Protobuf messages. A loop that calls
  the system is a recursion on the list of its answers, and a call whose answers have run out has not
  returned. An object that is shared by address lives in a store and is named by a number.

  A section under a lock and an atomic operation are one definition each. Where a function has
  several of them it is split there, so that the step relations interleave the parts in any
  order. Each step relation interprets the locale \<open>invariant_of\<close>, which turns an inductive invariant
  into a fact on all reachable states. Other interfaces are \<open>fiber_stack_allocator\<close> (the allocators as a
  fiber sees them), \<open>fifo_wakeup\<close> (the wait queue as the primitives see it), \<open>context_table\<close> (the
  table of descriptor contexts) and \<open>byte_reader\<close> (the connection as the framing sees it), each
  interpreted on the definitions of the model.

  \<^bold>\<open>The theories\<close> (paths are relative to \<^verbatim>\<open>src/\<close> of the repository, with headers in
  \<^verbatim>\<open>include/pulsar\<close>).

  \<^item> \<open>Pulsar_Prelude\<close>: words, failures (\<^verbatim>\<open>CondPanic\<close> of \<^verbatim>\<open>utils.hpp\<close>), error numbers, ordered maps, the locale of invariants.
  \<^item> \<open>Stack_Allocator\<close>, \<open>Stack_Ownership\<close> (\<^verbatim>\<open>stack_allocator.cpp\<close>): the direct and the pooled
    allocator. Size classes are least powers of two; under every interleaving live memory is
    exactly what is cached, held or in transit and the gauges are exact; trimming ends at its target.
  \<^item> \<open>Fiber\<close>, \<open>Fiber_Safety\<close> (\<^verbatim>\<open>fiber.cpp\<close>): life cycle, resume, yield, reset. A fiber runs on one
    thread at a time, a resume returns to its caller with the exception exactly once, stacks
    are owned by one fiber.
  \<^item> \<open>Scheduler\<close>, \<open>Scheduler_Queues\<close>, \<open>Scheduler_Cache\<close>, \<open>Scheduler_Safety\<close> (\<^verbatim>\<open>scheduler.cpp\<close>): queues,
    stealing, the worker loop, callback fibers, stop. No task is lost or run twice, pinned tasks stay
    on their thread, a worker finds every task it may run, \<^verbatim>\<open>stopping\<close> means that nothing is left.
  \<^item> \<open>Timer\<close>, \<open>Timer_Wheels\<close>, \<open>Timer_Pass\<close>, \<open>Timer_Safety\<close> (\<^verbatim>\<open>timer.cpp\<close>): the hierarchical wheels. The
    slot of a timer follows its time, a pass ends, collects exactly the callbacks that are due and keeps the rest.
  \<^item> \<open>Sync\<close>, \<open>Sync_Queue\<close>, \<open>Sync_Mutex\<close>, \<open>Sync_Semaphore\<close> (\<^verbatim>\<open>sync.cpp\<close>): wait queue, mutex, condition
    variable, semaphore. Mutual exclusion, no lost wake-up, first in first out, conservation of
    the units, errors of misuse.
  \<^item> \<open>Fd_Manager\<close> (\<^verbatim>\<open>fd_manager.cpp\<close>), \<open>IOManager\<close>, \<open>IOManager_Safety\<close> (\<^verbatim>\<open>iomanager.cpp\<close>), \<open>Hook\<close>
    (\<^verbatim>\<open>hook.cpp\<close>): descriptor contexts, events, the idle loop, blocking tasks, replaced system
    calls. Every request is waiting, submitted once or deleted; the interest list of epoll
    matches the contexts; hooked calls block the fiber and not the thread, and show the flags the application set.
  \<^item> \<open>Net\<close>, \<open>Net_Safety\<close> (\<^verbatim>\<open>net.cpp\<close>): connections, waits with deadlines, the server. Exact reads
    and complete writes whatever the kernel answers, one winner of readiness, close and timeout, the limit of connections.
  \<^item> \<open>Rpc\<close>, \<open>Rpc_Codec\<close> (\<^verbatim>\<open>rpc.cpp\<close>, \<^verbatim>\<open>pulsar_rpc_header.proto\<close>): framing, executor, controller.
    The variable length integers and the frames are read back as they were written.
  \<^item> \<open>Rpc_Channel\<close>, \<open>Rpc_Slots\<close>, \<open>Rpc_Mux\<close> (\<^verbatim>\<open>rpc.cpp\<close>, \<^verbatim>\<open>Channel\<close>): the pool with one call per
    connection and the multiplexed connection. Slots are exclusive, a call gives the message of
    its own reply, a multiplexed call is completed once and by its own response.
  \<^item> \<open>Rpc_Provider\<close>, \<open>Rpc_Provider_Safety\<close> (\<^verbatim>\<open>rpc.cpp\<close>, \<^verbatim>\<open>Provider\<close>): registration, admission, both
    protocols, stop. The memory limit holds, a stop waits for exactly what is in progress, and
    each handler is resumed once.

  This theory has the property that spans channel, wire format, connection and provider: a
  multiplexed call from end to end.

  \<^bold>\<open>Bounds.\<close> Loops on answers of the system have no bound; the theorems that they return assume as many
  successful answers as there are bytes, which is enough since each gives at least one. Counters of
  64 bits are assumed not to have wrapped where their values must be distinct: request numbers of
  a channel and contexts of a provider (fewer than \<open>2 ^ 64 - 1\<close> and \<open>2 ^ 64\<close> were made). Everywhere
  else the wrap-around is part of the model. A service of the provider runs \<^verbatim>\<open>done\<close> once for a
  call, which is its documented contract.

  \<^bold>\<open>Not modelled.\<close> The switch of machine contexts (Boost.Context) is represented by whether a handle
  is empty; threads, \<^verbatim>\<open>pthread\<close> locks and \<^verbatim>\<open>Thread\<close> (\<^verbatim>\<open>thread.cpp\<close>, \<^verbatim>\<open>mutex.hpp\<close>) appear as the steps
  of the relations; the look-up of the original system calls with \<^verbatim>\<open>dlsym\<close>, backtraces and
  log output have no effect on the state; \<^verbatim>\<open>file.hpp\<close> only wraps system calls in \<^verbatim>\<open>asyncBlocking\<close>, which is modelled;
  the relaxed and acquire-release orders of some atomics are taken as sequentially consistent.
  \<^verbatim>\<open>singleton.hpp\<close>, \<^verbatim>\<open>noncopyable.hpp\<close>, the benchmark, examples and tests are not part of the model.
  The fairness of the scheduler and the operating system is not modelled, so statements on progress
  say which step is possible or what a finished pass has done.
\<close>

section \<open>A call from end to end\<close>

lemma mux_frame_error_free:
  assumes "v \<noteq> 2" and "length payload \<le> kMaxMessage" and "ser (mux_header req_id [] payload) = Some enc"
  shows "mux_frame ser req_id v (Some payload) = EncodeVarint32 (of_nat (length enc)) @ enc @ payload"
  using assms by (simp add: mux_frame_def mux_error_def)

lemma mux_prepareD:
  assumes "mux_prepare ser ok args service method w k ch = (Inr (req_id, i, frame), ch')"
  shows "\<exists>bs. args = Some bs \<and> encode_frame ser (request_header service method req_id bs) bs = Inr frame" and "i < length (ch_calls ch')"
    and "ch_pending ch' = ch_pending ch" and "\<not> pc_failed (ch_calls ch' ! i)"
  using assms
  by (auto simp: mux_prepare_def check_request_def next_id_def new_call_def Let_def split: sum.splits if_splits option.splits prod.splits)

text \<open>
  C8: A multiplexed call from end to end, as long as the connections deliver. The frame the channel
  prepares and writes is read by the provider as the request with its number, service, method
  and arguments, if the memory limit allows. The response the provider writes for a message
  and that number is read by the channel as this message, finds the call that was registered, and the caller
  gets exactly the message. Protobuf parses what it serialised.
\<close>

theorem mux_call_roundtrip:
  assumes "\<forall>h enc. ser h = Some enc \<longrightarrow> parse enc = Some h"
    and "mux_prepare ser True (Some args) service method w k ch = (Inr (req_id, i, frame), ch1)"
    and "smap_inv (ch_pending ch)"
    and "WriteAll frame sends c = (Got out, out, c')" and "net_ready (as, out @ rest, d)"
    and "unat used + length out \<le> unat max_buffered"
    and "v \<noteq> 2" and "length payload \<le> kMaxMessage" and "parses payload"
    and "ser (mux_header req_id [] payload) = Some enc" and "enc \<noteq> []" and "length enc \<le> kMaxHeader"
    and "WriteAll (mux_frame ser req_id v (Some payload)) sends2 c2 = (Got out2, out2, c2')"
    and "net_ready (as2, out2 @ rest2, d2)"
  shows "(\<exists>r s. read_request net_read parse max_buffered used (as, out @ rest, d) =
        (Request (request_header service method req_id args) args, r, s) \<and> fst (snd s) = rest) \<and>
    (\<exists>s ch2. reader_round net_read parse closed (as2, out2 @ rest2, d2) = (Deliver (mux_header req_id [] payload) payload, s) \<and>
       fst (snd s) = rest2 \<and> response_take (request_id (mux_header req_id [] payload)) (mux_register req_id i ch1) = (Some i, ch2) \<and>
       mux_finish parses i (response_complete i (mux_header req_id [] payload) payload ch2) = Inr payload)"
proof -
  note P = mux_prepareD [OF assms(2)]
  let ?h = "request_header service method req_id args" and ?r = "mux_header req_id [] payload"
  have f: "encode_frame ser ?h args = Inr frame" using P(1) by auto
  then obtain e where e: "ser ?h = Some e" by (auto simp: encode_frame_def split: option.splits)
  note E = net.encode_frame_Inr [OF f e]
  have o: "out = frame" "out2 = mux_frame ser req_id v (Some payload)" using WriteAll_Got assms(4,13) by blast+
  have "unat used + length e + length args \<le> unat max_buffered" using assms(6) o(1) E(1) by simp
  then have 1: "\<exists>r s. read_request net_read parse max_buffered used (as, out @ rest, d) = (Request ?h args, r, s) \<and> fst (snd s) = rest"
    using net.read_request_exact [where ser = ser and parse = parse and h = ?h, OF assms(5) _ f e] assms(1) e o(1)
    by (fastforce simp: request_header_def)
  have "unat (args_size ?r) = length payload"
    using assms(8) by (simp add: mux_header_def unsigned_of_nat kMaxMessage_def take_bit_nat_eq_self)
  then have 2: "\<exists>s. reader_round net_read parse closed (as2, out2 @ rest2, d2) = (Deliver ?r payload, s) \<and> fst (snd s) = rest2"
    using net.reader_round_raw [where parse = parse and h = ?r and enc = enc and args = payload and rest = rest2, OF assms(14)]
      assms(1,10-12) o(2) mux_frame_error_free [of v payload ser req_id enc] assms(7,8) by fastforce
  have t: "response_take (request_id ?r) (mux_register req_id i ch1) = (Some i, (mux_register req_id i ch1)\<lparr>ch_pending :=
      smap_erase req_id (ch_pending (mux_register req_id i ch1))\<rparr>)"
    using assms(3) P(3) by (simp add: response_take_def mux_register_def mux_header_def)
  have "mux_finish parses i (response_complete i ?r payload ((mux_register req_id i ch1)\<lparr>ch_pending :=
      smap_erase req_id (ch_pending (mux_register req_id i ch1))\<rparr>)) = Inr payload"
    using P(2,4) assms(9)
    by (simp add: mux_finish_def response_complete_def mux_header_def bytes_of_def wake_def upd_call_def mux_register_def)
  then show ?thesis using 1 2 t by blast
qed

definition example_codec :: "RpcHeader \<Rightarrow> byte list option" where
  "example_codec h =
     (if h = request_header [69] [70] 1 [1] then Some [9] else if h = mux_header 1 [] [7] then Some [8] else None)"

definition example_parse :: "byte list \<Rightarrow> RpcHeader option" where
  "example_parse bs =
     (if bs = [9] then Some (request_header [69] [70] 1 [1]) else if bs = [8] then Some (mux_header 1 [] [7]) else None)"

lemma example_codec_prepare:
  "mux_prepare example_codec True (Some [1]) [69] [70] 5 2 (Channel_new 1 5000 True) =
     (Inr (1, 0, [1, 9, 1]), (Channel_new 1 5000 True)\<lparr>ch_next := 2,
        ch_calls := [\<lparr>pc_waiter = 5, pc_worker = 2, pc_payload = [], pc_error = [], pc_done = False, pc_failed = False\<rparr>]\<rparr>)"
proof -
  have v: "EncodeVarint32 1 = [1]" by (subst EncodeVarint32.simps) (simp add: word_le_nat_alt)
  show ?thesis
    by (simp add: mux_prepare_def check_request_def encode_frame_def kMaxHeader_def kMaxMessage_def v example_codec_def
        next_id_def new_call_def Channel_new_def)
qed

lemma example_response: "mux_frame example_codec 1 1 (Some [7]) = [1, 8, 7]"
proof -
  have v: "EncodeVarint32 1 = [1]" by (subst EncodeVarint32.simps) (simp add: word_le_nat_alt)
  have "request_header [69] [70] 1 [1] \<noteq> mux_header 1 [] [7]" by (simp add: request_header_def mux_header_def)
  then show ?thesis by (simp add: mux_frame_def mux_error_def kMaxMessage_def example_codec_def v)
qed

lemma example_write_all:
  "0 < length bs \<Longrightarrow> length bs \<le> 64 \<Longrightarrow>
   WriteAll bs [example_attempt] (Connection_new 4) = (Got bs, bs, Connection_new 4)"
  by (simp add: WriteAll_def Connection_new_def example_attempt_def min_def)

theorem mux_call_roundtrip_witness:
  "\<exists>s ch2. reader_round net_read example_parse False (replicate 3 example_attempt, [1, 8, 7] @ [], Connection_new 4) =
       (Deliver (mux_header 1 [] [7]) [7], s) \<and>
     mux_finish (\<lambda>_. True) 0 (response_complete 0 (mux_header 1 [] [7]) [7] ch2) = Inr [7]"
proof -
  have n: "request_header [69] [70] 1 [1] \<noteq> mux_header 1 [] [7]" by (simp add: request_header_def mux_header_def)
  have c: "\<forall>h enc. example_codec h = Some enc \<longrightarrow> example_parse enc = Some h" by (simp add: example_codec_def example_parse_def)
  have h: "example_codec (mux_header 1 [] [7]) = Some [8]" using n by (simp add: example_codec_def)
  have w: "WriteAll (mux_frame example_codec 1 1 (Some [7])) [example_attempt] (Connection_new 4) = (Got [1, 8, 7], [1, 8, 7], Connection_new 4)"
    unfolding example_response by (rule example_write_all) simp_all
  show ?thesis
    using mux_call_roundtrip [OF c example_codec_prepare _ example_write_all example_ready [where n = 3] _ _ _ _ h _ _ w
        example_ready [where n = 3], of "[]" 0 100 "\<lambda>_. True" "[]" False]
    by (auto simp: Channel_new_def kMaxMessage_def kMaxHeader_def)
qed

end
